(* ===== verification/Prelude.thy ===== *)
theory Prelude
  imports "HOL-Library.Word" "HOL-Library.Monad_Syntax"
begin

text \<open>
  Shared vocabulary of the development: the machine integer types of the C sources, the
  conversions C performs between them, the collections of rewrite rules the component theories
  feed, and generic facts on lists and options.

  Throughout, a computation that may leave the defined behaviour of C (a read or a write outside an
  allocated block, a use of an uninitialised or freed object, a call that never returns) has an
  \<open>option\<close> result, and \<open>None\<close> is that outcome. A theorem that a routine is
  safe is therefore a theorem that its result is some \<open>Some\<close>.
\<close>

unbundle bit_operations_syntax

type_synonym byte = "8 word"
type_synonym i16 = "16 word"
type_synonym i32 = "32 word"
type_synonym i64 = "64 word"

named_theorems mem_simps
named_theorems str_simps

text \<open>
  The implicit conversions: \<open>to_short\<close> and \<open>to_int\<close> are the value a
  \<open>short\<close> or an \<open>int\<close> holds after an assignment (two's complement, as every
  compiler the project supports does), \<open>to_size\<close> the value of a signed expression
  converted to the 64-bit \<open>size_t\<close>.
\<close>

definition to_short :: "int \<Rightarrow> int" where
  "to_short x = (x + 32768) mod 65536 - 32768"

definition to_int :: "int \<Rightarrow> int" where
  "to_int x = (x + 2147483648) mod 4294967296 - 2147483648"

definition to_size :: "int \<Rightarrow> int" where
  "to_size x = x mod 18446744073709551616"

text \<open>The value of a signed 32-bit \<open>int\<close>; stepping outside it is undefined in C.\<close>

definition int_ok :: "int \<Rightarrow> bool" where "int_ok x \<longleftrightarrow> - (2 ^ 31) \<le> x \<and> x < 2 ^ 31"

definition int_max :: int where "int_max = 2147483647"
definition int64_max :: int where "int64_max = 9223372036854775807"

lemma to_short_id [simp]: "- 32768 \<le> x \<Longrightarrow> x < 32768 \<Longrightarrow> to_short x = x"
  by (simp add: to_short_def)

lemma to_int_id [simp]: "- 2147483648 \<le> x \<Longrightarrow> x < 2147483648 \<Longrightarrow> to_int x = x"
  by (simp add: to_int_def)

lemma to_size_id [simp]: "0 \<le> x \<Longrightarrow> x < 18446744073709551616 \<Longrightarrow> to_size x = x"
  by (simp add: to_size_def)

lemma to_size_neg:
  "- 9223372036854775808 \<le> x \<Longrightarrow> x < 0 \<Longrightarrow> to_size x = x + 18446744073709551616"
  by (simp add: to_size_def) (smt (verit) mod_add_self2 mod_pos_pos_trivial)

text \<open>The signed reading of a word, through its unsigned one.\<close>

lemma sint_i64: "sint (w :: i64) = (if uint w < 2 ^ 63 then uint w else uint w - 2 ^ 64)"
proof -
  have b: "0 \<le> uint w" "uint w < 2 ^ 64" using uint_lt2p [of w] by simp_all
  have "sint w = (uint w + 2 ^ 63) mod 2 ^ 64 - 2 ^ 63"
    using int_word_sint [of "uint w", where 'a=64] by simp
  moreover have "2 ^ 63 \<le> uint w \<Longrightarrow> (uint w + 2 ^ 63) mod 2 ^ 64 = uint w - 2 ^ 63"
    using b mod_add_self2 [of "uint w - 2 ^ 63" "2 ^ 64"] by (simp add: add.commute)
  ultimately show ?thesis using b by auto
qed

lemma sint_i32: "sint (w :: i32) = (if uint w < 2 ^ 31 then uint w else uint w - 2 ^ 32)"
proof -
  have b: "0 \<le> uint w" "uint w < 2 ^ 32" using uint_lt2p [of w] by simp_all
  have "sint w = (uint w + 2 ^ 31) mod 2 ^ 32 - 2 ^ 31"
    using int_word_sint [of "uint w", where 'a=32] by simp
  moreover have "2 ^ 31 \<le> uint w \<Longrightarrow> (uint w + 2 ^ 31) mod 2 ^ 32 = uint w - 2 ^ 31"
    using b mod_add_self2 [of "uint w - 2 ^ 31" "2 ^ 32"] by (simp add: add.commute)
  ultimately show ?thesis using b by auto
qed

lemma sint_of_int_i32 [simp]:
  "- 2147483648 \<le> x \<Longrightarrow> x < 2147483648 \<Longrightarrow> sint (word_of_int x :: i32) = x"
  using int_word_sint [of x, where 'a=32] by simp

lemma sint_of_int_i64 [simp]:
  "- 9223372036854775808 \<le> x \<Longrightarrow> x < 9223372036854775808 \<Longrightarrow> sint (word_of_int x :: i64) = x"
  using int_word_sint [of x, where 'a=64] by simp

lemma sint_of_nat_i32 [simp]: "n < 2147483648 \<Longrightarrow> sint (word_of_nat n :: i32) = int n"
  using sint_of_int_i32 [of "int n"] by simp

text \<open>C's remainder takes the sign of the dividend.\<close>

definition c_mod :: "int \<Rightarrow> int \<Rightarrow> int" where
  "c_mod a b = (if 0 \<le> a then a mod b else - ((- a) mod b))"

lemma c_mod_nonneg [simp]: "0 \<le> a \<Longrightarrow> c_mod a b = a mod b"
  by (simp add: c_mod_def)

subsection \<open>Options\<close>

lemma bind_Some_iff:
  "Option.bind m f = Some y \<longleftrightarrow> (\<exists>x. m = Some x \<and> f x = Some y)"
  by (cases m) auto

text \<open>An assertion of the model: continue, or leave the defined behaviour.\<close>

definition guard :: "bool \<Rightarrow> unit option" where
  "guard b = (if b then Some () else None)"

lemma guard_True [simp]: "guard True = Some ()"
  by (simp add: guard_def)

lemma guard_eq_Some [simp]: "guard b = Some u \<longleftrightarrow> b"
  by (simp add: guard_def)

lemma guard_bind: "Option.bind (guard b) f = (if b then f () else None)"
  by (simp add: guard_def)

subsection \<open>Lists\<close>

lemma take_drop_append_take:
  "a \<le> b \<Longrightarrow> take a xs @ take (b - a) (drop a xs) = take b xs"
  by (metis le_add_diff_inverse take_add)

lemma drop_eq_Cons_nth: "i < length xs \<Longrightarrow> drop i xs = xs ! i # drop (Suc i) xs"
  by (simp add: Cons_nth_drop_Suc)

lemma take_Suc_drop: "i < length xs \<Longrightarrow> take (Suc n) (drop i xs) = xs ! i # take n (drop (Suc i) xs)"
  by (simp add: drop_eq_Cons_nth)

end
