(* ===== verification/C_Mem.thy ===== *)
theory C_Mem
  imports Prelude
begin

text \<open>
  Blocks of C memory. An allocated block (a \<open>malloc\<close>ed buffer, a local array) is the
  list of its cells; a pointer into it is the block together with an integer offset, which may be
  negative. Every access is checked against the block's bounds and is \<open>None\<close> outside
  them. \<open>load\<close> and \<open>store\<close> are the whole-range accesses \<open>memcpy\<close>,
  \<open>memmove\<close> and \<open>memset\<close> are made of; a negative length is the huge
  \<open>size_t\<close> it converts to and is out of bounds.
\<close>

definition rd :: "'a list \<Rightarrow> int \<Rightarrow> 'a option" where
  "rd m a = (if 0 \<le> a \<and> a < int (length m) then Some (m ! nat a) else None)"

definition load :: "'a list \<Rightarrow> int \<Rightarrow> int \<Rightarrow> 'a list option" where
  "load m a n =
     (if 0 \<le> n \<and> 0 \<le> a \<and> a + n \<le> int (length m)
      then Some (take (nat n) (drop (nat a) m)) else None)"

definition store :: "'a list \<Rightarrow> int \<Rightarrow> 'a list \<Rightarrow> 'a list option" where
  "store m a bs =
     (if 0 \<le> a \<and> a + int (length bs) \<le> int (length m)
      then Some (take (nat a) m @ bs @ drop (nat a + length bs) m) else None)"

definition wr :: "'a list \<Rightarrow> int \<Rightarrow> 'a \<Rightarrow> 'a list option" where
  "wr m a b = store m a [b]"

definition memcpy :: "'a list \<Rightarrow> int \<Rightarrow> 'a list \<Rightarrow> int \<Rightarrow> int \<Rightarrow> 'a list option" where
  "memcpy dst d src s n = do { bs \<leftarrow> load src s n; store dst d bs }"

definition memmove :: "'a list \<Rightarrow> int \<Rightarrow> int \<Rightarrow> int \<Rightarrow> 'a list option" where
  "memmove m d s n = do { bs \<leftarrow> load m s n; store m d bs }"

definition memset :: "'a list \<Rightarrow> int \<Rightarrow> 'a \<Rightarrow> nat \<Rightarrow> 'a list option" where
  "memset m a b n = store m a (replicate n b)"

subsection \<open>Laws of single accesses\<close>

lemma rd_nth [mem_simps]: "i < length m \<Longrightarrow> rd m (int i) = Some (m ! i)"
  by (simp add: rd_def)

lemma rd_eq_Some_iff: "rd m a = Some x \<longleftrightarrow> 0 \<le> a \<and> a < int (length m) \<and> m ! nat a = x"
  by (auto simp: rd_def)

lemma rd_load: "rd m a = map_option hd (load m a 1)"
  by (auto simp: rd_def load_def hd_drop_conv_nth hd_conv_nth)

lemma wr_list_update: "0 \<le> a \<Longrightarrow> a < int (length m) \<Longrightarrow> wr m a b = Some (m[nat a := b])"
  by (simp add: wr_def store_def upd_conv_take_nth_drop)

lemma length_store [mem_simps]: "store m a bs = Some m' \<Longrightarrow> length m' = length m"
  by (auto simp: store_def split: if_splits)

lemma length_wr [mem_simps]: "wr m a b = Some m' \<Longrightarrow> length m' = length m"
  by (simp add: wr_def length_store)

lemma length_load: "load m a n = Some bs \<Longrightarrow> length bs = nat n"
  by (auto simp: load_def split: if_splits)

lemma store_Nil [mem_simps]: "0 \<le> a \<Longrightarrow> a \<le> int (length m) \<Longrightarrow> store m a [] = Some m"
  by (simp add: store_def)

lemma store_Some:
  "0 \<le> a \<Longrightarrow> a + int (length bs) \<le> int (length m) \<Longrightarrow>
   store m a bs = Some (take (nat a) m @ bs @ drop (nat a + length bs) m)"
  by (simp add: store_def)

lemma load_Some:
  "0 \<le> n \<Longrightarrow> 0 \<le> a \<Longrightarrow> a + n \<le> int (length m) \<Longrightarrow>
   load m a n = Some (take (nat n) (drop (nat a) m))"
  by (simp add: load_def)

text \<open>What is stored is read back, and the rest of the block is not touched.\<close>

lemma load_store_same: "store m a bs = Some m' \<Longrightarrow> load m' a (int (length bs)) = Some bs"
  by (auto simp: store_def load_def split: if_splits)

lemma take_store: "store m a bs = Some m' \<Longrightarrow> n \<le> nat a \<Longrightarrow> take n m' = take n m"
  by (auto simp: store_def split: if_splits)

lemma drop_store:
  "store m a bs = Some m' \<Longrightarrow> nat a + length bs \<le> n \<Longrightarrow> drop n m' = drop n m"
  by (auto simp: store_def split: if_splits)

lemma rd_store_other:
  assumes "store m a bs = Some m'" and "b < a \<or> a + int (length bs) \<le> b"
  shows "rd m' b = rd m b"
  using assms
  by (auto simp: store_def rd_def nth_append min_def nat_less_iff split: if_splits)

lemma load_store_after:
  assumes "store m a bs = Some m'" and "a + int (length bs) \<le> b"
  shows "load m' b n = load m b n"
proof -
  have "0 \<le> a" using assms(1) by (auto simp: store_def split: if_splits)
  then have "drop (nat b) m' = drop (nat b) m"
    using assms by (intro drop_store [OF assms(1)]) linarith
  then show ?thesis using length_store [OF assms(1)] by (simp add: load_def)
qed

lemma load_Suc:
  "load m a (int (Suc n)) =
     Option.bind (rd m a) (\<lambda>b. map_option (Cons b) (load m (a + 1) (int n)))"
proof (cases "0 \<le> a \<and> a + int (Suc n) \<le> int (length m)")
  case True
  then have "nat a < length m" "nat (a + 1) = Suc (nat a)" "nat (1 + int n) = Suc n"
    by linarith+
  with True show ?thesis by (simp add: load_def rd_def take_Suc_drop)
next
  case False
  then show ?thesis by (auto simp: load_def rd_def)
qed

lemma store_load:
  assumes "load m a n = Some bs"
  shows "store m a bs = Some m"
proof -
  from assms have a: "0 \<le> n" "0 \<le> a" "a + n \<le> int (length m)"
    and bs: "bs = take (nat n) (drop (nat a) m)" by (auto simp: load_def split: if_splits)
  from a have l: "length bs = nat n" and le: "a + int (length bs) \<le> int (length m)"
    by (auto simp: bs)
  have "take (nat a) m @ bs @ drop (nat a + length bs) m = m"
    by (metis append_take_drop_id bs drop_drop add.commute l)
  with a le show ?thesis by (simp add: store_def)
qed

text \<open>Two adjacent stores are one: the law every emitter of the code relies on.\<close>

lemma store_store:
  assumes "store m a bs = Some m1"
  shows "store m1 (a + int (length bs)) cs = store m a (bs @ cs)"
proof -
  from assms have a: "0 \<le> a" "a + int (length bs) \<le> int (length m)"
    and m1: "m1 = take (nat a) m @ bs @ drop (nat a + length bs) m"
    by (auto simp: store_def split: if_splits)
  from a have n: "nat (a + int (length bs)) = nat a + length bs" by simp
  from a have "nat a + length bs \<le> length m" by linarith
  then have l: "length m1 = length m" by (simp add: m1)
  from a have "nat a \<le> length m" by linarith
  then have "take (nat a + length bs) m1 = take (nat a) m @ bs"
    and "drop (nat a + length bs + length cs) m1 = drop (nat a + (length bs + length cs)) m"
    by (simp_all add: m1 min_def ac_simps)
  then show ?thesis using a l n by (simp add: store_def ac_simps)
qed

lemma store_None_append: "0 \<le> a \<Longrightarrow> store m a bs = None \<Longrightarrow> store m a (bs @ cs) = None"
  by (auto simp: store_def split: if_splits)

lemma store_bind:
  assumes "0 \<le> a" and "b = a + int (length bs)"
  shows "Option.bind (store m a bs) (\<lambda>m'. store m' b cs) = store m a (bs @ cs)"
  using assms store_store [of m a bs] store_None_append [of a m bs cs]
  by (cases "store m a bs") auto

lemma store_bind_cont:
  assumes "0 \<le> a" and "b = a + int (length bs)"
  shows "Option.bind (store m a bs) (\<lambda>m'. Option.bind (store m' b cs) f) =
    Option.bind (store m a (bs @ cs)) f"
  using store_bind [OF assms, of m cs] by (cases "store m a bs") auto

lemma wr_bind_wr:
  assumes "0 \<le> a" and "b = a + 1"
  shows "Option.bind (wr m a x) (\<lambda>m'. wr m' b y) = store m a [x, y]"
  using store_bind [of a b "[x]" m "[y]"] assms by (simp add: wr_def)

lemma store_overwrite:
  assumes "store m a bs = Some m1" and "length cs = length bs"
  shows "store m1 a cs = store m a cs"
  using assms by (auto simp: store_def split: if_splits)

subsection \<open>Emitting at a moving offset\<close>

text \<open>
  The serialisers of the code keep an offset into an output block, copy some bytes there and
  advance the offset. \<open>emit\<close> is one such step; a sequence of them is one step that
  writes the concatenation, whether or not it fits the block.
\<close>

definition emit :: "'a list \<Rightarrow> (int \<times> 'a list) \<Rightarrow> (int \<times> 'a list) option" where
  "emit bs p = (case p of (off, res) \<Rightarrow>
     do { r \<leftarrow> store res off bs; Some (off + int (length bs), r) })"

lemma emit_Nil: "0 \<le> off \<Longrightarrow> off \<le> int (length res) \<Longrightarrow> emit [] (off, res) = Some (off, res)"
  by (simp add: emit_def mem_simps)

lemma emit_bind:
  assumes "0 \<le> off"
  shows "Option.bind (emit bs (off, res)) (emit cs) = emit (bs @ cs) (off, res)"
proof (cases "store res off bs")
  case None
  with store_None_append [OF assms None] show ?thesis by (simp add: emit_def)
next
  case (Some r)
  then show ?thesis
    by (simp add: emit_def store_store [OF Some] algebra_simps)
qed

lemma emit_emit:
  assumes "emit bs (off, res) = Some p"
  shows "emit cs p = emit (bs @ cs) (off, res)"
proof -
  from assms have "0 \<le> off"
    by (auto simp: emit_def store_def bind_Some_iff split: if_splits)
  from emit_bind [OF this, of bs res cs] assms show ?thesis by simp
qed

lemma emit_SomeD:
  assumes "emit bs (off, res) = Some (off', res')"
  shows "off' = off + int (length bs)" and "store res off bs = Some res'"
    and "0 \<le> off" and "off' \<le> int (length res)" and "length res' = length res"
proof -
  from assms obtain r where r: "store res off bs = Some r"
    and e: "off' = off + int (length bs)" "res' = r"
    by (auto simp: emit_def bind_Some_iff)
  from r have "0 \<le> off \<and> off + int (length bs) \<le> int (length res)"
    by (auto simp: store_def split: if_splits)
  with r e show "off' = off + int (length bs)" "store res off bs = Some res'" "0 \<le> off"
    "off' \<le> int (length res)" "length res' = length res"
    by (simp_all add: length_store)
qed

lemma emit_bounds:
  assumes "emit bs (off, res) = Some (off', res')"
  shows "0 \<le> off'" and "off' \<le> int (length res')" and "length res' = length res"
  using emit_SomeD [OF assms] by simp_all

lemma emit_Some:
  assumes "0 \<le> off" and "off + int (length bs) \<le> int (length res)"
  shows "emit bs (off, res) =
    Some (off + int (length bs), take (nat off) res @ bs @ drop (nat off + length bs) res)"
  using assms by (simp add: emit_def store_Some)

lemma emit_None:
  "0 \<le> off \<Longrightarrow> int (length res) < off + int (length bs) \<Longrightarrow> emit bs (off, res) = None"
  by (simp add: emit_def store_def)

end
