(* ===== verification/C_Str.thy ===== *)
theory C_Str
  imports C_Mem
begin

text \<open>
  C strings and the functions of \<open>string.h\<close>, \<open>stdlib.h\<close> and \<open>stdio.h\<close>
  the sources call on them. A NUL-terminated string that is only read is the list of its bytes
  before the terminator; one that is read in place inside a block is the block and an offset
  (\<open>strlen_at\<close>, \<open>strncmp_at\<close>, \<open>atoi_at\<close>).
\<close>

definition bytes :: "string \<Rightarrow> byte list" where
  "bytes s = map of_char s"

lemma bytes_append [simp]: "bytes (s @ t) = bytes s @ bytes t"
  by (simp add: bytes_def)

lemma bytes_Nil [simp]: "bytes [] = []"
  by (simp add: bytes_def)

lemma bytes_Cons: "bytes (c # s) = of_char c # bytes s"
  by (simp add: bytes_def)

lemma length_bytes [simp]: "length (bytes s) = length s"
  by (simp add: bytes_def)

subsection \<open>Lengths and comparisons\<close>

definition strlen_at :: "byte list \<Rightarrow> int \<Rightarrow> int option" where
  "strlen_at m p =
     (if 0 \<le> p \<and> p \<le> int (length m) \<and> 0 \<in> set (drop (nat p) m)
      then Some (int (length (takeWhile (\<lambda>b. b \<noteq> 0) (drop (nat p) m)))) else None)"

text \<open>
  \<open>strncmp\<close> compares at most \<open>n\<close> bytes, stops at the first difference and after a
  NUL, and reads no further than that.
\<close>

fun strncmp_at :: "byte list \<Rightarrow> int \<Rightarrow> byte list \<Rightarrow> int \<Rightarrow> nat \<Rightarrow> int option" where
  "strncmp_at a p b q 0 = Some 0"
| "strncmp_at a p b q (Suc n) = do {
     x \<leftarrow> rd a p;
     y \<leftarrow> rd b q;
     if x \<noteq> y then Some (uint x - uint y)
     else if x = 0 then Some 0
     else strncmp_at a (p + 1) b (q + 1) n }"

lemma strncmp_at_drop:
  assumes "0 \<le> p" "0 \<le> q" "nat p + n \<le> length a" "nat q + n \<le> length b"
    and "0 \<notin> set (take n (drop (nat p) a))"
  shows "\<exists>r. strncmp_at a p b q n = Some r \<and>
    (r = 0 \<longleftrightarrow> take n (drop (nat p) a) = take n (drop (nat q) b))"
  using assms
proof (induction n arbitrary: p q)
  case 0
  then show ?case by simp
next
  case (Suc n)
  from Suc.prems have lt: "nat p < length a" "nat q < length b" by auto
  have da: "drop (nat p) a = a ! nat p # drop (Suc (nat p)) a"
    and db: "drop (nat q) b = b ! nat q # drop (Suc (nat q)) b"
    using lt by (simp_all add: drop_eq_Cons_nth)
  have r: "rd a p = Some (a ! nat p)" "rd b q = Some (b ! nat q)"
    using Suc.prems lt by (auto simp: rd_def)
  have sp: "nat (p + 1) = Suc (nat p)" "nat (q + 1) = Suc (nat q)" using Suc.prems by auto
  have "\<exists>r. strncmp_at a (p + 1) b (q + 1) n = Some r \<and>
    (r = 0 \<longleftrightarrow> take n (drop (nat (p + 1)) a) = take n (drop (nat (q + 1)) b))"
    by (rule Suc.IH) (use Suc.prems da sp in auto)
  moreover have "a ! nat p \<noteq> 0" using Suc.prems(5) da by auto
  moreover have "uint (a ! nat p) = uint (b ! nat q) \<longleftrightarrow> a ! nat p = b ! nat q"
    by (simp add: word_uint_eq_iff)
  ultimately show ?case by (auto simp: r da db sp)
qed

subsection \<open>Decimal numbers\<close>

definition is_space :: "byte \<Rightarrow> bool" where
  "is_space b = (b = 32 \<or> (9 \<le> b \<and> b \<le> 13))"

definition is_digit :: "byte \<Rightarrow> bool" where
  "is_digit b = (48 \<le> b \<and> b \<le> 57)"

fun digits_val :: "int \<Rightarrow> byte list \<Rightarrow> int" where
  "digits_val acc [] = acc"
| "digits_val acc (b # bs) = (if is_digit b then digits_val (acc * 10 + (uint b - 48)) bs else acc)"

definition skip_sign :: "byte list \<Rightarrow> byte list" where
  "skip_sign bs = (case bs of [] \<Rightarrow> [] | b # r \<Rightarrow> if b = 45 \<or> b = 43 then r else bs)"

definition clamp_long :: "int \<Rightarrow> int" where
  "clamp_long v = max (- int64_max - 1) (min int64_max v)"

text \<open>\<open>strtol(_, NULL, 10)\<close> and \<open>atoi\<close>, which is its value converted to \<open>int\<close>.\<close>

definition strtol10 :: "byte list \<Rightarrow> int" where
  "strtol10 bs =
     (let t = dropWhile is_space bs;
          v = digits_val 0 (skip_sign t)
      in clamp_long (if t \<noteq> [] \<and> hd t = 45 then - v else v))"

definition atoi :: "byte list \<Rightarrow> int" where
  "atoi bs = to_int (strtol10 bs)"

text \<open>The same on a string inside a block: the scan must meet its last byte before the block ends.\<close>

definition atoi_at :: "byte list \<Rightarrow> int \<Rightarrow> int option" where
  "atoi_at m p = do {
     guard (0 \<le> p \<and> p \<le> int (length m));
     let bs = drop (nat p) m;
     guard (dropWhile is_digit (skip_sign (dropWhile is_space bs)) \<noteq> []);
     Some (atoi bs) }"

text \<open>\<open>printf\<close>'s conversion \<open>%d\<close>.\<close>

definition digit_byte :: "nat \<Rightarrow> byte" where
  "digit_byte d = of_nat (48 + d)"

fun dec_nat :: "nat \<Rightarrow> byte list" where
  "dec_nat n = (if n < 10 then [digit_byte n] else dec_nat (n div 10) @ [digit_byte (n mod 10)])"

declare dec_nat.simps [simp del]

definition dec_int :: "int \<Rightarrow> byte list" where
  "dec_int x = (if x < 0 then 45 # dec_nat (nat (- x)) else dec_nat (nat x))"

lemma uint_digit_byte: "d < 10 \<Longrightarrow> uint (digit_byte d) = 48 + int d"
  by (simp add: digit_byte_def uint_nat unat_of_nat del: of_nat_add)

lemma is_digit_digit_byte [simp]: "d < 10 \<Longrightarrow> is_digit (digit_byte d)"
  using uint_digit_byte [of d] by (simp add: is_digit_def word_le_def)

lemma dec_nat_digits: "\<forall>b \<in> set (dec_nat n). is_digit b"
proof (induction n rule: dec_nat.induct)
  case (1 n)
  then show ?case by (subst dec_nat.simps) auto
qed

lemma dec_nat_nonempty [simp]: "dec_nat n \<noteq> []"
  by (subst dec_nat.simps) simp

lemma digits_val_append:
  "\<forall>b \<in> set bs. is_digit b \<Longrightarrow> digits_val a (bs @ cs) = digits_val (digits_val a bs) cs"
  by (induction bs arbitrary: a) auto

lemma digits_val_dec_nat: "digits_val 0 (dec_nat n) = int n"
proof (induction n rule: dec_nat.induct)
  case (1 n)
  show ?case
  proof (cases "n < 10")
    case True
    then show ?thesis by (subst dec_nat.simps) (simp add: uint_digit_byte)
  next
    case False
    with 1 have "digits_val 0 (dec_nat (n div 10)) = int (n div 10)" by simp
    then have "digits_val 0 (dec_nat (n div 10) @ [digit_byte (n mod 10)]) =
        int (n div 10) * 10 + int (n mod 10)"
      by (simp add: digits_val_append dec_nat_digits uint_digit_byte)
    also have "\<dots> = int n" by presburger
    finally show ?thesis using False by (subst dec_nat.simps) simp
  qed
qed

lemma digits_val_dec_nat_rest:
  "rest = [] \<or> \<not> is_digit (hd rest) \<Longrightarrow> digits_val 0 (dec_nat n @ rest) = int n"
  by (cases rest) (auto simp: digits_val_append dec_nat_digits digits_val_dec_nat)

lemma digit_not_space_sign:
  "is_digit b \<Longrightarrow> \<not> is_space b \<and> b \<noteq> 45 \<and> b \<noteq> 43"
  by (auto simp: is_digit_def is_space_def word_le_def)

lemma hd_dec_nat: "is_digit (hd (dec_nat n))"
  by (meson dec_nat_digits dec_nat_nonempty hd_in_set)

text \<open>What \<open>%d\<close> prints, \<open>strtol\<close> reads back.\<close>

lemma strtol10_dec_nat:
  assumes "int n \<le> int64_max" and "rest = [] \<or> \<not> is_digit (hd rest)"
  shows "strtol10 (dec_nat n @ rest) = int n"
proof -
  obtain b r where d: "dec_nat n = b # r" by (cases "dec_nat n") auto
  have b: "is_digit b" using hd_dec_nat [of n] by (simp add: d)
  have ns: "\<not> is_space b" "b \<noteq> 45" "b \<noteq> 43" using digit_not_space_sign [OF b] by auto
  have "digits_val 0 (b # r @ rest) = int n"
    using digits_val_dec_nat_rest [OF assms(2), of n] by (simp add: d)
  then have "strtol10 (dec_nat n @ rest) = clamp_long (int n)"
    by (simp add: strtol10_def d ns skip_sign_def Let_def)
  then show ?thesis using assms(1) by (simp add: clamp_long_def int64_max_def)
qed

lemma atoi_dec_nat:
  assumes "int n \<le> int_max" and "rest = [] \<or> \<not> is_digit (hd rest)"
  shows "atoi (dec_nat n @ rest) = int n"
  using strtol10_dec_nat [of n rest] assms
  by (simp add: atoi_def int_max_def int64_max_def)

lemma atoi_at_dec_nat:
  assumes "int n \<le> int_max" and "\<not> is_digit c"
  shows "atoi_at (pre @ dec_nat n @ c # post) (int (length pre)) = Some (int n)"
proof -
  obtain b r where d: "dec_nat n = b # r" by (cases "dec_nat n") auto
  have b: "is_digit b" using hd_dec_nat [of n] by (simp add: d)
  have ns: "\<not> is_space b" "b \<noteq> 45" "b \<noteq> 43" using digit_not_space_sign [OF b] by auto
  have "dropWhile is_digit (dec_nat n @ c # post) = c # post"
    using dec_nat_digits [of n] assms(2) by (simp add: dropWhile_append2)
  then have "dropWhile is_digit (skip_sign (dropWhile is_space (dec_nat n @ c # post))) \<noteq> []"
    by (simp add: d ns skip_sign_def)
  then show ?thesis
    using atoi_dec_nat [OF assms(1), of "c # post"] assms(2)
    by (simp add: atoi_at_def Let_def guard_def)
qed

subsection \<open>Tokens\<close>

text \<open>
  One call of \<open>strtok\<close> with a single delimiter: skip delimiters, cut at the next one. The
  result is the token and the rest of the string the next call with \<open>NULL\<close> continues on,
  or \<open>None\<close> for the NULL pointer it returns when no token is left.
\<close>

definition strtok :: "byte \<Rightarrow> byte list \<Rightarrow> (byte list \<times> byte list) option" where
  "strtok d s =
     (let t = dropWhile (\<lambda>b. b = d) s
      in if t = [] then None
         else Some (takeWhile (\<lambda>b. b \<noteq> d) t, drop 1 (dropWhile (\<lambda>b. b \<noteq> d) t)))"

lemma strtok_hit:
  assumes "s \<noteq> []" and "d \<notin> set s"
  shows "strtok d (s @ d # rest) = Some (s, rest)"
proof -
  from assms have n: "\<forall>b \<in> set s. b \<noteq> d" by auto
  obtain x xs where s: "s = x # xs" using assms(1) by (cases s) auto
  from n s have "dropWhile (\<lambda>b. b = d) (s @ d # rest) = s @ d # rest" by auto
  moreover from n have "takeWhile (\<lambda>b. b \<noteq> d) (s @ d # rest) = s"
    and "dropWhile (\<lambda>b. b \<noteq> d) (s @ d # rest) = d # rest"
    by (auto simp: takeWhile_append2 dropWhile_append2)
  ultimately show ?thesis by (simp add: strtok_def Let_def)
qed

lemma strtok_end:
  assumes "s \<noteq> []" and "d \<notin> set s"
  shows "strtok d s = Some (s, [])"
proof -
  from assms have n: "\<forall>b \<in> set s. b \<noteq> d" by auto
  obtain x xs where s: "s = x # xs" using assms(1) by (cases s) auto
  from n s have "dropWhile (\<lambda>b. b = d) s = s" by auto
  moreover from n have "takeWhile (\<lambda>b. b \<noteq> d) s = s" and "dropWhile (\<lambda>b. b \<noteq> d) s = []"
    by (auto simp: takeWhile_eq_all_conv simp del: dropWhile_eq_drop)
  ultimately show ?thesis using assms(1)
    by (simp only: strtok_def Let_def) simp
qed

lemma strtok_shorter:
  assumes "strtok d s = Some (t, r)"
  shows "length r < length s"
proof -
  define u where "u = dropWhile (\<lambda>b. b = d) s"
  define v where "v = dropWhile (\<lambda>b. b \<noteq> d) u"
  from assms have u: "u \<noteq> []" and r: "r = drop 1 v"
    by (auto simp: strtok_def Let_def u_def v_def split: if_splits)
  have "length u \<le> length s" unfolding u_def by (rule length_dropWhile_le)
  moreover have "length v \<le> length u" unfolding v_def by (rule length_dropWhile_le)
  moreover have "length r \<le> length v - 1" by (simp add: r)
  moreover have "0 < length u" using u by simp
  ultimately show ?thesis by linarith
qed

end
