(* ===== verification/Byte_Codec.thy ===== *)
theory Byte_Codec
  imports C_Str
begin

text \<open>
  The byte codecs of \<open>utils.c\<close>: the big-endian four-byte lengths and little-endian
  eight-byte request identifiers every frame between the agents and every Dubbo frame carries, the
  float codec, the in-place eight-byte increment and the decimal printer the provider agent uses
  for \<open>Content-Length\<close>. Each writes or reads a block through a pointer. The lemmas show
  that the encoders and decoders are inverse to each other on all values and bytes, and what the
  values are; \<open>int_to_string\<close> is right for one and two digits only.
\<close>

section \<open>The code\<close>

definition four_char_to_int :: "byte list \<Rightarrow> int \<Rightarrow> i32 option" where
  "four_char_to_int m p = do {
     c0 \<leftarrow> rd m p; c1 \<leftarrow> rd m (p + 1); c2 \<leftarrow> rd m (p + 2); c3 \<leftarrow> rd m (p + 3);
     let len = (0 :: i64);
     let len = len OR scast (push_bit 24 ((scast c0 :: i32) AND 0xFF));
     let len = len OR scast (push_bit 16 ((scast c1 :: i32) AND 0xFF));
     let len = len OR scast (push_bit 8 ((scast c2 :: i32) AND 0xFF));
     let len = len OR scast ((scast c3 :: i32) AND 0xFF);
     Some (ucast len) }"

definition int_to_four_char :: "i32 \<Rightarrow> byte list \<Rightarrow> int \<Rightarrow> byte list option" where
  "int_to_four_char integer m p = do {
     m \<leftarrow> wr m p (ucast (signed_drop_bit 24 integer AND 0xFF));
     m \<leftarrow> wr m (p + 1) (ucast (signed_drop_bit 16 integer AND 0xFF));
     m \<leftarrow> wr m (p + 2) (ucast (signed_drop_bit 8 integer AND 0xFF));
     wr m (p + 3) (ucast (signed_drop_bit 0 integer AND 0xFF)) }"

text \<open>The bytes of an object in the memory of a little-endian machine, and back.\<close>

definition le_bytes :: "nat \<Rightarrow> 'a::len word \<Rightarrow> byte list" where
  "le_bytes n x = map (\<lambda>k. ucast (drop_bit (8 * k) x)) [0..<n]"

fun le_val :: "byte list \<Rightarrow> 'a::len word" where
  "le_val [] = 0"
| "le_val (b # bs) = ucast b OR push_bit 8 (le_val bs)"

definition long_to_8bytes :: "i64 \<Rightarrow> byte list \<Rightarrow> int \<Rightarrow> byte list option" where
  "long_to_8bytes integer m p = memcpy m p (le_bytes 8 integer) 0 8"

definition bytes8_to_long :: "byte list \<Rightarrow> int \<Rightarrow> i64 option" where
  "bytes8_to_long m p = map_option le_val (load m p 8)"

text \<open>A \<open>float\<close> is its 32-bit representation; the branch compiled on x86-64 copies it.\<close>

definition unpackFloat :: "byte list \<Rightarrow> int \<Rightarrow> i32 option" where
  "unpackFloat m p = map_option le_val (load m p 4)"

definition packFloat :: "byte list \<Rightarrow> int \<Rightarrow> i32 \<Rightarrow> (int \<times> byte list) option" where
  "packFloat m p x = do {
     let q = le_bytes 4 x;
     m \<leftarrow> wr m p (q ! 0);
     m \<leftarrow> wr m (p + 1) (q ! 1);
     m \<leftarrow> wr m (p + 2) (q ! 2);
     m \<leftarrow> wr m (p + 3) (q ! 3);
     Some (4, m) }"

definition int_to_string :: "byte list \<Rightarrow> int \<Rightarrow> int \<Rightarrow> byte list option" where
  "int_to_string m str num =
     (if num < 10 then wr m str (of_int (num + 48))
      else do {
        let new_val = num div 10;
        m \<leftarrow> wr m str (of_int (new_val + 48));
        wr m (str + 1) (of_int (num - new_val * 10 + 48)) })"

fun increase_from :: "nat \<Rightarrow> nat \<Rightarrow> byte list \<Rightarrow> int \<Rightarrow> byte list option" where
  "increase_from 0 i m p = Some m"
| "increase_from (Suc n) i m p = do {
     b \<leftarrow> rd m (p + int i);
     m \<leftarrow> wr m (p + int i) (b + 1);
     if b + 1 \<noteq> 0 then Some m else increase_from n (Suc i) m p }"

definition increase_long_by_one :: "byte list \<Rightarrow> int \<Rightarrow> byte list option" where
  "increase_long_by_one m p = increase_from 8 0 m p"

section \<open>Big-endian lengths\<close>

text \<open>What the four bytes denote.\<close>

definition be32 :: "byte \<Rightarrow> byte \<Rightarrow> byte \<Rightarrow> byte \<Rightarrow> i32" where
  "be32 b0 b1 b2 b3 =
     push_bit 24 (ucast b0) OR push_bit 16 (ucast b1) OR push_bit 8 (ucast b2) OR ucast b3"

definition be32_bytes :: "i32 \<Rightarrow> byte list" where
  "be32_bytes x = [ucast (drop_bit 24 x), ucast (drop_bit 16 x), ucast (drop_bit 8 x), ucast x]"

lemma length_be32_bytes [simp]: "length (be32_bytes x) = 4"
  by (simp add: be32_bytes_def)

lemma and_255: "x AND 255 = take_bit 8 x" for x :: "'a::len word"
  by (simp add: take_bit_eq_mask mask_eq_exp_minus_1)

lemma low_byte: "(scast (c :: byte) :: i32) AND 0xFF = ucast c"
proof (unfold and_255, rule bit_word_eqI)
  fix n assume "n < LENGTH(32)"
  have "n < 7 \<or> n = 7 \<or> 8 \<le> n" by auto
  then show "bit (take_bit 8 (scast c :: i32)) n = bit (ucast c :: i32) n"
    by (auto simp: bit_simps min_def dest: bit_imp_le_length)
qed

lemma narrow_wide: "(ucast (scast (x :: i32) :: i64) :: i32) = x"
proof (rule bit_word_eqI)
  fix n assume "n < LENGTH(32)"
  then have "n < 31 \<or> n = 31" by auto
  then show "bit (ucast (scast x :: i64) :: i32) n = bit x n" by (auto simp: bit_simps min_def)
qed

lemma ucast_or: "(ucast ((x :: i64) OR y) :: i32) = ucast x OR ucast y"
  by (rule bit_word_eqI) (auto simp: bit_simps)

lemma accumulate_be32: "(ucast (((((0 :: i64)
   OR scast (push_bit 24 ((scast c0 :: i32) AND 0xFF)))
   OR scast (push_bit 16 ((scast c1 :: i32) AND 0xFF)))
   OR scast (push_bit 8 ((scast c2 :: i32) AND 0xFF)))
   OR scast ((scast c3 :: i32) AND 0xFF)) :: i32) = be32 c0 c1 c2 c3"
  for c0 c1 c2 c3 :: byte
  by (simp only: ucast_or narrow_wide low_byte be32_def) (simp only: or.left_neutral unsigned_0 or.assoc)

lemma bit_be32: "bit (be32 b0 b1 b2 b3) n \<longleftrightarrow>
  (if n < 8 then bit b3 n else if n < 16 then bit b2 (n - 8) else if n < 24 then bit b1 (n - 16)
   else n < 32 \<and> bit b0 (n - 24))"
  unfolding be32_def by (auto simp: bit_simps dest: bit_imp_le_length)

lemma be32_of_bytes:
  "be32 (ucast (drop_bit 24 x)) (ucast (drop_bit 16 x)) (ucast (drop_bit 8 x)) (ucast x) = x"
  by (rule bit_word_eqI) (auto simp: bit_be32 bit_simps)

lemma be32_bytes_be32: "be32_bytes (be32 b0 b1 b2 b3) = [b0, b1, b2, b3]"
proof -
  have "ucast (drop_bit 24 (be32 b0 b1 b2 b3)) = b0"
    by (rule bit_word_eqI) (auto simp: bit_be32 bit_simps)
  moreover have "ucast (drop_bit 16 (be32 b0 b1 b2 b3)) = b1"
    by (rule bit_word_eqI) (auto simp: bit_be32 bit_simps)
  moreover have "ucast (drop_bit 8 (be32 b0 b1 b2 b3)) = b2"
    by (rule bit_word_eqI) (auto simp: bit_be32 bit_simps)
  moreover have "ucast (be32 b0 b1 b2 b3) = b3"
    by (rule bit_word_eqI) (auto simp: bit_be32 bit_simps)
  ultimately show ?thesis by (simp add: be32_bytes_def)
qed

lemma ucast_byte_bound: "uint (ucast (b :: byte) :: i32) = uint b" "uint b < 256"
  using uint_lt2p [of b] by (simp_all add: uint_up_ucast is_up)

lemma uint_be32:
  "uint (be32 b0 b1 b2 b3) = uint b0 * 2 ^ 24 + uint b1 * 2 ^ 16 + uint b2 * 2 ^ 8 + uint b3"
proof -
  have "be32 b0 b1 b2 b3 =
      push_bit 24 (ucast b0) OR (push_bit 16 (ucast b1) OR (push_bit 8 (ucast b2) OR ucast b3))"
    by (simp add: be32_def or.assoc)
  also have "\<dots> =
      push_bit 24 (ucast b0) + (push_bit 16 (ucast b1) + (push_bit 8 (ucast b2) + ucast b3))"
    by (subst disjunctive_add_eq_or, rule bit_word_eqI,
        auto simp: bit_simps dest: bit_imp_le_length)+
  finally have "be32 b0 b1 b2 b3 =
      word_of_int (uint b0 * 2 ^ 24 + uint b1 * 2 ^ 16 + uint b2 * 2 ^ 8 + uint b3)"
    by (simp add: push_bit_eq_mult)
  then have "uint (be32 b0 b1 b2 b3) =
      (uint b0 * 2 ^ 24 + uint b1 * 2 ^ 16 + uint b2 * 2 ^ 8 + uint b3) mod 2 ^ 32"
    by (simp only: uint_word_of_int) simp
  also have "\<dots> = uint b0 * 2 ^ 24 + uint b1 * 2 ^ 16 + uint b2 * 2 ^ 8 + uint b3"
    using ucast_byte_bound(2) [of b0] ucast_byte_bound(2) [of b1] ucast_byte_bound(2) [of b2]
      ucast_byte_bound(2) [of b3] by (intro mod_pos_pos_trivial) (simp_all)
  finally show ?thesis .
qed

lemma four_char_to_int_load:
  "four_char_to_int m p = map_option (\<lambda>bs. be32 (bs ! 0) (bs ! 1) (bs ! 2) (bs ! 3)) (load m p 4)"
proof (cases "0 \<le> p \<and> p + 4 \<le> int (length m)")
  case True
  then have "nat (p + 1) = nat p + 1" "nat (p + 2) = nat p + 2" "nat (p + 3) = nat p + 3"
    by auto
  with True have r: "rd m p = Some (m ! nat p)" "rd m (p + 1) = Some (m ! (nat p + 1))"
    "rd m (p + 2) = Some (m ! (nat p + 2))" "rd m (p + 3) = Some (m ! (nat p + 3))"
    by (auto simp: rd_def)
  have "four_char_to_int m p =
      Some (be32 (m ! nat p) (m ! (nat p + 1)) (m ! (nat p + 2)) (m ! (nat p + 3)))"
    unfolding four_char_to_int_def r Let_def Option.bind.bind_lunit accumulate_be32 ..
  moreover from True have "nat p \<le> length m" by linarith
  ultimately show ?thesis using True by (simp add: load_def)
next
  case False
  then have "rd m p = None \<or> rd m (p + 3) = None" by (auto simp: rd_def)
  with False show ?thesis
    by (auto simp: four_char_to_int_def load_def Let_def split: Option.bind_split)
qed

lemma four_char_to_int_append:
  "four_char_to_int (pre @ b0 # b1 # b2 # b3 # post) (int (length pre)) = Some (be32 b0 b1 b2 b3)"
  by (simp add: four_char_to_int_load load_def)

lemma byte_of_shift:
  "(ucast (x AND 0xFF) :: byte) = ucast x"
  "k \<le> 24 \<Longrightarrow> (ucast (signed_drop_bit k x) :: byte) = ucast (drop_bit k x)" for x :: i32
  unfolding and_255 by (rule bit_word_eqI, auto simp: bit_simps)+

lemma int_to_four_char_store:
  assumes "0 \<le> p"
  shows "int_to_four_char x m p = store m p (be32_bytes x)"
  using assms
  by (simp add: int_to_four_char_def byte_of_shift be32_bytes_def wr_def store_bind store_bind_cont)

text \<open>Encoding and decoding are inverse to each other.\<close>

lemma be32_nth_bytes:
  "be32 (be32_bytes x ! 0) (be32_bytes x ! 1) (be32_bytes x ! 2) (be32_bytes x ! 3) = x"
  by (simp add: be32_bytes_def be32_of_bytes)

lemma four_char_roundtrip:
  assumes "int_to_four_char x m p = Some m'" and "0 \<le> p"
  shows "four_char_to_int m' p = Some x"
proof -
  from assms have "store m p (be32_bytes x) = Some m'" by (simp add: int_to_four_char_store)
  from load_store_same [OF this] show ?thesis
    by (simp add: four_char_to_int_load be32_nth_bytes [simplified])
qed

lemma four_char_restore:
  assumes "four_char_to_int m p = Some x"
  shows "int_to_four_char x m p = Some m"
proof -
  from assms obtain bs where l: "load m p 4 = Some bs"
    and x: "x = be32 (bs ! 0) (bs ! 1) (bs ! 2) (bs ! 3)"
    by (auto simp: four_char_to_int_load)
  from l have p: "0 \<le> p" "p + 4 \<le> int (length m)" and bs: "bs = take 4 (drop (nat p) m)"
    by (auto simp: load_def split: if_splits)
  have "length bs = 4" using length_load [OF l] by simp
  then have "be32_bytes x = bs"
    by (auto simp: x be32_bytes_be32 list_eq_iff_nth_eq less_Suc_eq numeral_eq_Suc)
  then show ?thesis using p store_load [OF l] by (simp add: int_to_four_char_store)
qed

section \<open>Little-endian objects\<close>

lemma length_le_bytes [simp]: "length (le_bytes n x) = n"
  by (simp add: le_bytes_def)

lemma nth_le_bytes: "k < n \<Longrightarrow> le_bytes n x ! k = ucast (drop_bit (8 * k) x)"
  by (simp add: le_bytes_def)

lemma bit_le_val:
  "bit (le_val bs :: 'a::len word) n \<longleftrightarrow>
     n < LENGTH('a) \<and> n div 8 < length bs \<and> bit (bs ! (n div 8)) (n mod 8)"
proof (induction bs arbitrary: n)
  case Nil
  then show ?case by simp
next
  case (Cons b bs)
  show ?case
  proof (cases "n < 8")
    case True
    then show ?thesis by (auto simp: bit_simps)
  next
    case False
    then obtain m where n: "n = m + 8" using le_Suc_ex [of 8 n] by (auto simp: add.commute)
    have "\<not> bit b (m + 8)" by (auto dest: bit_imp_le_length)
    moreover have "(m + 8) div 8 = Suc (m div 8)" by simp
    ultimately show ?thesis by (auto simp: n bit_simps Cons.IH)
  qed
qed

lemma le_val_le_bytes:
  assumes "LENGTH('a::len) = 8 * n"
  shows "le_val (le_bytes n x) = (x :: 'a word)"
proof (rule bit_word_eqI)
  fix k assume "k < LENGTH('a)"
  then have "k div 8 < n" using assms by auto
  moreover have "8 * (k div 8) + k mod 8 = k" by simp
  moreover have "k mod 8 < 8" by simp
  ultimately show "bit (le_val (le_bytes n x) :: 'a word) k = bit x k"
    using \<open>k < LENGTH('a)\<close> by (simp add: bit_le_val nth_le_bytes bit_simps)
qed

lemma le_bytes_le_val:
  assumes "LENGTH('a::len) = 8 * length bs"
  shows "le_bytes (length bs) (le_val bs :: 'a word) = bs"
proof (rule nth_equalityI)
  fix k assume "k < length (le_bytes (length bs) (le_val bs :: 'a word))"
  then have k: "k < length bs" by simp
  show "le_bytes (length bs) (le_val bs :: 'a word) ! k = bs ! k"
  proof (rule bit_word_eqI)
    fix n assume n: "n < LENGTH(8)"
    then have "(n + 8 * k) div 8 = k" "(n + 8 * k) mod 8 = n" by simp_all
    moreover have "n + 8 * k < 8 * length bs" using n k by simp
    ultimately show "bit (le_bytes (length bs) (le_val bs :: 'a word) ! k) n = bit (bs ! k) n"
      using k n assms by (simp add: nth_le_bytes bit_simps bit_le_val add.commute)
  qed
qed simp

lemma long_to_8bytes_store: "long_to_8bytes x m p = store m p (le_bytes 8 x)"
  by (simp add: long_to_8bytes_def memcpy_def load_def)

lemma long_roundtrip:
  assumes "long_to_8bytes x m p = Some m'"
  shows "bytes8_to_long m' p = Some x"
proof -
  from assms have "store m p (le_bytes 8 x) = Some m'" by (simp add: long_to_8bytes_store)
  from load_store_same [OF this] show ?thesis
    by (simp add: bytes8_to_long_def le_val_le_bytes)
qed

lemma long_restore:
  assumes "bytes8_to_long m p = Some x"
  shows "long_to_8bytes x m p = Some m"
proof -
  from assms obtain bs where l: "load m p 8 = Some bs" and x: "x = le_val bs"
    by (auto simp: bytes8_to_long_def)
  have "length bs = 8" using length_load [OF l] by simp
  then have "le_bytes 8 x = bs" using le_bytes_le_val [of bs, where 'a=64] by (simp add: x)
  with store_load [OF l] show ?thesis by (simp add: long_to_8bytes_store)
qed

lemma packFloat_store:
  assumes "0 \<le> p"
  shows "packFloat m p x = map_option (Pair 4) (store m p (le_bytes 4 x))"
proof -
  have "le_bytes 4 x = [le_bytes 4 x ! 0, le_bytes 4 x ! 1, le_bytes 4 x ! 2, le_bytes 4 x ! 3]"
    by (rule nth_equalityI) (auto simp: less_Suc_eq numeral_eq_Suc)
  with assms show ?thesis
    by (simp add: packFloat_def Let_def wr_def store_bind_cont map_option_case)
       (auto split: option.split)
qed

lemma packFloat_roundtrip:
  assumes "packFloat m p x = Some (n, m')" and "0 \<le> p"
  shows "n = 4 \<and> unpackFloat m' p = Some x"
proof -
  from assms have n: "n = 4" and s: "store m p (le_bytes 4 x) = Some m'"
    by (auto simp: packFloat_store)
  from load_store_same [OF s] n show ?thesis by (simp add: unpackFloat_def le_val_le_bytes)
qed

section \<open>The in-place increment\<close>

fun inc_bytes :: "byte list \<Rightarrow> byte list" where
  "inc_bytes [] = []"
| "inc_bytes (b # bs) = (if b + 1 \<noteq> 0 then (b + 1) # bs else 0 # inc_bytes bs)"

lemma length_inc_bytes [simp]: "length (inc_bytes bs) = length bs"
  by (induction bs) auto

fun le_nat :: "byte list \<Rightarrow> nat" where
  "le_nat [] = 0"
| "le_nat (b # bs) = unat b + 256 * le_nat bs"

lemma unat_byte_bound: "unat (b :: byte) < 256"
  by (rule order_less_le_trans [OF unsigned_less]) simp

lemma le_nat_bound: "le_nat bs < 256 ^ length bs"
proof (induction bs)
  case (Cons b bs)
  with unat_byte_bound [of b] show ?case by simp
qed simp

lemma le_val_le_nat: "le_val bs = of_nat (le_nat bs)"
proof (induction bs)
  case (Cons b bs)
  have "ucast b OR push_bit 8 (le_val bs) = ucast b + push_bit 8 (le_val bs :: 'a word)"
    by (subst disjunctive_add_eq_or, rule bit_word_eqI)
       (auto simp: bit_simps dest: bit_imp_le_length)
  then show ?case by (simp add: Cons.IH push_bit_eq_mult mult.commute)
qed simp

lemma le_nat_inc_bytes: "le_nat (inc_bytes bs) = (le_nat bs + 1) mod 256 ^ length bs"
proof (induction bs)
  case (Cons b bs)
  show ?case
  proof (cases "b + 1 = 0")
    case True
    then have "b = - 1" by (simp add: eq_neg_iff_add_eq_0)
    then have "unat b = 255" by (simp add: unsigned_minus_1_eq_mask mask_eq_exp_minus_1)
    then have "le_nat (b # bs) + 1 = 256 * (le_nat bs + 1)" by simp
    then have "(le_nat (b # bs) + 1) mod 256 ^ length (b # bs) =
        256 * ((le_nat bs + 1) mod 256 ^ length bs)"
      by (simp only: length_Cons power_Suc mod_mult_mult1)
    with True show ?thesis by (simp add: Cons.IH)
  next
    case False
    then have u: "unat (b + 1) = unat b + 1" by (simp add: unatSuc add.commute)
    then have "unat b + 1 < 256" using unat_byte_bound [of "b + 1"] by simp
    then have "le_nat (b # bs) + 1 < 256 ^ length (b # bs)"
      using le_nat_bound [of bs] by simp
    with False u show ?thesis by simp
  qed
qed simp

lemma increase_from_store:
  assumes "load m (p + int i) (int n) = Some bs"
  shows "increase_from n i m p = store m (p + int i) (inc_bytes bs)"
  using assms
proof (induction n arbitrary: i m bs)
  case 0
  then show ?case by (auto simp: load_def store_def split: if_splits)
next
  case (Suc n)
  let ?a = "p + int i"
  from Suc.prems obtain b cs where b: "rd m ?a = Some b"
    and cs: "load m (?a + 1) (int n) = Some cs" and bs: "bs = b # cs"
    by (auto simp: load_Suc bind_Some_iff simp del: of_nat_Suc)
  from b obtain m1 where w: "store m ?a [b + 1] = Some m1"
    by (auto simp: rd_def store_def split: if_splits)
  then have cs1: "load m1 (?a + 1) (int n) = Some cs"
    using cs by (simp add: load_store_after)
  have st: "store m ?a ((b + 1) # ds) = store m1 (?a + 1) ds" for ds
    using store_store [OF w, of ds] by simp
  have a1: "p + int (Suc i) = ?a + 1" by simp
  show ?case
  proof (cases "b + 1 = 0")
    case True
    have "increase_from n (Suc i) m1 p = store m1 (?a + 1) (inc_bytes cs)"
      using Suc.IH [of m1 "Suc i" cs] cs1 by (simp only: a1)
    with True w show ?thesis using st [of "inc_bytes cs"] by (simp add: b wr_def bs)
  next
    case False
    then show ?thesis
      using st [of cs] store_load [OF cs1] by (simp add: b wr_def w bs)
  qed
qed

text \<open>The loop over the bytes adds one to the 64-bit number they hold, with wrap-around.\<close>

lemma increase_long_by_one_value:
  assumes "bytes8_to_long m p = Some v"
  shows "\<exists>m'. increase_long_by_one m p = Some m' \<and> bytes8_to_long m' p = Some (v + 1) \<and>
    take (nat p) m' = take (nat p) m \<and> drop (nat p + 8) m' = drop (nat p + 8) m"
proof -
  from assms obtain bs where l: "load m p 8 = Some bs" and v: "v = le_val bs"
    by (auto simp: bytes8_to_long_def)
  have len: "length bs = 8" using length_load [OF l] by simp
  have "increase_long_by_one m p = store m p (inc_bytes bs)"
    using increase_from_store [of m p 0 8 bs] l by (simp add: increase_long_by_one_def)
  moreover obtain m' where s: "store m p (inc_bytes bs) = Some m'"
    using l len by (auto simp: load_def store_def split: if_splits)
  moreover have "le_val (inc_bytes bs) = v + 1"
  proof -
    have "le_val (inc_bytes bs) = (of_nat ((le_nat bs + 1) mod 2 ^ 64) :: i64)"
      by (simp add: le_val_le_nat le_nat_inc_bytes len)
    also have "\<dots> = of_nat (le_nat bs + 1)"
      by (rule word_unat_eq_iff [THEN iffD2]) (simp add: unat_of_nat del: of_nat_Suc)
    finally show ?thesis by (simp add: v le_val_le_nat)
  qed
  moreover have "bytes8_to_long m' p = Some (le_val (inc_bytes bs))"
    using load_store_same [OF s] len by (simp add: bytes8_to_long_def)
  moreover have "take (nat p) m' = take (nat p) m" by (rule take_store [OF s]) simp
  moreover have "drop (nat p + 8) m' = drop (nat p + 8) m"
    by (rule drop_store [OF s]) (simp add: len)
  ultimately show ?thesis by auto
qed

section \<open>The decimal printer\<close>

text \<open>The buffer cells it writes hold the decimal notation, for numbers of one or two digits.\<close>

lemma digit_byte_of_int: "0 \<le> d \<Longrightarrow> (of_int d + 48 :: byte) = digit_byte (nat d)"
  by (simp add: digit_byte_def add.commute)

lemma int_to_string_two_digits:
  assumes "0 \<le> num" and "num < 100" and "0 \<le> p"
  shows "int_to_string m p num = store m p (dec_int num)"
proof (cases "num < 10")
  case True
  moreover from True have "nat num < 10" by simp
  ultimately show ?thesis using assms
    by (simp add: int_to_string_def wr_def dec_int_def dec_nat.simps [of "nat num"] digit_byte_of_int)
next
  case False
  let ?q = "num div 10" and ?r = "num - num div 10 * 10"
  have q: "0 \<le> ?q" "?q < 10" and r: "0 \<le> ?r" "?r = num mod 10"
    using assms False by (auto simp: minus_div_mult_eq_mod)
  have n: "\<not> nat num < 10" "nat num div 10 < 10" using assms False by auto
  have "dec_int num = [digit_byte (nat ?q), digit_byte (nat ?r)]"
    using assms False q r n
    by (simp add: dec_int_def dec_nat.simps [of "nat num"] dec_nat.simps [of "nat num div 10"]
        nat_div_distrib nat_mod_distrib)
  with assms False show ?thesis
    using digit_byte_of_int [OF q(1)] digit_byte_of_int [OF r(1)]
    by (simp add: int_to_string_def wr_def store_bind Let_def)
qed

text \<open>From three digits on the first cell is no digit at all: it is a quotient above nine.\<close>

lemma int_to_string_overflow:
  assumes "100 \<le> num" and "num < 2080" and "int_to_string m p num = Some m'"
  shows "\<exists>b. rd m' p = Some b \<and> \<not> is_digit b"
proof -
  let ?q = "num div 10"
  have q: "10 \<le> ?q" "?q < 208" using assms by auto
  then have m: "(?q + 48) mod 256 = ?q + 48" by (intro mod_pos_pos_trivial) auto
  from assms obtain m1 where w1: "wr m p (of_int (?q + 48)) = Some m1"
    and w2: "wr m1 (p + 1) (of_int (num - ?q * 10 + 48)) = Some m'"
    by (auto simp: int_to_string_def Let_def bind_Some_iff)
  have "rd m1 p = Some (of_int (?q + 48))"
    using w1 by (auto simp: wr_def store_def rd_def nth_append split: if_splits)
  moreover have "rd m' p = rd m1 p"
    using w2 by (auto simp: wr_def intro: rd_store_other)
  moreover have "uint (of_int (?q + 48) :: byte) = ?q + 48"
    using m by (simp only: uint_word_of_int) simp
  then have "\<not> is_digit (of_int (?q + 48))"
    using q by (simp add: is_digit_def word_le_def)
  ultimately show ?thesis by auto
qed

section \<open>Properties\<close>

lemma store_frame:
  assumes "0 \<le> p" and "p + int (length bs) \<le> int (length m)"
  obtains m' where "store m p bs = Some m'" "length m' = length m" "take (nat p) m' = take (nat p) m"
    "drop (nat p + length bs) m' = drop (nat p + length bs) m"
proof -
  obtain m' where s: "store m p bs = Some m'" using assms by (simp add: store_Some)
  show thesis
    by (rule that [OF s])
       (simp_all add: length_store [OF s] take_store [OF s] drop_store [OF s])
qed

text \<open>Frame lengths: \<open>int_to_four_char\<close> writes four bytes in place, nothing else in the
  block changes, and \<open>four_char_to_int\<close> reads the same number back; on any four bytes,
  reading and writing back leaves the block as it is.\<close>

theorem frame_length_codec:
  assumes "0 \<le> p" and "p + 4 \<le> int (length m)"
  shows "(\<exists>m'. int_to_four_char x m p = Some m' \<and> four_char_to_int m' p = Some x \<and>
      length m' = length m \<and> take (nat p) m' = take (nat p) m \<and>
      drop (nat p + 4) m' = drop (nat p + 4) m) \<and>
    (\<exists>y. four_char_to_int m p = Some y \<and> int_to_four_char y m p = Some m)"
proof -
  obtain m' where s: "store m p (be32_bytes x) = Some m'" "length m' = length m"
      "take (nat p) m' = take (nat p) m" "drop (nat p + 4) m' = drop (nat p + 4) m"
    using store_frame [of p "be32_bytes x" m] assms by auto
  have i: "int_to_four_char x m p = Some m'" using s assms by (simp add: int_to_four_char_store)
  obtain y where y: "four_char_to_int m p = Some y"
    using assms by (auto simp: four_char_to_int_load load_def)
  show ?thesis using four_char_roundtrip [OF i assms(1)] four_char_restore [OF y] i y s by blast
qed

theorem frame_length_codec_witness:
  "(\<exists>m'. int_to_four_char 258 [7, 0, 0, 0, 0, 9] 1 = Some m' \<and> four_char_to_int m' 1 = Some 258 \<and>
      take 1 m' = [7] \<and> drop 5 m' = [9]) \<and>
    (\<exists>y. four_char_to_int [7, 0, 0, 0, 0, 9] 1 = Some y \<and>
      int_to_four_char y [7, 0, 0, 0, 0, 9] 1 = Some [7, 0, 0, 0, 0, 9])"
  using frame_length_codec [of 1 "[7, 0, 0, 0, 0, 9]" 258] by auto

text \<open>Request identifiers: \<open>long_to_8bytes\<close> writes eight bytes in place, nothing else in
  the block changes, and \<open>bytes8_to_long\<close> reads the same 64-bit number back; on any eight
  bytes, reading and writing back leaves the block as it is.\<close>

theorem request_id_codec:
  assumes "0 \<le> p" and "p + 8 \<le> int (length m)"
  shows "(\<exists>m'. long_to_8bytes x m p = Some m' \<and> bytes8_to_long m' p = Some x \<and>
      length m' = length m \<and> take (nat p) m' = take (nat p) m \<and>
      drop (nat p + 8) m' = drop (nat p + 8) m) \<and>
    (\<exists>y. bytes8_to_long m p = Some y \<and> long_to_8bytes y m p = Some m)"
proof -
  obtain m' where s: "store m p (le_bytes 8 x) = Some m'" "length m' = length m"
      "take (nat p) m' = take (nat p) m" "drop (nat p + 8) m' = drop (nat p + 8) m"
    using store_frame [of p "le_bytes 8 x" m] assms by auto
  have i: "long_to_8bytes x m p = Some m'" using s by (simp add: long_to_8bytes_store)
  obtain y where y: "bytes8_to_long m p = Some y"
    using assms by (auto simp: bytes8_to_long_def load_def)
  show ?thesis using long_roundtrip [OF i] long_restore [OF y] i y s by blast
qed

theorem request_id_codec_witness:
  "(\<exists>m'. long_to_8bytes (- 2) (replicate 8 0) 0 = Some m' \<and> bytes8_to_long m' 0 = Some (- 2) \<and>
      length m' = 8 \<and> take 0 m' = [] \<and> drop 8 m' = []) \<and>
    (\<exists>y. bytes8_to_long (replicate 8 0) 0 = Some y \<and>
      long_to_8bytes y (replicate 8 0) 0 = Some (replicate 8 0))"
  using request_id_codec [of 0 "replicate 8 0" "- 2"] by simp

text \<open>\<open>increase_long_by_one\<close> adds one to the 64-bit number in the eight bytes, carrying
  through the bytes and wrapping around at the end, and touches nothing else.\<close>

theorem increase_long_by_one_adds:
  assumes "bytes8_to_long m p = Some v"
  shows "\<exists>m'. increase_long_by_one m p = Some m' \<and> bytes8_to_long m' p = Some (v + 1) \<and>
    take (nat p) m' = take (nat p) m \<and> drop (nat p + 8) m' = drop (nat p + 8) m"
  using assms by (rule increase_long_by_one_value)

lemma bytes8_to_long_ones: "bytes8_to_long ([255, 255, 255, 255, 255, 255, 255, 255]) 0 = Some (- 1)"
proof -
  have "le_nat ([255, 255, 255, 255, 255, 255, 255, 255]) = 2 ^ 64 - 1" by simp
  then have "le_val ([255, 255, 255, 255, 255, 255, 255, 255]) = (- 1 :: i64)" by (simp add: le_val_le_nat)
  then show ?thesis by (simp add: bytes8_to_long_def load_def)
qed

theorem increase_long_by_one_adds_witness:
  "\<exists>m'. increase_long_by_one ([255, 255, 255, 255, 255, 255, 255, 255]) 0 = Some m' \<and> bytes8_to_long m' 0 = Some 0 \<and>
    take 0 m' = [] \<and> drop 8 m' = []"
  using increase_long_by_one_adds [OF bytes8_to_long_ones] by simp

text \<open>\<open>int_to_string\<close>, which prints the \<open>Content-Length\<close> of a response,
  writes the decimal digits of the number, and nothing else, for 0 to 99; from 100 to 2079 the first
  cell it writes is no digit.\<close>

theorem int_to_string_range:
  assumes "0 \<le> p"
  shows "(0 \<le> num \<and> num < 100 \<longrightarrow> int_to_string m p num = store m p (dec_int num)) \<and>
    (100 \<le> num \<and> num < 2080 \<longrightarrow>
      (\<forall>m'. int_to_string m p num = Some m' \<longrightarrow> (\<exists>b. rd m' p = Some b \<and> \<not> is_digit b)))"
  using assms by (auto simp: int_to_string_two_digits int_to_string_overflow)

theorem int_to_string_range_witness:
  "int_to_string [32, 32, 32] 0 11 = store [32, 32, 32] 0 (dec_int 11) \<and>
   (\<exists>m' b. int_to_string [32, 32, 32] 0 123 = Some m' \<and> rd m' 0 = Some b \<and> \<not> is_digit b)"
proof -
  have "int_to_string [32, 32, 32] 0 123 \<noteq> None"
    by (simp add: int_to_string_def wr_def store_def)
  then show ?thesis
    using int_to_string_range [of 0 11 "[32, 32, 32]"] int_to_string_range [of 0 123 "[32, 32, 32]"]
    by force
qed

end
