(* ===== verification/Int10_To_Str.thy ===== *)
theory Int10_To_Str
  imports Byte_Codec
begin

text \<open>
  \<open>int10_to_str\<close> of \<open>utils.c\<close>, the optimised decimal printer taken from
  mysql-server: one unsigned division for the first digit, signed divisions for the others, digits
  stored downwards in a local buffer that is then copied out with its terminator. The main lemma
  shows that it prints exactly what \<open>%ld\<close> (or, for a non-negative radix, \<open>%lu\<close>)
  prints, for every 64-bit value, the least one included, whose negation overflows.
\<close>

definition c_div :: "int \<Rightarrow> int \<Rightarrow> int" where
  "c_div a b = sgn a * sgn b * (\<bar>a\<bar> div \<bar>b\<bar>)"

lemma c_div_pos: "0 \<le> a \<Longrightarrow> 0 < b \<Longrightarrow> c_div a b = a div b"
  by (cases "a = 0") (auto simp: c_div_def)

lemma c_div_smaller: "v \<noteq> 0 \<Longrightarrow> \<bar>c_div v 10\<bar> < \<bar>v\<bar>"
  by (simp add: c_div_def abs_mult)

text \<open>The loop over the remaining digits; \<open>p\<close> moves down the buffer.\<close>

function digit_loop :: "int \<Rightarrow> byte list \<Rightarrow> int \<Rightarrow> (byte list \<times> int) option" where
  "digit_loop val buffer p =
     (if val = 0 then Some (buffer, p)
      else do {
        let new_val = c_div val 10;
        buffer \<leftarrow> wr buffer (p - 1) (of_int (48 + (val - new_val * 10)));
        digit_loop new_val buffer (p - 1) })"
  by pat_completeness auto
termination
  by (relation "measure (\<lambda>(val, buffer, p). nat \<bar>val\<bar>)") (auto dest: c_div_smaller)

declare digit_loop.simps [simp del]

text \<open>\<open>while ((*dst++ = *p++) != 0);\<close>\<close>

function copy_string :: "byte list \<Rightarrow> int \<Rightarrow> byte list \<Rightarrow> int \<Rightarrow> (byte list \<times> int) option" where
  "copy_string buffer p m dst =
     (case rd buffer p of
        None \<Rightarrow> None
      | Some b \<Rightarrow> do {
          m \<leftarrow> wr m dst b;
          if b \<noteq> 0 then copy_string buffer (p + 1) m (dst + 1) else Some (m, dst + 1) })"
  by pat_completeness auto
termination
  by (relation "measure (\<lambda>(buffer, p, m, dst). nat (int (length buffer) - p))")
     (auto simp: rd_def split: if_splits)

declare copy_string.simps [simp del]

definition int10_to_str :: "i64 \<Rightarrow> byte list \<Rightarrow> int \<Rightarrow> int \<Rightarrow> (int \<times> byte list) option" where
  "int10_to_str val m dst radix = do {
     (uval, m, dst) \<leftarrow>
       (if radix < 0 \<and> sint val < 0
        then do { m \<leftarrow> wr m dst 45; Some (0 - val, m, dst + 1) }
        else Some (val, m, dst));
     let p = 64;
     buffer \<leftarrow> wr (replicate 65 0) p 0;
     let new_val = uval div 10;
     buffer \<leftarrow> wr buffer (p - 1) (48 + ucast (uval - new_val * 10));
     (buffer, p) \<leftarrow> digit_loop (sint new_val) buffer (p - 1);
     (m, dst) \<leftarrow> copy_string buffer p m dst;
     Some (dst - 1, m) }"

section \<open>What it prints\<close>

lemma length_dec_nat: "0 < k \<Longrightarrow> n < 10 ^ k \<Longrightarrow> length (dec_nat n) \<le> k"
proof (induction n arbitrary: k rule: dec_nat.induct)
  case (1 n)
  show ?case
  proof (cases "n < 10")
    case True
    then show ?thesis using "1.prems" by (subst dec_nat.simps) simp
  next
    case False
    with "1.prems" obtain j where k: "k = Suc j" "0 < j"
      by (cases k; cases "k - 1") auto
    then have "n div 10 < 10 ^ j" using "1.prems" by (simp add: div_less_iff_less_mult mult.commute)
    with 1 False k show ?thesis by (subst dec_nat.simps) auto
  qed
qed

lemma wr_front:
  assumes "wr buffer (p - 1) d = Some buffer'" and "0 < p" and "p \<le> int (length buffer)"
  shows "drop (nat (p - 1)) buffer' = d # drop (nat p) buffer"
  using assms
  by (auto simp: wr_def store_def min_def nat_diff_distrib Suc_nat_eq_nat_zadd1 split: if_splits)

definition loop_digits :: "nat \<Rightarrow> byte list" where
  "loop_digits v = (if v = 0 then [] else dec_nat v)"

lemma loop_digits_step: "0 < v \<Longrightarrow> loop_digits v = loop_digits (v div 10) @ [digit_byte (v mod 10)]"
  by (auto simp: loop_digits_def dec_nat.simps [of v])

lemma digit_loop_digits:
  assumes "int (length (loop_digits v)) \<le> p" and "p \<le> int (length buffer)"
  shows "\<exists>buffer' p'. digit_loop (int v) buffer p = Some (buffer', p') \<and> 0 \<le> p' \<and>
    drop (nat p') buffer' = loop_digits v @ drop (nat p) buffer"
  using assms
proof (induction v arbitrary: buffer p rule: less_induct)
  case (less v)
  show ?case
  proof (cases "v = 0")
    case True
    with less.prems show ?thesis by (simp add: digit_loop.simps loop_digits_def)
  next
    case False
    let ?d = "digit_byte (v mod 10)"
    have len: "length (loop_digits v) = Suc (length (loop_digits (v div 10)))"
      using False loop_digits_step [of v] by simp
    with less.prems have p: "0 < p" "p - 1 < int (length buffer)" by linarith+
    then obtain b1 where w: "wr buffer (p - 1) ?d = Some b1"
      by (auto simp: wr_def store_def)
    have d1: "drop (nat (p - 1)) b1 = ?d # drop (nat p) buffer"
      using wr_front [OF w p(1)] less.prems(2) by simp
    have q: "c_div (int v) 10 = int (v div 10)"
      by (simp add: c_div_pos zdiv_int)
    have "int v - int (v div 10) * 10 = int (v mod 10)" by (simp add: of_nat_mod minus_div_mult_eq_mod zdiv_int)
    then have dig: "(of_int (48 + (int v - int (v div 10) * 10)) :: byte) = ?d"
      by (simp only: digit_byte_def) simp
    have "digit_loop (int v) buffer p = digit_loop (int (v div 10)) b1 (p - 1)"
      using False w by (subst digit_loop.simps) (simp add: q dig Let_def del: of_int_add of_int_diff of_int_mult)
    moreover have "\<exists>b' p'. digit_loop (int (v div 10)) b1 (p - 1) = Some (b', p') \<and> 0 \<le> p' \<and>
      drop (nat p') b' = loop_digits (v div 10) @ drop (nat (p - 1)) b1"
      by (rule less.IH) (use False len less.prems length_wr [OF w] in auto)
    ultimately show ?thesis
      using False loop_digits_step [of v] by (auto simp: d1)
  qed
qed

lemma copy_string_copies:
  assumes "0 \<le> p" and "drop (nat p) buffer = s @ 0 # rest" and "0 \<notin> set s" and "0 \<le> dst"
    and "dst + int (length s) < int (length m)"
  shows "\<exists>m'. copy_string buffer p m dst = Some (m', dst + int (length s) + 1) \<and>
    store m dst (s @ [0]) = Some m'"
  using assms
proof (induction s arbitrary: p m dst)
  case Nil
  then have "nat p < length buffer" by (metis append_Nil drop_all list.distinct(1) not_le)
  then have "rd buffer p = Some 0"
    using Nil by (auto simp: rd_def nat_less_iff hd_drop_conv_nth [symmetric])
  with Nil show ?case by (subst copy_string.simps) (auto simp: wr_def store_def)
next
  case (Cons b s)
  then have lt: "nat p < length buffer" by (metis append_Cons drop_all list.distinct(1) not_le)
  then have r: "rd buffer p = Some b"
    using Cons.prems by (auto simp: rd_def nat_less_iff hd_drop_conv_nth [symmetric])
  have b: "b \<noteq> 0" using Cons.prems by auto
  obtain m1 where w: "store m dst [b] = Some m1"
    using Cons.prems by (auto simp: store_def)
  have "drop (nat (p + 1)) buffer = s @ 0 # rest"
    using Cons.prems lt by (simp add: drop_eq_Cons_nth nat_add_distrib)
  then have "\<exists>m'. copy_string buffer (p + 1) m1 (dst + 1) = Some (m', dst + 1 + int (length s) + 1) \<and>
    store m1 (dst + 1) (s @ [0]) = Some m'"
    by (intro Cons.IH) (use Cons.prems length_store [OF w] in auto)
  moreover have "store m dst ((b # s) @ [0]) = store m1 (dst + 1) (s @ [0])"
    using store_store [OF w, of "s @ [0]"] by simp
  ultimately show ?case
    using b w by (subst copy_string.simps) (auto simp: r wr_def algebra_simps)
qed

text \<open>The value printed: signed when the radix is negative, unsigned otherwise.\<close>

definition printed :: "i64 \<Rightarrow> int \<Rightarrow> byte list" where
  "printed val radix = dec_int (if radix < 0 then sint val else uint val)"

lemma magnitude_printed:
  fixes uval :: i64
  assumes "unat uval = v" and "0 \<le> dst" and "dst + int (length (dec_nat v)) < int (length m)"
  shows "\<exists>m'. (do {
       buffer \<leftarrow> wr (replicate 65 0) 64 0;
       buffer \<leftarrow> wr buffer 63 (48 + ucast (uval - uval div 10 * 10));
       (buffer, p) \<leftarrow> digit_loop (sint (uval div 10)) buffer 63;
       (m, dst) \<leftarrow> copy_string buffer p m dst;
       Some (dst - 1, m) }) = Some (dst + int (length (dec_nat v)), m') \<and>
     store m dst (dec_nat v @ [0]) = Some m'"
proof -
  have v: "v < 2 ^ 64" using assms(1) unsigned_less [of uval, where 'a=nat] by simp
  have uq: "unat (uval div 10) = v div 10" using assms(1) by (simp add: unat_div)
  have "uint (uval div 10) = int (v div 10)" by (simp only: uint_nat uq)
  with v have q: "sint (uval div 10) = int (v div 10)" by (simp add: sint_i64)
  have "unat (uval mod 10) = v mod 10" using assms(1) by (simp add: unat_mod)
  then have "(ucast (uval mod 10) :: byte) = of_nat (v mod 10)" by (metis of_nat_unat)
  then have d: "48 + ucast (uval - uval div 10 * 10) = digit_byte (v mod 10)"
    by (simp add: minus_div_mult_eq_mod digit_byte_def)
  let ?b0 = "(replicate 65 (0 :: byte))[64 := 0]"
  have w0: "wr (replicate 65 0) 64 0 = Some ?b0" by (simp add: wr_list_update)
  obtain b1 where w1: "wr ?b0 63 (digit_byte (v mod 10)) = Some b1"
    by (simp add: wr_list_update)
  have "length (loop_digits (v div 10)) \<le> 20"
    using length_dec_nat [of 20 "v div 10"] v by (simp add: loop_digits_def)
  then obtain b2 p where loop: "digit_loop (int (v div 10)) b1 63 = Some (b2, p)" and p: "0 \<le> p"
    and b2: "drop (nat p) b2 = loop_digits (v div 10) @ drop 63 b1"
    using digit_loop_digits [of "v div 10" 63 b1] length_wr [OF w1] by auto
  have "drop 63 b1 = digit_byte (v mod 10) # drop 64 ?b0"
    using wr_front [of ?b0 64 _ b1] w1 by simp
  also have "drop 64 ?b0 = [0]" by (simp add: drop_update_swap)
  finally have "drop 63 b1 = [digit_byte (v mod 10), 0]" .
  then have b2': "drop (nat p) b2 = dec_nat v @ [0]"
    using b2 dec_nat.simps [of v] by (auto simp: loop_digits_def)
  have nz: "0 \<notin> set (dec_nat v)" using dec_nat_digits [of v] by (auto simp: is_digit_def)
  obtain m' where "copy_string b2 p m dst = Some (m', dst + int (length (dec_nat v)) + 1)"
    and "store m dst (dec_nat v @ [0]) = Some m'"
    using copy_string_copies [OF p _ nz assms(2,3)] b2' by force
  then show ?thesis by (simp add: w0 d w1 q loop)
qed

text \<open>
  The printed text and its terminator are written at the destination, and the result points at the
  terminator.
\<close>

lemma int10_to_str_prints:
  assumes "0 \<le> dst" and "dst + int (length (printed val radix)) < int (length m)"
  shows "\<exists>m'. int10_to_str val m dst radix = Some (dst + int (length (printed val radix)), m') \<and>
    store m dst (printed val radix @ [0]) = Some m'"
proof (cases "radix < 0 \<and> sint val < 0")
  case True
  let ?v = "unat (0 - val)"
  have "uint val \<noteq> 0" using True by (auto simp: sint_i64)
  then have "uint (0 - val) = 2 ^ 64 - uint val"
    using uint_lt2p [of val] by (simp add: uint_word_ariths zmod_zminus1_eq_if)
  then have "- sint val = uint (0 - val)" using True by (simp add: sint_i64 split: if_splits)
  then have v: "nat (- sint val) = ?v" by (simp only: nat_uint_eq)
  then have pr: "printed val radix = 45 # dec_nat ?v" using True by (simp add: printed_def dec_int_def)
  obtain m1 where w: "store m dst [45] = Some m1" using assms pr by (auto simp: store_def)
  obtain m' where "(do {
       buffer \<leftarrow> wr (replicate 65 0) 64 0;
       buffer \<leftarrow> wr buffer 63 (48 + ucast ((0 - val) - (0 - val) div 10 * 10));
       (buffer, p) \<leftarrow> digit_loop (sint ((0 - val) div 10)) buffer 63;
       (m, dst) \<leftarrow> copy_string buffer p m1 (dst + 1);
       Some (dst - 1, m) }) = Some (dst + 1 + int (length (dec_nat ?v)), m')"
    "store m1 (dst + 1) (dec_nat ?v @ [0]) = Some m'"
    using magnitude_printed [OF refl, of "dst + 1" "0 - val" m1] assms pr length_store [OF w] by auto
  moreover have "store m dst (printed val radix @ [0]) = store m1 (dst + 1) (dec_nat ?v @ [0])"
    using store_store [OF w, of "dec_nat ?v @ [0]"] by (simp add: pr)
  ultimately show ?thesis using True w
    by (simp add: int10_to_str_def wr_def pr Let_def)
next
  case False
  then have pr: "printed val radix = dec_nat (unat val)"
    using uint_lt2p [of val] by (auto simp: printed_def dec_int_def sint_i64)
  have c: "(radix < 0 \<and> sint val < 0) = False" using False by simp
  show ?thesis using magnitude_printed [OF refl, of dst val m] assms pr
    unfolding int10_to_str_def c if_False by (simp add: Let_def)
qed

text \<open>\<open>int10_to_str\<close> writes the decimal text of the value, signed when the radix is
  negative and unsigned otherwise, and its terminator, at the destination, and returns the address of
  the terminator; for every 64-bit value, the least negative one included.\<close>

theorem int10_to_str_correct:
  assumes "0 \<le> dst" and "dst + int (length (printed val radix)) < int (length m)"
  shows "\<exists>m'. int10_to_str val m dst radix = Some (dst + int (length (printed val radix)), m') \<and>
    store m dst (printed val radix @ [0]) = Some m'"
  using assms by (rule int10_to_str_prints)

lemma length_printed: "length (printed val radix) \<le> 21"
proof -
  have "nat \<bar>if radix < 0 then sint val else uint val\<bar> < 10 ^ 20"
    using unsigned_less [of val, where 'a=nat] uint_lt2p [of val] by (auto simp: sint_i64)
  from length_dec_nat [OF _ this] show ?thesis by (auto simp: printed_def dec_int_def)
qed

theorem int10_to_str_correct_witness:
  "\<exists>m'. int10_to_str (2 ^ 63) (replicate 24 0) 1 (- 10) =
      Some (1 + int (length (printed (2 ^ 63) (- 10))), m') \<and>
    store (replicate 24 0) 1 (printed (2 ^ 63) (- 10) @ [0]) = Some m'"
  using int10_to_str_correct [of 1 "2 ^ 63" "- 10" "replicate 24 0"]
    length_printed [of "2 ^ 63" "- 10"] by simp

end
