(* ===== verification/Ring_Queue_Spec.thy ===== *)
theory Ring_Queue_Spec
  imports Prelude
begin

text \<open>
  The contract of a bounded first-in first-out queue, as a locale: what \<open>push\<close> and
  \<open>pull\<close> promise in terms of the abstract list of pending elements. \<open>push\<close>
  reports whether it dropped the element; \<open>pull\<close> gives an element back when there is one.
  Both the thread-safe queue of \<open>blockQueue.c\<close> and the single-threaded one of
  \<open>http_req_queue.c\<close> (on a block large enough) are interpretations. The lemmas of the
  locale are about whole histories of calls, and hold for either.
\<close>

locale bounded_fifo =
  fixes push :: "'q \<Rightarrow> 'a \<Rightarrow> ('q \<times> bool) option"
    and pull :: "'q \<Rightarrow> ('q \<times> 'a option) option"
    and pending :: "'q \<Rightarrow> 'a list"
    and limit :: "'q \<Rightarrow> nat"
    and valid :: "'q \<Rightarrow> bool"
  assumes push_room: "valid q \<Longrightarrow> length (pending q) < limit q \<Longrightarrow>
      \<exists>q'. push q x = Some (q', False) \<and> valid q' \<and> limit q' = limit q \<and>
        pending q' = pending q @ [x]"
    and push_full: "valid q \<Longrightarrow> length (pending q) = limit q \<Longrightarrow> push q x = Some (q, True)"
    and pull_some: "valid q \<Longrightarrow> pending q = x # xs \<Longrightarrow>
      \<exists>q'. pull q = Some (q', Some x) \<and> valid q' \<and> limit q' = limit q \<and> pending q' = xs"
    and pull_empty: "valid q \<Longrightarrow> pending q = [] \<Longrightarrow> pull q = Some (q, None)"
    and pending_limit: "valid q \<Longrightarrow> length (pending q) \<le> limit q"
begin

text \<open>One call against the abstract queue of at most \<open>n\<close> elements.\<close>

lemma push_cases:
  assumes "valid q"
  obtains (room) q' where "push q x = Some (q', False)" "valid q'" "limit q' = limit q"
      "pending q' = pending q @ [x]" "length (pending q) < limit q"
    | (full) "push q x = Some (q, True)" "length (pending q) = limit q"
proof (cases "length (pending q) < limit q")
  case True
  with push_room [OF assms True, of x] room show ?thesis by blast
next
  case False
  with pending_limit [OF assms] have "length (pending q) = limit q" by simp
  with push_full [OF assms this, of x] full show ?thesis by blast
qed

lemma pull_total:
  assumes "valid q"
  shows "\<exists>q' r. pull q = Some (q', r) \<and> valid q' \<and> limit q' = limit q \<and>
    pending q = (case r of None \<Rightarrow> [] | Some x \<Rightarrow> [x]) @ pending q'"
  using assms pull_some [OF assms] pull_empty [OF assms]
  by (cases "pending q") fastforce+

end

text \<open>
  A history: the calls in the order they take effect, a pushed element or a pull. Running it on a
  queue gives the elements pulled, and those whose push was accepted.
\<close>

datatype 'a qop = Push 'a | Pull

fun run_ops ::
  "('q \<Rightarrow> 'a \<Rightarrow> ('q \<times> bool) option) \<Rightarrow> ('q \<Rightarrow> ('q \<times> 'a option) option) \<Rightarrow>
   'a qop list \<Rightarrow> 'q \<Rightarrow> ('q \<times> 'a list \<times> 'a list) option" where
  "run_ops push pull [] q = Some (q, [], [])"
| "run_ops push pull (Push x # ops) q = do {
     (q, dropped) \<leftarrow> push q x;
     (q, acc, out) \<leftarrow> run_ops push pull ops q;
     Some (q, if dropped then acc else x # acc, out) }"
| "run_ops push pull (Pull # ops) q = do {
     (q, r) \<leftarrow> pull q;
     (q, acc, out) \<leftarrow> run_ops push pull ops q;
     Some (q, acc, case r of None \<Rightarrow> out | Some x \<Rightarrow> x # out) }"

lemma run_ops_append:
  "run_ops push pull (ops @ ops') q = do {
     (q, acc, out) \<leftarrow> run_ops push pull ops q;
     (q, acc', out') \<leftarrow> run_ops push pull ops' q;
     Some (q, acc @ acc', out @ out') }"
proof (induction ops arbitrary: q)
  case Nil
  then show ?case by (auto split: Option.bind_split)
next
  case (Cons op ops)
  then show ?case
    by (cases op) (auto simp: bind_Some_iff split: Option.bind_split option.splits prod.splits)
qed

context bounded_fifo
begin

text \<open>
  Every history runs to its end without leaving the block, and first in is first out: what was
  pending and what was accepted are, in that order, what was pulled and what is still pending.
\<close>

lemma history_fifo:
  assumes "valid q"
  shows "\<exists>q' acc out. run_ops push pull ops q = Some (q', acc, out) \<and> valid q' \<and>
    limit q' = limit q \<and> pending q @ acc = out @ pending q'"
  using assms
proof (induction ops arbitrary: q)
  case Nil
  then show ?case by simp
next
  case (Cons op ops)
  show ?case
  proof (cases op)
    case (Push x)
    from Cons.prems show ?thesis
    proof (cases rule: push_cases [of q x])
      case (room q1)
      with Cons.IH [of q1] Push show ?thesis by fastforce
    next
      case full
      with Cons.IH [OF Cons.prems] Push show ?thesis by fastforce
    qed
  next
    case Pull
    from pull_total [OF Cons.prems] obtain q1 r where
      "pull q = Some (q1, r)" "valid q1" "limit q1 = limit q"
      "pending q = (case r of None \<Rightarrow> [] | Some x \<Rightarrow> [x]) @ pending q1" by blast
    with Cons.IH [of q1] Pull show ?thesis by (fastforce split: option.splits)
  qed
qed

lemma history_bounded:
  assumes "valid q" and "run_ops push pull ops q = Some (q', acc, out)"
  shows "length (pending q') \<le> limit q"
  using history_fifo [OF assms(1), of ops] assms(2) pending_limit by fastforce

end

subsection \<open>Ring arithmetic\<close>

text \<open>The cells of a ring of size \<open>n\<close>, from \<open>h\<close> on, \<open>k\<close> of them.\<close>

definition ring_cells :: "'a list \<Rightarrow> nat \<Rightarrow> nat \<Rightarrow> 'a list" where
  "ring_cells xs h k = map (\<lambda>i. xs ! ((h + i) mod length xs)) [0..<k]"

lemma length_ring_cells [simp]: "length (ring_cells xs h k) = k"
  by (simp add: ring_cells_def)

lemma ring_cells_eq_Nil [simp]: "ring_cells xs h k = [] \<longleftrightarrow> k = 0"
  by (simp add: ring_cells_def)

lemma ring_cells_Suc:
  "ring_cells xs h (Suc k) = ring_cells xs h k @ [xs ! ((h + k) mod length xs)]"
  by (simp add: ring_cells_def)

lemma ring_cells_hd:
  assumes "h < length xs"
  shows "ring_cells xs h (Suc k) = xs ! h # ring_cells xs (Suc h mod length xs) k"
proof -
  have "(h + Suc i) mod length xs = (Suc h mod length xs + i) mod length xs" for i
    by (simp add: mod_add_left_eq)
  then show ?thesis using assms
    by (simp add: ring_cells_def upt_conv_Cons map_Suc_upt [symmetric] del: upt_Suc map_Suc_upt)
qed

lemma ring_cells_update:
  assumes "h < length xs" and "k < length xs"
  shows "ring_cells (xs[(h + k) mod length xs := x]) h k = ring_cells xs h k"
proof -
  have "(h + k) mod length xs \<noteq> (h + i) mod length xs" if "i < k" for i
  proof
    assume "(h + k) mod length xs = (h + i) mod length xs"
    then have "length xs dvd (h + k) - (h + i)" using that by (metis add_le_cancel_left less_imp_le mod_eq_dvd_iff_nat)
    then have "length xs dvd k - i" by simp
    moreover have "0 < k - i" "k - i < length xs" using that assms by auto
    ultimately show False by (auto dest: dvd_imp_le)
  qed
  then show ?thesis by (simp add: ring_cells_def)
qed

lemma ring_cells_push:
  assumes "h < length xs" and "k < length xs" and "t = (h + k) mod length xs"
  shows "ring_cells (xs[t := x]) h (Suc k) = ring_cells xs h k @ [x]"
  using assms ring_cells_update [OF assms(1,2), of x]
  by (simp add: ring_cells_Suc) (metis gr_zeroI mod_less_divisor not_less_zero nth_list_update_eq)

lemma ring_cells_cong_mod:
  "ring_cells xs (h mod length xs) k = ring_cells xs h k"
  by (simp add: ring_cells_def mod_add_left_eq)

end
