(* ===== verification/Block_Queue.thy ===== *)
theory Block_Queue
  imports Ring_Queue_Spec
begin

text \<open>
  The thread-safe ring of \<open>utils/blockQueue.c\<close>, as the code of one critical section: the
  record is the struct, a cell of \<open>http_req_array\<close> is \<open>None\<close> until it is first
  written, and \<open>bq_pull\<close> with no element to give (the caller waits on the condition
  variable) leaves the queue as it is. The threads around it are in \<open>Block_Queue_Threads\<close>.
  The interpretation shows that it is a queue of \<open>max_size\<close> elements: the two indices and
  the flag \<open>tail_ahead\<close> tell full from empty, and no cell is read before it is written.
\<close>

record 'a blockQueue =
  bq_head :: nat
  bq_tail :: nat
  bq_max_size :: nat
  tail_ahead :: int
  http_req_array :: "'a option list"

definition init_blockQueue :: "nat \<Rightarrow> 'a blockQueue" where
  "init_blockQueue n =
     \<lparr>bq_head = 0, bq_tail = 0, bq_max_size = n, tail_ahead = 0,
      http_req_array = replicate n None\<rparr>"

definition test_full :: "'a blockQueue \<Rightarrow> bool" where
  "test_full bq = (bq_head bq = bq_tail bq \<and> tail_ahead bq = 1)"

definition test_empty :: "'a blockQueue \<Rightarrow> bool" where
  "test_empty bq = (bq_head bq = bq_tail bq \<and> tail_ahead bq = 0)"

text \<open>The result is the new queue and the return value, 1 when the element was dropped.\<close>

definition bq_push :: "'a blockQueue \<Rightarrow> 'a \<Rightarrow> ('a blockQueue \<times> int) option" where
  "bq_push bq http_req =
     (if test_full bq then Some (bq, 1)
      else do {
        guard (bq_tail bq < length (http_req_array bq));
        let bq = bq\<lparr>http_req_array := (http_req_array bq)[bq_tail bq := Some http_req]\<rparr>;
        let bq = bq\<lparr>bq_tail := bq_tail bq + 1\<rparr>;
        let bq = (if bq_tail bq = bq_max_size bq then bq\<lparr>bq_tail := 0, tail_ahead := 1\<rparr> else bq);
        Some (bq, 0) })"

definition bq_pull :: "'a blockQueue \<Rightarrow> ('a blockQueue \<times> 'a option) option" where
  "bq_pull bq =
     (if test_empty bq then Some (bq, None)
      else do {
        guard (bq_head bq < length (http_req_array bq));
        req \<leftarrow> http_req_array bq ! bq_head bq;
        let bq = bq\<lparr>bq_head := bq_head bq + 1\<rparr>;
        let bq = (if bq_head bq = bq_max_size bq then bq\<lparr>bq_head := 0, tail_ahead := 0\<rparr> else bq);
        Some (bq, Some req) })"

section \<open>The representation invariant\<close>

text \<open>The number of elements, and the invariant that ties the flag to the two indices.\<close>

definition bq_count :: "'a blockQueue \<Rightarrow> nat" where
  "bq_count bq = (if tail_ahead bq = 0 then bq_tail bq - bq_head bq
                  else bq_max_size bq - bq_head bq + bq_tail bq)"

definition bq_pending :: "'a blockQueue \<Rightarrow> 'a list" where
  "bq_pending bq = map the (ring_cells (http_req_array bq) (bq_head bq) (bq_count bq))"

definition bq_valid :: "'a blockQueue \<Rightarrow> bool" where
  "bq_valid bq \<longleftrightarrow>
     length (http_req_array bq) = bq_max_size bq \<and>
     bq_head bq < bq_max_size bq \<and> bq_tail bq < bq_max_size bq \<and>
     (tail_ahead bq = 0 \<and> bq_head bq \<le> bq_tail bq \<or> tail_ahead bq = 1 \<and> bq_tail bq \<le> bq_head bq) \<and>
     None \<notin> set (ring_cells (http_req_array bq) (bq_head bq) (bq_count bq))"

lemma bq_valid_init: "0 < n \<Longrightarrow> bq_valid (init_blockQueue n) \<and> bq_pending (init_blockQueue n) = []"
  by (simp add: bq_valid_def init_blockQueue_def bq_pending_def bq_count_def ring_cells_def)

lemma bq_tail_count:
  assumes "bq_valid bq"
  shows "bq_tail bq = (bq_head bq + bq_count bq) mod bq_max_size bq"
    and "bq_count bq \<le> bq_max_size bq"
  using assms by (auto simp: bq_valid_def bq_count_def)

lemma test_full_iff: "bq_valid bq \<Longrightarrow> test_full bq \<longleftrightarrow> bq_count bq = bq_max_size bq"
  by (auto simp: bq_valid_def bq_count_def test_full_def)

lemma test_empty_iff: "bq_valid bq \<Longrightarrow> test_empty bq \<longleftrightarrow> bq_count bq = 0"
  by (auto simp: bq_valid_def bq_count_def test_empty_def)

lemma bq_push_ok:
  assumes v: "bq_valid bq" and room: "bq_count bq < bq_max_size bq"
  shows "\<exists>bq'. bq_push bq x = Some (bq', 0) \<and> bq_valid bq' \<and> bq_max_size bq' = bq_max_size bq \<and>
    bq_pending bq' = bq_pending bq @ [x]"
proof -
  let ?xs = "(http_req_array bq)[bq_tail bq := Some x]" and ?h = "bq_head bq" and ?k = "bq_count bq"
  define bq' where "bq' = (let b = bq\<lparr>http_req_array := ?xs, bq_tail := bq_tail bq + 1\<rparr>
     in if bq_tail b = bq_max_size b then b\<lparr>bq_tail := 0, tail_ahead := 1\<rparr> else b)"
  have "\<not> test_full bq" using v room by (simp add: test_full_iff)
  moreover have "bq_tail bq < length (http_req_array bq)" using v by (simp add: bq_valid_def)
  ultimately have p: "bq_push bq x = Some (bq', 0)"
    by (simp add: bq_push_def bq'_def Let_def)
  have f: "http_req_array bq' = ?xs" "bq_head bq' = ?h" "bq_max_size bq' = bq_max_size bq"
    by (simp_all add: bq'_def Let_def)
  have k: "bq_count bq' = Suc ?k"
    using v room by (auto simp: bq_valid_def bq_count_def bq'_def Let_def)
  have cells: "ring_cells ?xs ?h (Suc ?k) = ring_cells (http_req_array bq) ?h ?k @ [Some x]"
    using v room bq_tail_count(1) [OF v] by (intro ring_cells_push) (auto simp: bq_valid_def)
  have "bq_valid bq'"
    unfolding bq_valid_def [of bq'] k f cells
    using v room by (auto simp: bq_valid_def bq'_def Let_def bq_count_def)
  moreover have "bq_pending bq' = bq_pending bq @ [x]"
    by (simp add: bq_pending_def k f cells)
  ultimately show ?thesis using p f by blast
qed

lemma bq_pull_ok:
  assumes v: "bq_valid bq" and pos: "bq_count bq = Suc k"
  shows "\<exists>bq' x. bq_pull bq = Some (bq', Some x) \<and> bq_valid bq' \<and>
    bq_max_size bq' = bq_max_size bq \<and> bq_pending bq = x # bq_pending bq'"
proof -
  let ?xs = "http_req_array bq" and ?h = "bq_head bq" and ?n = "bq_max_size bq"
  have h: "?h < length ?xs" and n: "length ?xs = ?n" using v by (auto simp: bq_valid_def)
  have cells: "ring_cells ?xs ?h (Suc k) = ?xs ! ?h # ring_cells ?xs (Suc ?h mod ?n) k"
    using ring_cells_hd [OF h] n by simp
  have "None \<notin> set (ring_cells ?xs ?h (Suc k))" using v pos by (simp add: bq_valid_def)
  then obtain x where x: "?xs ! ?h = Some x"
    and init: "None \<notin> set (ring_cells ?xs (Suc ?h mod ?n) k)"
    by (cases "?xs ! ?h") (auto simp: cells)
  define bq' where "bq' = (let b = bq\<lparr>bq_head := ?h + 1\<rparr>
     in if bq_head b = bq_max_size b then b\<lparr>bq_head := 0, tail_ahead := 0\<rparr> else b)"
  have "\<not> test_empty bq" using v pos by (simp add: test_empty_iff)
  with h x have p: "bq_pull bq = Some (bq', Some x)"
    by (simp add: bq_pull_def bq'_def Let_def)
  have f: "http_req_array bq' = ?xs" "bq_max_size bq' = ?n" "bq_head bq' = Suc ?h mod ?n"
    using h n by (auto simp: bq'_def Let_def)
  have k: "bq_count bq' = k"
    using v pos by (auto simp: bq_valid_def bq_count_def bq'_def Let_def split: if_splits)
  have "bq_valid bq'"
    unfolding bq_valid_def [of bq'] k f
    using v pos init by (auto simp: bq_valid_def bq'_def Let_def bq_count_def split: if_splits)
  moreover have "bq_pending bq = x # bq_pending bq'"
    by (simp add: bq_pending_def pos k f cells x)
  ultimately show ?thesis using p f by blast
qed

text \<open>The queue meets the contract; a full queue drops, an empty one makes the caller wait.\<close>

definition bq_offer :: "'a blockQueue \<Rightarrow> 'a \<Rightarrow> ('a blockQueue \<times> bool) option" where
  "bq_offer bq x = map_option (\<lambda>(q, r). (q, r = 1)) (bq_push bq x)"

interpretation bq: bounded_fifo bq_offer bq_pull bq_pending bq_max_size bq_valid
proof (unfold_locales, goal_cases)
  case (1 q x)
  then show ?case using bq_push_ok [of q x] by (force simp: bq_offer_def bq_pending_def)
next
  case (2 q x)
  then show ?case
    by (simp add: bq_offer_def bq_push_def test_full_iff bq_pending_def)
next
  case (3 q x xs)
  then have "bq_count q = Suc (length xs)" by (metis bq_pending_def length_Cons length_map length_ring_cells)
  with bq_pull_ok [OF 3(1)] 3(2) show ?case by force
next
  case (4 q)
  then have "bq_count q = 0" by (metis bq_pending_def length_map length_ring_cells list.size(3))
  with 4 show ?case by (simp add: bq_pull_def test_empty_iff)
next
  case (5 q)
  then show ?case by (simp add: bq_pending_def bq_tail_count)
qed

end
