(* ===== verification/Http_Req_Queue.thy ===== *)
theory Http_Req_Queue
  imports Block_Queue
begin

text \<open>
  The single-threaded ring of \<open>utils/http_req_queue.c\<close>. It has the shape of
  \<open>blockQueue.c\<close>, with \<open>generation\<close> for \<open>tail_ahead\<close>, but its
  indices wrap only when they exceed \<open>capacity\<close>: it uses \<open>capacity + 1\<close> cells,
  while \<open>init_http_req_queue_t\<close> allocates \<open>capacity\<close>. On a block with one cell more
  it is a queue of \<open>capacity + 1\<close> elements, shown by embedding it into the other ring; as
  allocated, one push too many writes behind the block.
\<close>

record 'a http_req_queue =
  hq_buffer :: "'a option list"
  hq_capacity :: nat
  hq_head :: nat
  hq_tail :: nat
  hq_generation :: int

definition init_http_req_queue_t :: "nat \<Rightarrow> 'a http_req_queue" where
  "init_http_req_queue_t default_size =
     \<lparr>hq_buffer = replicate default_size None, hq_capacity = default_size,
      hq_head = 0, hq_tail = 0, hq_generation = 0\<rparr>"

definition hq_test_empty :: "'a http_req_queue \<Rightarrow> bool" where
  "hq_test_empty queue = (hq_generation queue = 0 \<and> hq_head queue = hq_tail queue)"

definition hq_test_full :: "'a http_req_queue \<Rightarrow> bool" where
  "hq_test_full queue = (hq_generation queue = 1 \<and> hq_head queue = hq_tail queue)"

definition http_req_queue_push ::
  "'a http_req_queue \<Rightarrow> 'a \<Rightarrow> ('a http_req_queue \<times> int) option" where
  "http_req_queue_push queue http_req =
     (if hq_test_full queue then Some (queue, 1)
      else do {
        guard (hq_tail queue < length (hq_buffer queue));
        let queue = queue\<lparr>hq_buffer := (hq_buffer queue)[hq_tail queue := Some http_req]\<rparr>;
        let queue = queue\<lparr>hq_tail := hq_tail queue + 1\<rparr>;
        let queue = (if hq_capacity queue < hq_tail queue
                     then queue\<lparr>hq_tail := 0, hq_generation := 1\<rparr> else queue);
        Some (queue, 0) })"

definition http_req_queue_pull ::
  "'a http_req_queue \<Rightarrow> ('a http_req_queue \<times> 'a option) option" where
  "http_req_queue_pull queue =
     (if hq_test_empty queue then Some (queue, None)
      else do {
        guard (hq_head queue < length (hq_buffer queue));
        req \<leftarrow> hq_buffer queue ! hq_head queue;
        let queue = queue\<lparr>hq_head := hq_head queue + 1\<rparr>;
        let queue = (if hq_capacity queue < hq_head queue
                     then queue\<lparr>hq_head := 0, hq_generation := 0\<rparr> else queue);
        Some (queue, Some req) })"

section \<open>On a block of \<open>capacity + 1\<close> cells\<close>

definition hq_ring :: "'a http_req_queue \<Rightarrow> 'a blockQueue" where
  "hq_ring q = \<lparr>bq_head = hq_head q, bq_tail = hq_tail q, bq_max_size = hq_capacity q + 1,
     tail_ahead = hq_generation q, http_req_array = hq_buffer q\<rparr>"

definition hq_valid :: "'a http_req_queue \<Rightarrow> bool" where
  "hq_valid q = bq_valid (hq_ring q)"

definition hq_pending :: "'a http_req_queue \<Rightarrow> 'a list" where
  "hq_pending q = bq_pending (hq_ring q)"

definition hq_limit :: "'a http_req_queue \<Rightarrow> nat" where
  "hq_limit q = hq_capacity q + 1"

lemma hq_ring_simps [simp]:
  "bq_head (hq_ring q) = hq_head q" "bq_tail (hq_ring q) = hq_tail q"
  "bq_max_size (hq_ring q) = hq_capacity q + 1" "tail_ahead (hq_ring q) = hq_generation q"
  "http_req_array (hq_ring q) = hq_buffer q"
  "test_full (hq_ring q) = hq_test_full q" "test_empty (hq_ring q) = hq_test_empty q"
  by (auto simp: hq_ring_def test_full_def test_empty_def hq_test_full_def hq_test_empty_def)

text \<open>The two rings take the same steps.\<close>

lemma push_sim:
  assumes "hq_valid q"
  shows "bq_push (hq_ring q) x = map_option (apfst hq_ring) (http_req_queue_push q x)"
  using assms
  by (auto simp: http_req_queue_push_def bq_push_def hq_valid_def bq_valid_def Let_def guard_def)

lemma pull_sim:
  assumes "hq_valid q"
  shows "bq_pull (hq_ring q) = map_option (apfst hq_ring) (http_req_queue_pull q)"
  using assms
  by (auto simp: http_req_queue_pull_def bq_pull_def hq_valid_def bq_valid_def Let_def guard_def
      split: Option.bind_split)

definition hq_offer :: "'a http_req_queue \<Rightarrow> 'a \<Rightarrow> ('a http_req_queue \<times> bool) option" where
  "hq_offer q x = map_option (\<lambda>(q, r). (q, r = 1)) (http_req_queue_push q x)"

lemma hq_dropped: "hq_valid q \<Longrightarrow> hq_test_full q \<Longrightarrow> hq_offer q x = Some (q, True)"
  by (simp add: hq_offer_def http_req_queue_push_def)

interpretation hq: bounded_fifo hq_offer http_req_queue_pull hq_pending hq_limit hq_valid
proof (unfold_locales, goal_cases)
  case (1 q x)
  then obtain r where "bq_offer (hq_ring q) x = Some (r, False)" "bq_valid r"
    "bq_max_size r = hq_limit q" "bq_pending r = hq_pending q @ [x]"
    using bq.push_room [of "hq_ring q" x] by (auto simp: hq_valid_def hq_pending_def hq_limit_def)
  then show ?case using push_sim [OF 1(1), of x]
    by (fastforce simp: bq_offer_def hq_offer_def hq_valid_def hq_pending_def hq_limit_def)
next
  case (2 q x)
  then have "hq_test_full q"
    using test_full_iff [of "hq_ring q"]
    by (simp add: hq_valid_def hq_pending_def hq_limit_def bq_pending_def)
  with 2 show ?case by (simp add: hq_dropped)
next
  case (3 q x xs)
  then obtain r where "bq_pull (hq_ring q) = Some (r, Some x)" "bq_valid r"
    "bq_max_size r = hq_limit q" "bq_pending r = xs"
    using bq.pull_some [of "hq_ring q" x xs] by (auto simp: hq_valid_def hq_pending_def hq_limit_def)
  then show ?case using pull_sim [OF 3(1)]
    by (fastforce simp: hq_valid_def hq_pending_def hq_limit_def)
next
  case (4 q)
  then have "hq_test_empty q"
    using test_empty_iff [of "hq_ring q"]
    by (simp add: hq_valid_def hq_pending_def bq_pending_def)
  then show ?case by (simp add: http_req_queue_pull_def)
next
  case (5 q)
  then show ?case using bq.pending_limit [of "hq_ring q"]
    by (simp add: hq_valid_def hq_pending_def hq_limit_def)
qed

section \<open>As allocated\<close>

text \<open>A fresh queue after \<open>k\<close> pushes, for as long as its block lasts.\<close>

lemma pushes_from:
  assumes "q = \<lparr>hq_buffer = buf, hq_capacity = n, hq_head = 0, hq_tail = k, hq_generation = 0\<rparr>"
    and "length buf = n" and "k + length xs = n"
  shows "\<exists>buf'. length buf' = n \<and> run_ops hq_offer http_req_queue_pull (map Push xs) q =
    Some (\<lparr>hq_buffer = buf', hq_capacity = n, hq_head = 0, hq_tail = n, hq_generation = 0\<rparr>, xs, [])"
  using assms
proof (induction xs arbitrary: k buf q)
  case Nil
  then show ?case by simp
next
  case (Cons x xs)
  let ?q = "\<lparr>hq_buffer = buf[k := Some x], hq_capacity = n, hq_head = 0, hq_tail = Suc k,
    hq_generation = 0\<rparr>"
  have "hq_offer q x = Some (?q, False)"
    using Cons.prems
    by (simp add: hq_offer_def http_req_queue_push_def hq_test_full_def Let_def)
  moreover obtain buf' where "length buf' = n"
    "run_ops hq_offer http_req_queue_pull (map Push xs) ?q =
      Some (\<lparr>hq_buffer = buf', hq_capacity = n, hq_head = 0, hq_tail = n, hq_generation = 0\<rparr>, xs, [])"
    using Cons.IH [of ?q "buf[k := Some x]" "Suc k"] Cons.prems by auto
  ultimately show ?case by auto
qed

lemma pushes_overrun:
  assumes "length xs = n"
  shows "run_ops hq_offer http_req_queue_pull (map Push (xs @ [x])) (init_http_req_queue_t n) = None"
proof -
  obtain buf where "length buf = n" and
    "run_ops hq_offer http_req_queue_pull (map Push xs) (init_http_req_queue_t n) =
      Some (\<lparr>hq_buffer = buf, hq_capacity = n, hq_head = 0, hq_tail = n, hq_generation = 0\<rparr>, xs, [])"
    using pushes_from [OF refl, of "replicate n None" n 0 xs] assms
    by (auto simp: init_http_req_queue_t_def)
  then show ?thesis
    by (simp add: run_ops_append hq_offer_def http_req_queue_push_def hq_test_full_def guard_def)
qed

section \<open>Properties\<close>

text \<open>The queue of \<open>http_req_queue.c\<close> on a block of one cell more than its
  capacity: every history of pushes and pulls stays inside the block and inside what was written,
  the elements come out first in first out, and at most \<open>capacity + 1\<close> are pending.\<close>

theorem hq_history:
  assumes "hq_valid q"
  shows "\<exists>q' acc out. run_ops hq_offer http_req_queue_pull ops q = Some (q', acc, out) \<and>
    hq_valid q' \<and> hq_pending q @ acc = out @ hq_pending q' \<and>
    length (hq_pending q') \<le> hq_capacity q + 1"
proof -
  from hq.history_fifo [OF assms, of ops] obtain q' acc out where
    r: "run_ops hq_offer http_req_queue_pull ops q = Some (q', acc, out)" "hq_valid q'"
      "hq_pending q @ acc = out @ hq_pending q'" by blast
  with hq.history_bounded [OF assms r(1)] show ?thesis by (auto simp: hq_limit_def)
qed

lemma hq_valid_wide:
  "hq_valid \<lparr>hq_buffer = replicate 3 None, hq_capacity = 2, hq_head = 0, hq_tail = 0,
     hq_generation = 0\<rparr>"
  by (simp add: hq_valid_def bq_valid_def bq_count_def ring_cells_def)

theorem hq_history_witness:
  "\<exists>q' acc out. run_ops hq_offer http_req_queue_pull [Push (1 :: nat), Push 2, Pull]
      \<lparr>hq_buffer = replicate 3 None, hq_capacity = 2, hq_head = 0, hq_tail = 0,
       hq_generation = 0\<rparr> = Some (q', acc, out) \<and> hq_valid q' \<and>
    acc = out @ hq_pending q' \<and> length (hq_pending q') \<le> 3"
  using hq_history [OF hq_valid_wide, of "[Push (1 :: nat), Push 2, Pull]"]
  by (simp add: hq_pending_def bq_pending_def bq_count_def ring_cells_def)

text \<open>As allocated by \<open>init_http_req_queue_t\<close>, a queue of capacity \<open>n\<close> takes
  \<open>n\<close> pushes, and the next one writes behind the block.\<close>

theorem hq_overrun:
  assumes "length xs = n"
  shows "run_ops hq_offer http_req_queue_pull (map Push xs) (init_http_req_queue_t n) \<noteq> None \<and>
    run_ops hq_offer http_req_queue_pull (map Push (xs @ [x])) (init_http_req_queue_t n) = None"
  using pushes_overrun [OF assms]
    pushes_from [OF refl, of "replicate n None" n 0 xs] assms
  by (auto simp: init_http_req_queue_t_def)

theorem hq_overrun_witness:
  "run_ops hq_offer http_req_queue_pull (map Push [1 :: nat]) (init_http_req_queue_t 1) \<noteq> None \<and>
   run_ops hq_offer http_req_queue_pull (map Push ([1] @ [2 :: nat])) (init_http_req_queue_t 1) = None"
  by (rule hq_overrun) simp

end
