(* ===== verification/Block_Queue_Threads.thy ===== *)
theory Block_Queue_Threads
  imports Block_Queue
begin

text \<open>
  The threads around \<open>blockQueue\<close>: any number of producers in \<open>bq_push\<close> and
  consumers in \<open>bq_pull\<close>, one mutex and one condition variable, interleaved at the points
  where they lock, unlock, wait and signal. \<open>uv_cond_wait\<close> releases the mutex and sleeps
  in one step; a sleeper wakes by a signal or spuriously, takes the mutex again and tests again.
  Signals are sent after the mutex is released, as in the code.

  The invariant gives mutual exclusion, that the calls take effect in the order of their critical
  sections on the queue of \<open>Block_Queue\<close> (so the elements come out in the order they were
  accepted, whatever the interleaving), and that no wake-up is lost: while a consumer sleeps, there
  are at least as many consumers awake or signals still to be sent as elements pending.
\<close>

datatype 'a pc =
    Idle
  | PushLock 'a    \<comment> \<open>before \<open>uv_mutex_lock\<close> in \<open>bq_push\<close>\<close>
  | PushCrit 'a    \<comment> \<open>holding the mutex in \<open>bq_push\<close>\<close>
  | PushSignal     \<comment> \<open>after the unlock, before \<open>uv_cond_signal\<close>\<close>
  | PullLock       \<comment> \<open>before \<open>uv_mutex_lock\<close> in \<open>bq_pull\<close>\<close>
  | PullCrit       \<comment> \<open>holding the mutex, at the loop test\<close>
  | Sleeping       \<comment> \<open>inside \<open>uv_cond_wait\<close>\<close>
  | Woken          \<comment> \<open>woken, waiting for the mutex\<close>

record 'a bq_sys =
  queue :: "'a blockQueue"
  owner :: "nat option"
  pcs :: "nat \<Rightarrow> 'a pc"
  trace :: "'a qop list"     \<comment> \<open>the calls, in the order of their critical sections\<close>
  results :: "'a list"       \<comment> \<open>the elements returned\<close>

definition move :: "nat \<Rightarrow> 'a pc \<Rightarrow> 'a bq_sys \<Rightarrow> 'a bq_sys" where
  "move i p s = s\<lparr>pcs := (pcs s)(i := p)\<rparr>"

lemma move_simps [simp]:
  "queue (move i p s) = queue s" "owner (move i p s) = owner s" "trace (move i p s) = trace s"
  "results (move i p s) = results s" "pcs (move i p s) = (pcs s)(i := p)"
  by (simp_all add: move_def)

definition bq_start :: "nat \<Rightarrow> 'a bq_sys" where
  "bq_start n = \<lparr>queue = init_blockQueue n, owner = None, pcs = (\<lambda>_. Idle), trace = [],
     results = []\<rparr>"

inductive bq_step :: "'a bq_sys \<Rightarrow> 'a bq_sys \<Rightarrow> bool" where
  call_push: "pcs s i = Idle \<Longrightarrow> bq_step s (move i (PushLock x) s)"
| push_lock: "pcs s i = PushLock x \<Longrightarrow> owner s = None \<Longrightarrow>
    bq_step s (move i (PushCrit x) (s\<lparr>owner := Some i\<rparr>))"
| push_drop: "pcs s i = PushCrit x \<Longrightarrow> bq_push (queue s) x = Some (q, 1) \<Longrightarrow>
    bq_step s (move i Idle (s\<lparr>queue := q, owner := None, trace := trace s @ [Push x]\<rparr>))"
| push_done: "pcs s i = PushCrit x \<Longrightarrow> bq_push (queue s) x = Some (q, 0) \<Longrightarrow>
    bq_step s (move i PushSignal (s\<lparr>queue := q, owner := None, trace := trace s @ [Push x]\<rparr>))"
| signal_wakes: "pcs s i = PushSignal \<Longrightarrow> pcs s j = Sleeping \<Longrightarrow>
    bq_step s (move i Idle (move j Woken s))"
| signal_none: "pcs s i = PushSignal \<Longrightarrow> \<forall>j. pcs s j \<noteq> Sleeping \<Longrightarrow> bq_step s (move i Idle s)"
| call_pull: "pcs s i = Idle \<Longrightarrow> bq_step s (move i PullLock s)"
| pull_lock: "pcs s i = PullLock \<or> pcs s i = Woken \<Longrightarrow> owner s = None \<Longrightarrow>
    bq_step s (move i PullCrit (s\<lparr>owner := Some i\<rparr>))"
| pull_wait: "pcs s i = PullCrit \<Longrightarrow> bq_pull (queue s) = Some (q, None) \<Longrightarrow>
    bq_step s (move i Sleeping (s\<lparr>queue := q, owner := None, trace := trace s @ [Pull]\<rparr>))"
| pull_done: "pcs s i = PullCrit \<Longrightarrow> bq_pull (queue s) = Some (q, Some x) \<Longrightarrow>
    bq_step s (move i Idle (s\<lparr>queue := q, owner := None, trace := trace s @ [Pull],
      results := results s @ [x]\<rparr>))"
| spurious: "pcs s i = Sleeping \<Longrightarrow> bq_step s (move i Woken s)"

inductive bq_reachable :: "nat \<Rightarrow> 'a bq_sys \<Rightarrow> bool" for n where
  start: "bq_reachable n (bq_start n)"
| step: "bq_reachable n s \<Longrightarrow> bq_step s t \<Longrightarrow> bq_reachable n t"

section \<open>The invariant\<close>

fun critical :: "'a pc \<Rightarrow> bool" where
  "critical (PushCrit x) = True"
| "critical PullCrit = True"
| "critical _ = False"

text \<open>The threads that will yet make a sleeping consumer go on or take an element themselves.\<close>

fun helping :: "'a pc \<Rightarrow> bool" where
  "helping PushSignal = True"
| "helping Woken = True"
| "helping PullCrit = True"
| "helping _ = False"

definition helpers :: "'a bq_sys \<Rightarrow> nat set" where
  "helpers s = {i. helping (pcs s i)}"

text \<open>Who holds the mutex, and that the queue is the one its calls have made of the empty one.\<close>

definition lock_inv :: "'a bq_sys \<Rightarrow> bool" where
  "lock_inv s \<longleftrightarrow> (\<forall>i. critical (pcs s i) \<longleftrightarrow> owner s = Some i)"

definition queue_inv :: "nat \<Rightarrow> 'a bq_sys \<Rightarrow> bool" where
  "queue_inv n s \<longleftrightarrow> bq_valid (queue s) \<and> bq_max_size (queue s) = n \<and>
     (\<exists>acc. run_ops bq_offer bq_pull (trace s) (init_blockQueue n) = Some (queue s, acc, results s))"

definition wakeup_inv :: "'a bq_sys \<Rightarrow> bool" where
  "wakeup_inv s \<longleftrightarrow> finite {i. pcs s i \<noteq> Idle} \<and>
     ((\<exists>j. pcs s j = Sleeping) \<longrightarrow>
       length (bq_pending (queue s)) \<le> card (helpers s))"

lemma run_ops_snoc_push:
  assumes "run_ops bq_offer bq_pull ops q0 = Some (q, acc, out)" and "bq_push q x = Some (q', r)"
  shows "\<exists>acc'. run_ops bq_offer bq_pull (ops @ [Push x]) q0 = Some (q', acc', out)"
  using assms by (auto simp: run_ops_append bq_offer_def)

lemma run_ops_snoc_pull:
  assumes "run_ops bq_offer bq_pull ops q0 = Some (q, acc, out)" and "bq_pull q = Some (q', r)"
  shows "\<exists>acc'. run_ops bq_offer bq_pull (ops @ [Pull]) q0 =
    Some (q', acc', out @ (case r of None \<Rightarrow> [] | Some x \<Rightarrow> [x]))"
  using assms by (auto simp: run_ops_append split: option.splits)

lemma bq_push_outcome:
  assumes "bq_valid q" and "bq_push q x = Some (q', r)"
  shows "bq_valid q' \<and> bq_max_size q' = bq_max_size q \<and>
    (r = 1 \<and> q' = q \<or> r = 0 \<and> bq_pending q' = bq_pending q @ [x])"
proof (cases "bq_count q < bq_max_size q")
  case True
  with bq_push_ok [OF assms(1) True, of x] assms(2) show ?thesis by auto
next
  case False
  with bq_tail_count(2) [OF assms(1)] have "test_full q" by (simp add: test_full_iff assms(1))
  with assms show ?thesis by (auto simp: bq_push_def)
qed

lemma bq_pull_outcome:
  assumes "bq_valid q" and "bq_pull q = Some (q', r)"
  shows "bq_valid q' \<and> bq_max_size q' = bq_max_size q \<and>
    bq_pending q = (case r of None \<Rightarrow> [] | Some x \<Rightarrow> [x]) @ bq_pending q'"
  using bq.pull_total [OF assms(1)] assms(2) by auto

lemma bq_pull_waits: "bq_valid q \<Longrightarrow> bq_pull q = Some (q', None) \<Longrightarrow> bq_pending q = []"
  by (auto simp: bq_pull_def test_empty_iff bq_pending_def Let_def split: if_splits Option.bind_splits)

lemma lock_inv_step: "bq_step s t \<Longrightarrow> lock_inv s \<Longrightarrow> lock_inv t"
  by (induction rule: bq_step.induct)
     (auto simp: lock_inv_def split: if_splits, (metis critical.simps)+)

lemma queue_inv_step: "bq_step s t \<Longrightarrow> queue_inv n s \<Longrightarrow> queue_inv n t"
proof (induction rule: bq_step.induct)
  case (push_drop s i x q)
  then show ?case using bq_push_outcome [of "queue s" x q 1]
    by (auto simp: queue_inv_def dest: run_ops_snoc_push)
next
  case (push_done s i x q)
  then show ?case using bq_push_outcome [of "queue s" x q 0]
    by (auto simp: queue_inv_def dest: run_ops_snoc_push)
next
  case (pull_wait s i q)
  then show ?case using bq_pull_outcome [of "queue s" q None]
    by (auto simp: queue_inv_def dest: run_ops_snoc_pull)
next
  case (pull_done s i q x)
  then show ?case using bq_pull_outcome [of "queue s" q "Some x"]
    by (auto simp: queue_inv_def dest: run_ops_snoc_pull)
qed (auto simp: queue_inv_def)

text \<open>How many threads help, after one of them has moved.\<close>

lemma card_helping_upd:
  assumes "finite {j. f j \<noteq> Idle}"
  shows "card {j. helping ((f(i := v)) j)} + (if helping (f i) then 1 else 0) =
    card {j. helping (f j)} + (if helping v then 1 else 0)"
proof -
  have fin: "finite {j. helping (f j)}" by (rule finite_subset [OF _ assms]) auto
  have rest: "{j. helping ((f(i := v)) j)} =
      (if helping v then insert i {j. helping (f j)} else {j. helping (f j)} - {i})"
    by auto
  have "card {j. helping (f j)} > 0" if "helping (f i)"
    using fin that by (subst card_gt_0_iff) auto
  then show ?thesis unfolding rest using fin
    by (cases "helping v"; cases "helping (f i)")
       (simp_all add: card_insert_if card_Diff_singleton_if)
qed

lemma finite_fun_upd: "finite {j. f j \<noteq> Idle} \<Longrightarrow> finite {j. (f(i := v)) j \<noteq> Idle}"
  by (rule finite_subset [of _ "insert i {j. f j \<noteq> Idle}"]) auto

text \<open>
  A thread moves and the queue changes: what the balance between pending elements and helpers has
  to satisfy for the invariant to go on holding.
\<close>

lemma wakeup_inv_move:
  assumes "wakeup_inv s" and p: "pcs t = (pcs s)(i := v)"
    and sleep: "v = Sleeping \<Longrightarrow> bq_pending (queue t) = []"
    and bal: "length (bq_pending (queue t)) + (if helping (pcs s i) then 1 else 0)
      \<le> length (bq_pending (queue s)) + (if helping v then 1 else 0) \<or> bq_pending (queue t) = []"
  shows "wakeup_inv t"
proof -
  have fin: "finite {j. pcs s j \<noteq> Idle}" using assms(1) by (simp add: wakeup_inv_def)
  have "length (bq_pending (queue t)) \<le> card (helpers t)" if sl: "\<exists>j. pcs t j = Sleeping"
  proof (cases "\<exists>j. pcs s j = Sleeping")
    case True
    then have "length (bq_pending (queue s)) \<le> card (helpers s)"
      using assms(1) by (simp add: wakeup_inv_def)
    moreover have "card (helpers t) + (if helping (pcs s i) then 1 else 0) =
        card (helpers s) + (if helping v then 1 else 0)"
      using card_helping_upd [OF fin, of i v] by (simp add: helpers_def p)
    ultimately show ?thesis using bal by (auto split: if_splits)
  next
    case False
    with sl p have "v = Sleeping" by (auto split: if_splits)
    with sleep show ?thesis by simp
  qed
  with finite_fun_upd [OF fin, of i v] show ?thesis by (simp add: wakeup_inv_def p)
qed

lemma wakeup_inv_step:
  assumes "bq_step s t" and "bq_valid (queue s)" and "wakeup_inv s"
  shows "wakeup_inv t"
  using assms
proof (induction rule: bq_step.induct)
  case (push_drop s i x q)
  then have q: "q = queue s" using bq_push_outcome [of "queue s" x q 1] by simp
  show ?case by (rule wakeup_inv_move [of s _ i Idle]) (use push_drop q in simp_all)
next
  case (push_done s i x q)
  then have q: "bq_pending q = bq_pending (queue s) @ [x]"
    using bq_push_outcome [of "queue s" x q 0] by simp
  show ?case by (rule wakeup_inv_move [of s _ i PushSignal]) (use push_done q in simp_all)
next
  case (signal_wakes s i j)
  let ?t = "move j Woken s"
  have ij: "i \<noteq> j" using signal_wakes by auto
  have fin: "finite {k. pcs s k \<noteq> Idle}" using signal_wakes by (simp add: wakeup_inv_def)
  have "length (bq_pending (queue s)) \<le> card (helpers s)"
    using signal_wakes by (auto simp: wakeup_inv_def)
  moreover have "card (helpers (move i Idle ?t)) = card (helpers s)"
  proof -
    have hi: "helping (((pcs s)(j := Woken)) i)" "\<not> helping (pcs s j)"
      using signal_wakes ij by simp_all
    note card_helping_upd [OF finite_fun_upd [OF fin], of j Woken i Idle]
    moreover note card_helping_upd [OF fin, of j Woken]
    ultimately show ?thesis
      unfolding helpers_def move_simps by (simp only: hi helping.simps if_True if_False)
  qed
  moreover have "finite {k. pcs (move i Idle ?t) k \<noteq> Idle}"
    using finite_fun_upd [OF finite_fun_upd [OF fin]] unfolding move_simps .
  ultimately show ?case by (simp only: wakeup_inv_def move_simps simp_thms)
next
  case (signal_none s i)
  then show ?case
    using finite_fun_upd [of "pcs s" i Idle] by (auto simp: wakeup_inv_def)
next
  case (pull_wait s i q)
  then have q: "bq_pending q = []"
    using bq_pull_outcome [of "queue s" q None] bq_pull_waits [of "queue s" q] by simp
  show ?case by (rule wakeup_inv_move [of s _ i Sleeping]) (use pull_wait q in simp_all)
next
  case (pull_done s i q x)
  then have q: "bq_pending (queue s) = x # bq_pending q"
    using bq_pull_outcome [of "queue s" q "Some x"] by simp
  show ?case by (rule wakeup_inv_move [of s _ i Idle]) (use pull_done q in simp_all)
qed (rule wakeup_inv_move, assumption, simp, force, force)+

section \<open>Reachable states\<close>

lemma bq_reachable_inv:
  assumes "bq_reachable n s" and "0 < n"
  shows "lock_inv s \<and> queue_inv n s \<and> wakeup_inv s"
  using assms
proof (induction rule: bq_reachable.induct)
  case start
  then show ?case
    by (simp add: lock_inv_def queue_inv_def wakeup_inv_def bq_start_def bq_valid_init)
       (simp add: init_blockQueue_def)
next
  case (step s t)
  then have "bq_valid (queue s)" by (simp add: queue_inv_def)
  with step show ?case
    by (blast intro: lock_inv_step queue_inv_step wakeup_inv_step)
qed

section \<open>Properties\<close>

text \<open>C23. Under every interleaving of producers and consumers at most one thread is in a critical
  section, at most \<open>n\<close> elements are pending, and the elements handed out so far followed by
  those pending are the accepted ones in the order of acceptance.\<close>

theorem bq_threads_fifo:
  assumes "bq_reachable n s" and "0 < n"
  shows "(\<forall>i j. critical (pcs s i) \<longrightarrow> critical (pcs s j) \<longrightarrow> i = j) \<and>
    run_ops bq_offer bq_pull (trace s) (init_blockQueue n) =
      Some (queue s, results s @ bq_pending (queue s), results s) \<and>
    length (bq_pending (queue s)) \<le> n"
proof -
  have inv: "lock_inv s" "queue_inv n s" using bq_reachable_inv [OF assms] by auto
  then obtain acc where r: "run_ops bq_offer bq_pull (trace s) (init_blockQueue n) =
      Some (queue s, acc, results s)" and v: "bq_valid (queue s)" "bq_max_size (queue s) = n"
    by (auto simp: queue_inv_def)
  have "acc = results s @ bq_pending (queue s)"
    using bq.history_fifo [OF conjunct1 [OF bq_valid_init [OF assms(2)]], of "trace s"]
      assms(2) r by (auto simp: bq_valid_init)
  moreover have "length (bq_pending (queue s)) \<le> n" using bq.pending_limit [OF v(1)] v(2) by simp
  moreover have "\<forall>i j. critical (pcs s i) \<longrightarrow> critical (pcs s j) \<longrightarrow> i = j"
    using inv(1) by (simp add: lock_inv_def)
  ultimately show ?thesis using r by simp
qed

text \<open>A run: thread 0 pushes 7 into a queue of one cell, thread 1 pulls it.\<close>

lemma bq_run_example:
  "\<exists>s. bq_reachable 1 s \<and> results s = [7 :: nat] \<and> trace s = [Push 7, Pull]"
proof -
  let ?q1 = "\<lparr>bq_head = 0, bq_tail = 0, bq_max_size = 1, tail_ahead = 1,
    http_req_array = [Some 7]\<rparr> :: nat blockQueue"
  let ?s0 = "bq_start 1 :: nat bq_sys"
  let ?s1 = "move 0 (PushLock 7) ?s0"
  let ?s2 = "move 0 (PushCrit 7) (?s1\<lparr>owner := Some 0\<rparr>)"
  let ?s3 = "move 0 PushSignal (?s2\<lparr>queue := ?q1, owner := None, trace := trace ?s2 @ [Push 7]\<rparr>)"
  let ?s4 = "move 1 PullLock ?s3"
  let ?s5 = "move 1 PullCrit (?s4\<lparr>owner := Some 1\<rparr>)"
  let ?q2 = "?q1\<lparr>tail_ahead := 0\<rparr>"
  let ?s6 = "move 1 Idle (?s5\<lparr>queue := ?q2, owner := None, trace := trace ?s5 @ [Pull],
    results := results ?s5 @ [7]\<rparr>)"
  have push: "bq_push (queue ?s2) 7 = Some (?q1, 0)"
    by (simp add: bq_push_def bq_start_def init_blockQueue_def test_full_def)
  have pull: "bq_pull (queue ?s5) = Some (?q2, Some 7)"
    by (simp add: bq_pull_def test_empty_def)
  have "bq_reachable 1 ?s1"
    by (rule step [OF start call_push]) (simp add: bq_start_def)
  then have "bq_reachable 1 ?s2"
    by (rule step [OF _ push_lock]) (simp_all add: bq_start_def)
  then have "bq_reachable 1 ?s3"
    by (rule step [OF _ push_done [OF _ push]]) simp
  then have "bq_reachable 1 ?s4"
    by (rule step [OF _ call_pull]) (simp add: bq_start_def)
  then have "bq_reachable 1 ?s5"
    by (rule step [OF _ pull_lock]) simp_all
  then have "bq_reachable 1 ?s6"
    by (rule step [OF _ pull_done [OF _ pull]]) simp
  then show ?thesis by (intro exI [of _ ?s6]) (simp add: bq_start_def)
qed

theorem bq_threads_fifo_witness:
  "\<exists>s :: nat bq_sys. results s = [7] \<and>
    run_ops bq_offer bq_pull [Push 7, Pull] (init_blockQueue 1) =
      Some (queue s, [7] @ bq_pending (queue s), [7]) \<and>
    length (bq_pending (queue s)) \<le> 1"
proof -
  obtain s :: "nat bq_sys" where s: "bq_reachable 1 s" "results s = [7]" "trace s = [Push 7, Pull]"
    using bq_run_example by blast
  from bq_threads_fifo [OF s(1) zero_less_one] s show ?thesis
    by (intro exI [of _ s]) (simp del: run_ops.simps)
qed

text \<open>C24. No wake-up is lost: while a consumer sleeps, there are at least as many threads that
  hold a signal still to be sent or are on their way to take an element as elements pending; so a
  consumer never sleeps on a non-empty queue with nobody to wake it or to drain it.\<close>

theorem bq_no_lost_wakeup:
  assumes "bq_reachable n s" and "0 < n" and "pcs s j = Sleeping"
  shows "length (bq_pending (queue s)) \<le> card {i. helping (pcs s i)} \<and>
    (bq_pending (queue s) \<noteq> [] \<longrightarrow> (\<exists>i. helping (pcs s i)))"
proof -
  have "length (bq_pending (queue s)) \<le> card {i. helping (pcs s i)}"
    using bq_reachable_inv [OF assms(1,2)] assms(3) by (auto simp: wakeup_inv_def helpers_def)
  moreover have "card {i. helping (pcs s i)} = 0" if "\<nexists>i. helping (pcs s i)" using that by simp
  ultimately show ?thesis by fastforce
qed

lemma bq_sleep_example: "\<exists>s :: nat bq_sys. bq_reachable 1 s \<and> pcs s 1 = Sleeping"
proof -
  let ?s0 = "bq_start 1 :: nat bq_sys"
  let ?s1 = "move 1 PullLock ?s0"
  let ?s2 = "move 1 PullCrit (?s1\<lparr>owner := Some 1\<rparr>)"
  have pull: "bq_pull (queue ?s2) = Some (queue ?s2, None)"
    by (simp add: bq_pull_def test_empty_def bq_start_def init_blockQueue_def)
  have "bq_reachable 1 ?s1"
    by (rule step [OF start call_pull]) (simp add: bq_start_def)
  then have "bq_reachable 1 ?s2"
    by (rule step [OF _ pull_lock]) (simp_all add: bq_start_def)
  then have "bq_reachable 1 (move 1 Sleeping (?s2\<lparr>queue := queue ?s2, owner := None,
      trace := trace ?s2 @ [Pull]\<rparr>))"
    by (rule step [OF _ pull_wait [OF _ pull]]) simp
  then show ?thesis by (intro exI conjI, assumption) simp
qed

theorem bq_no_lost_wakeup_witness:
  "\<exists>s :: nat bq_sys. pcs s 1 = Sleeping \<and>
    length (bq_pending (queue s)) \<le> card {i. helping (pcs s i)}"
proof -
  obtain s :: "nat bq_sys" where s: "bq_reachable 1 s" "pcs s 1 = Sleeping"
    using bq_sleep_example by blast
  from bq_no_lost_wakeup [OF s(1) zero_less_one s(2)] s show ?thesis by (intro exI [of _ s]) simp
qed

end
