(* ===== verification/Framing.thy ===== *)
theory Framing
  imports C_Mem
begin

text \<open>
  The contract of the three length-prefixed readers of the agents (the consumer agent reading
  responses, the provider agent reading requests and Dubbo responses). Each has a buffer, appends
  what libuv has read behind the bytes it holds, and then runs a loop that takes complete frames off
  the front, handles each and moves the rest down (the code calls it handling sticky packets).

  The locale asks for the two steps of such a loop: it stops on an incomplete frame, and it handles a
  complete one and goes on with the bytes behind it. Its lemmas are about a whole connection: the
  stream of frames may arrive cut into reads in any way, each read taking as much as the schedule
  says and the buffer has room for, and the frames are handled one by one, in order, exactly once,
  as soon as they are complete.
\<close>

text \<open>
  A connection: the bytes the peer has sent and libuv has not read, the buffer, the number of bytes
  it holds, and the state the frames are handled on. \<open>deliver\<close> is one read of at most
  \<open>k\<close> bytes: libuv asks the alloc callback for the free part of the buffer, fills it and
  calls the read callback. With nothing to read there is no callback; without room the callback gets
  an error, which the readers answer by closing the connection or ending the process (\<open>None\<close>).
\<close>

type_synonym 's conn = "byte list \<times> byte list \<times> int \<times> 's"

definition deliver ::
  "(byte list \<Rightarrow> int \<Rightarrow> 's \<Rightarrow> (byte list \<times> int \<times> 's) option) \<Rightarrow> nat \<Rightarrow> 's conn \<Rightarrow> 's conn option" where
  "deliver loop k c = (case c of (unread, buf, held, s) \<Rightarrow>
     let n = min k (min (length unread) (length buf - nat held))
     in if min k (length unread) = 0 then Some c
        else do {
          guard (n \<noteq> 0);
          buf \<leftarrow> store buf held (take n unread);
          (buf, held, s) \<leftarrow> loop buf (held + int n) s;
          Some (drop n unread, buf, held, s) })"

fun deliver_all ::
  "(byte list \<Rightarrow> int \<Rightarrow> 's \<Rightarrow> (byte list \<times> int \<times> 's) option) \<Rightarrow> nat list \<Rightarrow> 's conn \<Rightarrow> 's conn option"
where
  "deliver_all loop [] c = Some c"
| "deliver_all loop (k # ks) c = do { c \<leftarrow> deliver loop k c; deliver_all loop ks c }"

locale framed_reader =
  fixes cap :: nat
    and loop :: "byte list \<Rightarrow> int \<Rightarrow> 's \<Rightarrow> (byte list \<times> int \<times> 's) option"
    and enc :: "'f \<Rightarrow> byte list"
    and frame_ok :: "'f \<Rightarrow> bool"
    and ready :: "'f list \<Rightarrow> 's \<Rightarrow> bool"
    and handle :: "'f \<Rightarrow> 's \<Rightarrow> 's"
  assumes frame_len: "frame_ok f \<Longrightarrow> 0 < length (enc f) \<and> length (enc f) \<le> cap"
    and loop_waits: "frame_ok f \<Longrightarrow> length buf = cap \<Longrightarrow> n < length (enc f) \<Longrightarrow>
      take n buf = take n (enc f) \<Longrightarrow> loop buf (int n) s = Some (buf, int n, s)"
    and loop_takes: "frame_ok f \<Longrightarrow> ready (f # fs) s \<Longrightarrow> length buf = cap \<Longrightarrow> length (enc f) \<le> n \<Longrightarrow> n \<le> cap \<Longrightarrow>
      take (length (enc f)) buf = enc f \<Longrightarrow>
      \<exists>buf'. length buf' = cap \<and> take (n - length (enc f)) buf' = drop (length (enc f)) (take n buf) \<and>
        loop buf (int n) s = loop buf' (int (n - length (enc f))) (handle f s)"
    and handle_ready: "frame_ok f \<Longrightarrow> ready (f # fs) s \<Longrightarrow> ready fs (handle f s)"
begin

lemma fold_ready:
  "\<forall>f \<in> set fs. frame_ok f \<Longrightarrow> ready (fs @ gs) s \<Longrightarrow> ready gs (fold handle fs s)"
  by (induction fs arbitrary: s) (auto intro: handle_ready)

text \<open>
  The loop on a buffer whose content is the beginning of a stream of frames: it handles those that
  are complete and keeps the rest, which is shorter than the frame it belongs to.
\<close>

lemma loop_prefix:
  assumes "\<forall>f \<in> set fs. frame_ok f" and "ready fs s" and "length buf = cap" and "n \<le> cap"
    and "take n buf @ rest = concat (map enc fs)"
  shows "\<exists>j buf' n'. j \<le> length fs \<and> loop buf (int n) s = Some (buf', int n', fold handle (take j fs) s) \<and>
    length buf' = cap \<and> n' \<le> cap \<and> take n' buf' @ rest = concat (map enc (drop j fs)) \<and>
    (j < length fs \<longrightarrow> n' < length (enc (fs ! j))) \<or> fs = [] \<and> n = 0"
  using assms
proof (induction fs arbitrary: n buf s)
  case Nil
  then show ?case by (cases "n = 0") auto
next
  case (Cons f fs)
  have f: "frame_ok f" using Cons.prems(1) by simp
  have eq: "take n buf @ rest = enc f @ concat (map enc fs)" using Cons.prems(5) by simp
  have ln: "length (take n buf) = n" using Cons.prems(3,4) by simp
  show ?case
  proof (cases "n < length (enc f)")
    case True
    have "take n buf = take n (take n buf @ rest)" using ln by simp
    also have "\<dots> = take n (enc f)" unfolding eq using True by simp
    finally have "loop buf (int n) s = Some (buf, int n, s)"
      using loop_waits [OF f Cons.prems(3) True] by simp
    then show ?thesis using Cons.prems True by (intro disjI1 exI [of _ 0] exI [of _ buf] exI [of _ n]) simp
  next
    case False
    have "take (length (enc f)) buf = take (length (enc f)) (take n buf @ rest)"
      using False ln by (simp add: min_def)
    also have "\<dots> = enc f" unfolding eq by simp
    finally have tf: "take (length (enc f)) buf = enc f" .
    have "length (enc f) \<le> n" using False by simp
    from loop_takes [OF f Cons.prems(2,3) this Cons.prems(4) tf] obtain b1 where
      b1: "length b1 = cap" "take (n - length (enc f)) b1 = drop (length (enc f)) (take n buf)"
        "loop buf (int n) s = loop b1 (int (n - length (enc f))) (handle f s)" by blast
    have "take (n - length (enc f)) b1 @ rest = concat (map enc fs)"
    proof -
      have "drop (length (enc f)) (take n buf) @ rest = drop (length (enc f)) (take n buf @ rest)"
        using False ln by simp
      then show ?thesis unfolding b1(2) eq by simp
    qed
    moreover have "n - length (enc f) \<le> cap" using Cons.prems(4) by simp
    ultimately consider j buf' n' where "j \<le> length fs"
        "loop b1 (int (n - length (enc f))) (handle f s) =
          Some (buf', int n', fold handle (take j fs) (handle f s))"
        "length buf' = cap" "n' \<le> cap" "take n' buf' @ rest = concat (map enc (drop j fs))"
        "j < length fs \<longrightarrow> n' < length (enc (fs ! j))"
      | "fs = []" "n - length (enc f) = 0"
      using Cons.IH [of "handle f s" b1 "n - length (enc f)"] Cons.prems(1) b1(1)
        handle_ready [OF f Cons.prems(2)] by auto
    then show ?thesis
    proof cases
      case 1
      then show ?thesis using b1(3)
        by (intro disjI1 exI [of _ "Suc j"] exI [of _ buf'] exI [of _ n']) auto
    next
      case 2
      have "loop b1 (int 0) (handle f s) = Some (b1, int 0, handle f s)"
        using loop_waits [OF f b1(1), of 0] frame_len [OF f] by simp
      moreover have "n + length rest = length (enc f)" using arg_cong [OF eq, of length] ln 2(1) by simp
      then have "length rest = 0" "n = length (enc f)" using False by linarith+
      ultimately show ?thesis using b1(1,3) 2
        by (intro disjI1 exI [of _ 1] exI [of _ b1] exI [of _ 0]) simp
    qed
  qed
qed

lemma loop_content:
  assumes "\<forall>f \<in> set fs. frame_ok f" and "ready fs s" and "length buf = cap" and "n \<le> cap"
    and "take n buf @ rest = concat (map enc fs)" and "0 < n"
  obtains j buf' n' where "j \<le> length fs"
    "loop buf (int n) s = Some (buf', int n', fold handle (take j fs) s)"
    "length buf' = cap" "n' \<le> cap" "take n' buf' @ rest = concat (map enc (drop j fs))"
    "j < length fs \<longrightarrow> n' < length (enc (fs ! j))"
proof -
  have "\<not> (fs = [] \<and> n = 0)" using assms(6) by simp
  with loop_prefix [OF assms(1-5)] show thesis by (elim disjE exE conjE) (rule that, assumption+, simp)
qed

text \<open>One state of the connection: what was handled, and what is held and still to come.\<close>

definition conn_inv :: "'f list \<Rightarrow> 's \<Rightarrow> nat \<Rightarrow> 's conn \<Rightarrow> bool" where
  "conn_inv fs s0 j c = (case c of (unread, buf, held, s) \<Rightarrow>
     j \<le> length fs \<and> s = fold handle (take j fs) s0 \<and> length buf = cap \<and>
     0 \<le> held \<and> nat held \<le> cap \<and> take (nat held) buf @ unread = concat (map enc (drop j fs)) \<and>
     (j < length fs \<longrightarrow> nat held < length (enc (fs ! j))))"

lemma deliver_step:
  assumes ok: "\<forall>f \<in> set fs. frame_ok f" "ready fs s0" and inv: "conn_inv fs s0 j c"
  shows "\<exists>j' c'. deliver loop k c = Some c' \<and> conn_inv fs s0 j' c' \<and> j \<le> j' \<and>
    (0 < k \<and> fst c \<noteq> [] \<longrightarrow> length (fst c') < length (fst c)) \<and> length (fst c') \<le> length (fst c)"
proof -
  obtain unread buf held s where c: "c = (unread, buf, held, s)" by (cases c)
  have i: "j \<le> length fs" "s = fold handle (take j fs) s0" "length buf = cap" "0 \<le> held"
      "nat held \<le> cap" "take (nat held) buf @ unread = concat (map enc (drop j fs))"
      "j < length fs \<Longrightarrow> nat held < length (enc (fs ! j))"
    using inv by (auto simp: conn_inv_def c)
  have sok: "ready (drop j fs) s"
    unfolding i(2) using ok by (intro fold_ready) (auto dest: in_set_takeD)
  let ?n = "min k (min (length unread) (length buf - nat held))"
  have room: "unread \<noteq> [] \<Longrightarrow> nat held < cap"
  proof -
    assume "unread \<noteq> []"
    then have "j \<noteq> length fs" using i(6) by auto
    then have "j < length fs" using i(1) by simp
    with i(7) frame_len ok(1) show "nat held < cap" by (meson nth_mem order_less_le_trans)
  qed
  show ?thesis
  proof (cases "?n = 0")
    case True
    have no: "\<not> (0 < k \<and> unread \<noteq> [])" using True room i(3)
      by (auto simp: min_def split: if_splits)
    then have "min k (length unread) = 0" by auto
    then have "deliver loop k c = Some c" by (simp only: deliver_def c prod.case Let_def simp_thms if_True)
    then show ?thesis using inv no by (auto simp: c)
  next
    case False
    have nz: "(min k (length unread) = 0) = False" using False by simp
    have sz: "held + int (length (take ?n unread)) \<le> int (length buf)" using i(4) i(3,5) by simp
    then obtain b1 where s1: "store buf held (take ?n unread) = Some b1"
      using i(4) by (simp add: store_Some)
    have l1: "length b1 = cap" using length_store [OF s1] i(3) by simp
    let ?m = "nat held + ?n"
    have m: "held + int ?n = int ?m" "?m \<le> cap" using i(3,4,5) by simp_all
    have "take ?m b1 = take (nat held) buf @ take ?n unread"
      using s1 i(3,5) by (auto simp: store_def min_def split: if_splits)
    then have "take ?m b1 @ drop ?n unread = concat (map enc (drop j fs))" using i(6) by simp
    note content = this
    have fok: "\<forall>f \<in> set (drop j fs). frame_ok f" using ok(1) by (auto dest: in_set_dropD)
    have pos: "0 < ?m" using False by simp
    obtain j' buf' n' where
      r: "j' \<le> length (drop j fs)" "loop b1 (int ?m) s =
          Some (buf', int n', fold handle (take j' (drop j fs)) s)"
        "length buf' = cap" "n' \<le> cap" "take n' buf' @ drop ?n unread = concat (map enc (drop j' (drop j fs)))"
        "j' < length (drop j fs) \<longrightarrow> n' < length (enc (drop j fs ! j'))"
      by (rule loop_content [OF fok sok l1 m(2) content pos])
    have d: "deliver loop k c = Some (drop ?n unread, buf', int n', fold handle (take j' (drop j fs)) s)"
      by (simp only: deliver_def c prod.case Let_def False nz if_False guard_bind simp_thms if_True s1 Option.bind.bind_lunit m(1) r(2))
    have "take (j + j') fs = take j fs @ take j' (drop j fs)" by (rule take_add)
    then have st: "fold handle (take j' (drop j fs)) s = fold handle (take (j + j') fs) s0"
      by (simp add: i(2))
    have "conn_inv fs s0 (j + j') (drop ?n unread, buf', int n', fold handle (take j' (drop j fs)) s)"
      unfolding conn_inv_def prod.case st nat_int
    proof (intro conjI refl impI)
      show "j + j' \<le> length fs" using r(1) i(1) by simp
      have dd: "drop j' (drop j fs) = drop (j + j') fs" by (simp add: add.commute)
      show "take n' buf' @ drop ?n unread = concat (map enc (drop (j + j') fs))" using r(5) unfolding dd .
      show "n' < length (enc (fs ! (j + j')))" if "j + j' < length fs"
        using r(6) that i(1) by simp
    qed (use r(3,4) in simp_all)
    moreover have "length (drop ?n unread) < length unread" using False by simp
    ultimately show ?thesis using d by (auto simp: c)
  qed
qed

lemma deliver_all_inv:
  assumes "\<forall>f \<in> set fs. frame_ok f" "ready fs s0" and "conn_inv fs s0 j c"
  shows "\<exists>j' c'. deliver_all loop ks c = Some c' \<and> conn_inv fs s0 j' c' \<and> j \<le> j' \<and>
    ((\<forall>k \<in> set ks. 0 < k) \<and> length (fst c) \<le> length ks \<longrightarrow> fst c' = [])"
  using assms(3)
proof (induction ks arbitrary: j c)
  case Nil
  then show ?case by auto
next
  case (Cons k ks)
  from deliver_step [OF assms(1,2) Cons.prems, of k] obtain j1 c1 where
    d: "deliver loop k c = Some c1" "conn_inv fs s0 j1 c1" "j \<le> j1"
      "0 < k \<and> fst c \<noteq> [] \<longrightarrow> length (fst c1) < length (fst c)" "length (fst c1) \<le> length (fst c)"
    by blast
  from Cons.IH [OF d(2)] obtain j' c' where
    r: "deliver_all loop ks c1 = Some c'" "conn_inv fs s0 j' c'" "j1 \<le> j'"
      "(\<forall>k \<in> set ks. 0 < k) \<and> length (fst c1) \<le> length ks \<longrightarrow> fst c' = []" by blast
  show ?case using d r by (intro exI [of _ j'] exI [of _ c']) auto
qed

lemma conn_inv_start:
  "\<forall>f \<in> set fs. frame_ok f \<Longrightarrow> length buf0 = cap \<Longrightarrow> conn_inv fs s0 0 (concat (map enc fs), buf0, 0, s0)"
  using frame_len by (auto simp: conn_inv_def)

text \<open>When nothing is left to read, everything was handled.\<close>

lemma conn_inv_done:
  assumes inv: "conn_inv fs s0 j ([], buf, held, s)"
  shows "s = fold handle fs s0 \<and> held = 0"
proof -
  have e: "take (nat held) buf = concat (map enc (drop j fs))" and sz: "nat held \<le> length buf" "0 \<le> held"
    using inv by (auto simp: conn_inv_def)
  have "j = length fs"
  proof (rule ccontr)
    assume "j \<noteq> length fs"
    then have "j < length fs" using inv by (auto simp: conn_inv_def)
    then have "nat held < length (enc (fs ! j))" "concat (map enc (drop j fs)) = enc (fs ! j) @ concat (map enc (drop (Suc j) fs))"
      using inv by (auto simp: conn_inv_def simp flip: Cons_nth_drop_Suc)
    moreover have "length (take (nat held) buf) = nat held" using sz by simp
    ultimately show False using e by simp
  qed
  moreover from this have "nat held = 0" using e sz by auto
  ultimately show ?thesis using inv sz by (auto simp: conn_inv_def)
qed

text \<open>The whole connection, from an empty buffer.\<close>

lemma stream_handled:
  assumes "\<forall>f \<in> set fs. frame_ok f" "ready fs s0" and "length buf0 = cap"
  shows "\<exists>j unread buf held s. deliver_all loop ks (concat (map enc fs), buf0, 0, s0) = Some (unread, buf, held, s) \<and>
    j \<le> length fs \<and> s = fold handle (take j fs) s0 \<and>
    take (nat held) buf @ unread = concat (map enc (drop j fs)) \<and>
    (j < length fs \<longrightarrow> nat held < length (enc (fs ! j))) \<and>
    ((\<forall>k \<in> set ks. 0 < k) \<and> length (concat (map enc fs)) \<le> length ks \<longrightarrow>
      s = fold handle fs s0 \<and> unread = [] \<and> held = 0)"
proof -
  from deliver_all_inv [OF assms(1,2) conn_inv_start [OF assms(1,3)], of ks, unfolded fst_conv] obtain j c' where
    c: "deliver_all loop ks (concat (map enc fs), buf0, 0, s0) = Some c'" "conn_inv fs s0 j c'"
      "(\<forall>k \<in> set ks. 0 < k) \<and> length (concat (map enc fs)) \<le> length ks \<longrightarrow> fst c' = []" by blast
  obtain unread buf held s where c': "c' = (unread, buf, held, s)" by (cases c')
  have d: "deliver_all loop ks (concat (map enc fs), buf0, 0, s0) = Some (unread, buf, held, s)"
    and inv: "conn_inv fs s0 j (unread, buf, held, s)"
    and fin: "(\<forall>k \<in> set ks. 0 < k) \<and> length (concat (map enc fs)) \<le> length ks \<longrightarrow> unread = []"
    using c by (simp_all add: c')
  have "s = fold handle fs s0 \<and> held = 0" if "unread = []"
    using conn_inv_done inv that by blast
  with d inv fin show ?thesis
    by (intro exI [of _ j] exI [of _ unread] exI [of _ buf] exI [of _ held] exI [of _ s])
       (auto simp: conn_inv_def)
qed

end

end
