(* ===== verification/Agent_Frame.thy ===== *)
theory Agent_Frame
  imports Framing Byte_Codec
begin

text \<open>
  The frame format the two agents exchange, in both directions: four bytes of length, most
  significant first, eight bytes of request identifier as the machine stores them, and the body.
  The lemmas say what \<open>four_char_to_int\<close> and \<open>bytes8_to_long\<close> read from a
  buffer that begins with (a part of) a frame.
\<close>

text \<open>A frame: length, identifier, body.\<close>

definition agent_frame :: "i64 \<Rightarrow> byte list \<Rightarrow> byte list" where
  "agent_frame req_id body = be32_bytes (word_of_int (int (length body))) @ le_bytes 8 req_id @ body"

lemma length_agent_frame [simp]: "length (agent_frame req_id body) = 12 + length body"
  by (simp add: agent_frame_def)

lemma load_take: "0 \<le> a \<Longrightarrow> a + n \<le> int k \<Longrightarrow> k \<le> length m \<Longrightarrow> load m a n = load (take k m) a n"
  by (auto simp: load_def drop_take min_def)

lemma load_frame:
  assumes "take k m = pre @ bs @ post" and "k \<le> length m"
  shows "load m (int (length pre)) (int (length bs)) = Some bs"
proof -
  have "k = length (pre @ bs @ post)" using assms by (metis length_take min.absorb2)
  then show ?thesis using assms(1) load_take [of "int (length pre)" "int (length bs)" k m] assms(2)
    by (simp add: load_def)
qed

lemma be32_header:
  assumes "load m p 4 = Some (be32_bytes x)"
  shows "four_char_to_int m p = Some x"
  using be32_nth_bytes [of x] by (simp add: four_char_to_int_load assms)

lemma le64_header:
  assumes "load m p 8 = Some (le_bytes 8 x)"
  shows "bytes8_to_long m p = Some x"
  by (simp add: bytes8_to_long_def assms le_val_le_bytes)

text \<open>The header of an agent frame, once it is complete.\<close>

lemma agent_header:
  assumes "take n m = take n (agent_frame req_id body)" and "12 \<le> n" and "n \<le> length m"
  shows "four_char_to_int m 0 = Some (word_of_int (int (length body)))"
    and "bytes8_to_long m 4 = Some req_id"
proof -
  let ?l = "be32_bytes (word_of_int (int (length body)))"
  have h: "take n m = ?l @ le_bytes 8 req_id @ take (n - 12) body"
    using assms(1,2) by (simp add: agent_frame_def take_Cons')
  show "four_char_to_int m 0 = Some (word_of_int (int (length body)))"
    using load_frame [of n m "[]" ?l] h assms(3) by (intro be32_header) simp
  show "bytes8_to_long m 4 = Some req_id"
    using load_frame [of n m ?l "le_bytes 8 req_id"] h assms(3) by (intro le64_header) simp
qed

text \<open>Moving the rest of the buffer down.\<close>

lemma memmove_front:
  assumes "n \<le> length m" and "l \<le> n"
  shows "\<exists>m'. memmove m 0 (int l) (int (n - l)) = Some m' \<and> length m' = length m \<and>
    take (n - l) m' = drop l (take n m)"
proof -
  have "load m (int l) (int (n - l)) = Some (drop l (take n m))"
    using assms by (simp add: load_def drop_take flip: of_nat_diff)
  then show ?thesis using assms by (simp add: memmove_def store_def)
qed

lemma agent_frame_length:
  assumes "take n buf = take n (agent_frame req_id body)" and "12 \<le> n" and "n \<le> length buf"
    and "length body < 2 ^ 31 - 12"
  shows "\<exists>w. four_char_to_int buf 0 = Some w \<and> sint w = int (length body)"
  using agent_header(1) [OF assms(1-3)] assms(4) by simp

lemma split_at: "k \<le> length xs \<Longrightarrow> \<exists>a b. xs = a @ b \<and> length a = k"
  by (metis append_take_drop_id length_take min.absorb2)

lemma store_append:
  "length bs = length old \<Longrightarrow>
   store (pre @ old @ post) (int (length pre)) bs = Some (pre @ bs @ post)"
  by (simp add: store_def)

end
