(* ===== verification/Balancer_Spec.thy ===== *)
theory Balancer_Spec
  imports Prelude
begin

text \<open>
  The contract between the consumer agent and its load balancer: every request selects an agent and
  adds one to its requests in flight, every response takes one off, and the number in flight of an
  agent is what was sent to it less what came back. The lemmas are about whole histories of
  selections and responses, in the order the load balancer's lock serialises them.
\<close>

datatype lb_event = Select i64 | Finish nat i64 i64 | Lost nat

fun run_lb ::
  "('b \<Rightarrow> i64 \<Rightarrow> ('b \<times> i64 \<times> int) option) \<Rightarrow> ('b \<Rightarrow> int \<Rightarrow> i64 \<Rightarrow> i64 \<Rightarrow> 'b option) \<Rightarrow>
   ('b \<Rightarrow> int \<Rightarrow> 'b option) \<Rightarrow> lb_event list \<Rightarrow> 'b \<Rightarrow> ('b \<times> nat list) option" where
  "run_lb sel fin lost [] b = Some (b, [])"
| "run_lb sel fin lost (Select now # evs) b = do {
     (b, ts, i) \<leftarrow> sel b now;
     (b, chs) \<leftarrow> run_lb sel fin lost evs b;
     Some (b, nat i # chs) }"
| "run_lb sel fin lost (Finish i ts now # evs) b = do {
     b \<leftarrow> fin b (int i) ts now; run_lb sel fin lost evs b }"
| "run_lb sel fin lost (Lost i # evs) b = do {
     b \<leftarrow> lost b (int i); run_lb sel fin lost evs b }"

fun returned :: "lb_event list \<Rightarrow> nat list" where
  "returned [] = []"
| "returned (Select _ # evs) = returned evs"
| "returned (Finish i _ _ # evs) = i # returned evs"
| "returned (Lost i # evs) = i # returned evs"

locale balancer =
  fixes sel :: "'b \<Rightarrow> i64 \<Rightarrow> ('b \<times> i64 \<times> int) option"
    and fin :: "'b \<Rightarrow> int \<Rightarrow> i64 \<Rightarrow> i64 \<Rightarrow> 'b option"
    and lost :: "'b \<Rightarrow> int \<Rightarrow> 'b option"
    and agents :: "'b \<Rightarrow> nat"
    and in_flight :: "'b \<Rightarrow> nat \<Rightarrow> int"
    and good :: "'b \<Rightarrow> bool"
  assumes sel_some: "good b \<Longrightarrow> \<forall>i < agents b. int_ok (in_flight b i + 1) \<Longrightarrow>
      \<exists>b' i. sel b now = Some (b', now, int i) \<and> i < agents b \<and> good b' \<and> agents b' = agents b \<and>
        (\<forall>j < agents b. in_flight b' j = in_flight b j + (if j = i then 1 else 0))"
    and fin_some: "good b \<Longrightarrow> i < agents b \<Longrightarrow> int_ok (in_flight b i - 1) \<Longrightarrow>
      \<exists>b'. fin b (int i) ts now = Some b' \<and> good b' \<and> agents b' = agents b \<and>
        (\<forall>j < agents b. in_flight b' j = in_flight b j - (if j = i then 1 else 0))"
    and lost_some: "good b \<Longrightarrow> i < agents b \<Longrightarrow> int_ok (in_flight b i - 1) \<Longrightarrow>
      \<exists>b'. lost b (int i) = Some b' \<and> good b' \<and> agents b' = agents b \<and>
        (\<forall>j < agents b. in_flight b' j = in_flight b j - (if j = i then 1 else 0))"
begin

lemma run_accounts:
  assumes "good b" and "\<forall>i \<in> set (returned evs). i < agents b"
    and "\<forall>i < agents b. \<bar>in_flight b i\<bar> + int (length evs) < 2 ^ 31"
  shows "\<exists>b' chs. run_lb sel fin lost evs b = Some (b', chs) \<and> good b' \<and> agents b' = agents b \<and>
    set chs \<subseteq> {..<agents b} \<and> length chs + length (returned evs) = length evs \<and>
    (\<forall>i < agents b. in_flight b' i =
       in_flight b i + int (count_list chs i) - int (count_list (returned evs) i))"
  using assms
proof (induction evs arbitrary: b)
  case Nil
  then show ?case by simp
next
  case (Cons e evs)
  have step: "\<exists>b1. (\<forall>j < agents b. in_flight b1 j = in_flight b j - (if j = i then 1 else 0)) \<and>
      good b1 \<and> agents b1 = agents b \<and> f = Some b1"
    if "i < agents b" and "int_ok (in_flight b i - 1) \<Longrightarrow> \<exists>b'. f = Some b' \<and> good b' \<and>
        agents b' = agents b \<and>
        (\<forall>j < agents b. in_flight b' j = in_flight b j - (if j = i then 1 else 0))" for i f
    using that Cons.prems(3) by (fastforce simp: int_ok_def)
  have resp: ?case
    if e: "run_lb sel fin lost (e # evs) b = Option.bind f (run_lb sel fin lost evs)"
      "returned (e # evs) = i # returned evs"
    and f: "int_ok (in_flight b i - 1) \<Longrightarrow> \<exists>b'. f = Some b' \<and> good b' \<and>
        agents b' = agents b \<and>
        (\<forall>j < agents b. in_flight b' j = in_flight b j - (if j = i then 1 else 0))" for i f
  proof -
    have i: "i < agents b" using Cons.prems(2) e(2) by simp
    obtain b1 where b1: "f = Some b1" "good b1" "agents b1 = agents b"
        "\<forall>j < agents b. in_flight b1 j = in_flight b j - (if j = i then 1 else 0)"
      using step [OF i f] by blast
    have "\<forall>j < agents b1. \<bar>in_flight b1 j\<bar> + int (length evs) < 2 ^ 31"
      using b1 Cons.prems(3) by fastforce
    then show ?thesis
      using Cons.IH [OF b1(2)] b1 Cons.prems(2) e by fastforce
  qed
  show ?case
  proof (cases e)
    case (Select now)
    obtain b1 i where b1: "sel b now = Some (b1, now, int i)" "i < agents b" "good b1"
        "agents b1 = agents b"
        "\<forall>j < agents b. in_flight b1 j = in_flight b j + (if j = i then 1 else 0)"
      using sel_some [OF Cons.prems(1), of now] Cons.prems(3) by (fastforce simp: int_ok_def)
    have "\<forall>j < agents b1. \<bar>in_flight b1 j\<bar> + int (length evs) < 2 ^ 31"
      using b1 Cons.prems(3) by fastforce
    then obtain b' chs where "run_lb sel fin lost evs b1 = Some (b', chs)" "good b'"
        "agents b' = agents b1" "set chs \<subseteq> {..<agents b1}"
        "length chs + length (returned evs) = length evs"
        "\<forall>i < agents b1. in_flight b' i =
           in_flight b1 i + int (count_list chs i) - int (count_list (returned evs) i)"
      using Cons.IH [OF b1(3)] b1(4) Cons.prems(2) Select by auto
    with b1 Select show ?thesis by (intro exI [of _ b'] exI [of _ "i # chs"]) auto
  next
    case (Finish i ts now)
    show ?thesis
      by (rule resp [of "fin b (int i) ts now" i])
         (use Finish fin_some [OF Cons.prems(1), of i ts now] Cons.prems(2) in simp_all)
  next
    case (Lost i)
    show ?thesis
      by (rule resp [of "lost b (int i)" i])
         (use Lost lost_some [OF Cons.prems(1), of i] Cons.prems(2) in simp_all)
  qed
qed

text \<open>
  When every response belongs to a request sent before it, the number in flight is never negative.
\<close>

lemma run_nonneg:
  assumes "run_lb sel fin lost evs b = Some (b', chs)" and "good b"
    and "\<forall>i < agents b. in_flight b i = 0" and "\<forall>i \<in> set (returned evs). i < agents b"
    and "int (length evs) < 2 ^ 31"
    and "\<forall>i. count_list (returned evs) i \<le> count_list chs i" and "i < agents b"
  shows "in_flight b' i = int (count_list chs i - count_list (returned evs) i)"
  using run_accounts [OF assms(2,4)] assms by (simp add: of_nat_diff)

end

end
