(* ===== verification/Load_Balancer.thy ===== *)
theory Load_Balancer
  imports Balancer_Spec Byte_Codec Ring_Queue_Spec
begin

text \<open>
  The load balancer of \<open>utils/loadBalancer.c\<close>: per provider agent the number of requests
  in flight and a ring of the last 64 response times with their running sum. A request goes to the
  cheapest agent; the sum decides once an agent has its share of direct sends, and an agent at its
  penalty limit is only chosen when all are. The wall clock is an argument (\<open>now\<close>), times
  and sums are 64-bit words as in the code, and \<open>history_diff_time_lst\<close> is the list of
  the agents initialised, at most 16.

  The lemmas give the choice \<open>select_endpoint_time_based\<close> makes, the window invariant of
  the ring and what a run of completions leaves in it, and the accounting of requests in flight the
  consumer agent relies on, as the contract \<open>balancer\<close>.
\<close>

definition HISTORY_WINDOW_SIZE :: nat where "HISTORY_WINDOW_SIZE = 64"

record history_diff_time =
  diff_time_sum :: i64
  ht_head :: nat
  ht_tail :: nat
  remain :: int
  diff_time_history :: "i64 list"

record load_balancer =
  num_of_ends :: int
  history_diff_time_lst :: "history_diff_time list"

definition direct_send_limit :: "int list" where "direct_send_limit = [8, 8, 8]"
definition penalty_send_limit :: "int list" where "penalty_send_limit = [140, 200, 200]"

definition init_history_time :: history_diff_time where
  "init_history_time =
     \<lparr>diff_time_sum = 50000 * of_nat HISTORY_WINDOW_SIZE, ht_head = 0,
      ht_tail = HISTORY_WINDOW_SIZE - 1, remain = 0,
      diff_time_history = replicate HISTORY_WINDOW_SIZE 50000\<rparr>"

definition init_load_balancer :: "int \<Rightarrow> load_balancer option" where
  "init_load_balancer n = do {
     guard (n \<le> 16);
     Some \<lparr>num_of_ends = n, history_diff_time_lst = replicate (nat n) init_history_time\<rparr> }"

definition INT64_MAX :: i64 where "INT64_MAX = 0x7FFFFFFFFFFFFFFF"

definition estimate_cost :: "load_balancer \<Rightarrow> int \<Rightarrow> i64 option" where
  "estimate_cost this index = do {
     history_diff_time \<leftarrow> rd (history_diff_time_lst this) index;
     penalty \<leftarrow> rd penalty_send_limit index;
     if penalty \<le> remain history_diff_time then Some INT64_MAX
     else do {
       direct \<leftarrow> rd direct_send_limit index;
       if remain history_diff_time < direct then Some 0
       else Some (diff_time_sum history_diff_time) } }"

text \<open>The loop from the index below \<open>i\<close> down to 0.\<close>

fun select_loop :: "load_balancer \<Rightarrow> nat \<Rightarrow> int \<Rightarrow> i64 \<Rightarrow> int option" where
  "select_loop this 0 min_idx min_val = Some min_idx"
| "select_loop this (Suc i) min_idx min_val = do {
     tmp \<leftarrow> estimate_cost this (int i);
     if sint tmp < sint min_val then select_loop this i (int i) tmp
     else select_loop this i min_idx min_val }"

definition add_remain :: "load_balancer \<Rightarrow> int \<Rightarrow> int \<Rightarrow> load_balancer option" where
  "add_remain this idx d = do {
     h \<leftarrow> rd (history_diff_time_lst this) idx;
     guard (int_ok (remain h + d));
     lst \<leftarrow> wr (history_diff_time_lst this) idx (h\<lparr>remain := remain h + d\<rparr>);
     Some (this\<lparr>history_diff_time_lst := lst\<rparr>) }"

text \<open>The chosen index, and the time stamp it leaves in the request (\<open>ts_req_beg\<close>).\<close>

definition select_endpoint_time_based ::
  "load_balancer \<Rightarrow> i64 \<Rightarrow> (load_balancer \<times> i64 \<times> int) option" where
  "select_endpoint_time_based this now = do {
     let min_idx = num_of_ends this - 1;
     let ts_req_beg = now;
     min_val \<leftarrow> estimate_cost this min_idx;
     min_idx \<leftarrow> select_loop this (nat (num_of_ends this - 1)) min_idx min_val;
     this \<leftarrow> add_remain this min_idx 1;
     Some (this, ts_req_beg, min_idx) }"

definition finish_history :: "history_diff_time \<Rightarrow> i64 \<Rightarrow> history_diff_time option" where
  "finish_history h new_diff_time = do {
     guard (int_ok (remain h - 1));
     let h = h\<lparr>remain := remain h - 1\<rparr>;
     oldest_diff \<leftarrow> rd (diff_time_history h) (int (ht_head h));
     let h = h\<lparr>ht_head := (ht_head h + 1) mod HISTORY_WINDOW_SIZE\<rparr>;
     let h = h\<lparr>diff_time_sum := diff_time_sum h - oldest_diff\<rparr>;
     let h = h\<lparr>ht_tail := (ht_tail h + 1) mod HISTORY_WINDOW_SIZE\<rparr>;
     hist \<leftarrow> wr (diff_time_history h) (int (ht_tail h)) new_diff_time;
     let h = h\<lparr>diff_time_history := hist\<rparr>;
     Some (h\<lparr>diff_time_sum := diff_time_sum h + new_diff_time\<rparr>) }"

definition finish_endpoint_task_time_based ::
  "load_balancer \<Rightarrow> int \<Rightarrow> i64 \<Rightarrow> i64 \<Rightarrow> load_balancer option" where
  "finish_endpoint_task_time_based this end_point_idx ts_req_beg now = do {
     h \<leftarrow> rd (history_diff_time_lst this) end_point_idx;
     h \<leftarrow> finish_history h (now - ts_req_beg);
     lst \<leftarrow> wr (history_diff_time_lst this) end_point_idx h;
     Some (this\<lparr>history_diff_time_lst := lst\<rparr>) }"

text \<open>
  What \<open>c_read_from_provide_agents\<close> does for a response whose request is not known:
  the agent has one request less in flight, and no time is recorded.
\<close>

definition lost_response :: "load_balancer \<Rightarrow> int \<Rightarrow> load_balancer option" where
  "lost_response this which = add_remain this which (- 1)"

section \<open>The window of response times\<close>

definition window :: "history_diff_time \<Rightarrow> i64 list" where
  "window h = ring_cells (diff_time_history h) (ht_head h) HISTORY_WINDOW_SIZE"

definition history_ok :: "history_diff_time \<Rightarrow> bool" where
  "history_ok h \<longleftrightarrow> length (diff_time_history h) = HISTORY_WINDOW_SIZE \<and>
     ht_head h < HISTORY_WINDOW_SIZE \<and>
     ht_head h = (ht_tail h + 1) mod HISTORY_WINDOW_SIZE \<and>
     diff_time_sum h = sum_list (window h)"

lemma ring_cells_whole: "ring_cells xs 0 (length xs) = xs"
  by (rule nth_equalityI) (simp_all add: ring_cells_def)

lemma ring_cells_rotate:
  assumes "h < length xs"
  shows "ring_cells (xs[h := x]) (Suc h mod length xs) (length xs) =
    tl (ring_cells xs h (length xs)) @ [x]"
proof -
  let ?n = "length xs"
  from assms obtain m where n: "?n = Suc m" by (cases ?n) auto
  have last: "(Suc h mod ?n + m) mod ?n = h"
  proof -
    have "(Suc h mod ?n + m) mod ?n = (h + ?n) mod ?n"
      by (simp add: mod_add_left_eq n)
    then show ?thesis using assms by simp
  qed
  have "ring_cells (xs[h := x]) (Suc h mod ?n) (Suc m) =
      ring_cells (xs[h := x]) (Suc h mod ?n) m @ [x]"
    using assms last by (simp add: ring_cells_Suc)
  moreover have "ring_cells (xs[h := x]) (Suc h mod ?n) m = ring_cells xs (Suc h mod ?n) m"
    using ring_cells_update [of "Suc h mod ?n" xs m x] last n by simp
  moreover have "tl (ring_cells xs h (Suc m)) = ring_cells xs (Suc h mod ?n) m"
    using ring_cells_hd [OF assms, of m] by simp
  ultimately show ?thesis by (simp add: n)
qed

lemma history_ok_init: "history_ok init_history_time"
  using ring_cells_whole [of "replicate HISTORY_WINDOW_SIZE (50000 :: i64)"]
  by (simp add: history_ok_def init_history_time_def window_def sum_list_replicate)
     (simp add: HISTORY_WINDOW_SIZE_def)

lemma window_init: "window init_history_time = replicate HISTORY_WINDOW_SIZE 50000"
  using ring_cells_whole [of "replicate HISTORY_WINDOW_SIZE (50000 :: i64)"]
  by (simp add: init_history_time_def window_def)

lemma hd_window: "history_ok h \<Longrightarrow> diff_time_history h ! ht_head h # tl (window h) = window h"
  using ring_cells_hd [of "ht_head h" "diff_time_history h" 63]
  by (simp add: history_ok_def window_def HISTORY_WINDOW_SIZE_def)

text \<open>A completion drops the oldest time, appends the new one and keeps the sum in step.\<close>

lemma finish_history_window:
  assumes "history_ok h" and "int_ok (remain h - 1)"
  shows "\<exists>h'. finish_history h t = Some h' \<and> history_ok h' \<and> remain h' = remain h - 1 \<and>
    window h' = tl (window h) @ [t]"
proof -
  let ?n = HISTORY_WINDOW_SIZE and ?xs = "diff_time_history h" and ?hd = "ht_head h"
  have len: "length ?xs = ?n" and hd: "?hd < ?n" "(ht_tail h + 1) mod ?n = ?hd"
    and sum: "diff_time_sum h = sum_list (window h)"
    using assms(1) by (auto simp: history_ok_def)
  define h' where "h' = h\<lparr>remain := remain h - 1, ht_head := (?hd + 1) mod ?n, ht_tail := ?hd,
    diff_time_history := ?xs[?hd := t], diff_time_sum := diff_time_sum h - ?xs ! ?hd + t\<rparr>"
  have f: "finish_history h t = Some h'"
    using len hd assms(2) by (simp add: finish_history_def rd_nth wr_list_update Let_def h'_def)
  have w: "window h' = tl (window h) @ [t]"
    using ring_cells_rotate [of ?hd ?xs t] len hd by (simp add: window_def h'_def)
  have "sum_list (window h) = ?xs ! ?hd + sum_list (tl (window h))"
    by (subst hd_window [OF assms(1), symmetric]) simp
  moreover have "diff_time_sum h' = diff_time_sum h - ?xs ! ?hd + t" by (simp add: h'_def)
  ultimately have "diff_time_sum h' = sum_list (window h')" by (simp add: w sum)
  then have "history_ok h'" using len hd by (simp add: history_ok_def h'_def)
  with f w show ?thesis by (simp add: h'_def)
qed

fun finish_all :: "history_diff_time \<Rightarrow> i64 list \<Rightarrow> history_diff_time option" where
  "finish_all h [] = Some h"
| "finish_all h (t # ts) = do { h \<leftarrow> finish_history h t; finish_all h ts }"

lemma length_window [simp]: "length (window h) = HISTORY_WINDOW_SIZE"
  by (simp add: window_def)

text \<open>After any number of completions the window holds the last 64 times.\<close>

lemma finish_all_window:
  assumes "history_ok h" and "remain h < 2 ^ 31" and "int (length ts) - 2 ^ 31 \<le> remain h"
  shows "\<exists>h'. finish_all h ts = Some h' \<and> history_ok h' \<and> remain h' = remain h - int (length ts) \<and>
    window h' = drop (length ts) (window h @ ts)"
  using assms
proof (induction ts arbitrary: h)
  case Nil
  then show ?case by simp
next
  case (Cons t ts)
  have "int_ok (remain h - 1)" using Cons.prems by (simp add: int_ok_def)
  then obtain h1 where h1: "finish_history h t = Some h1" "history_ok h1"
      "remain h1 = remain h - 1"
    and w1: "window h1 = tl (window h) @ [t]"
    using finish_history_window [OF Cons.prems(1), of t] by auto
  have "window h @ t # ts = (diff_time_history h ! ht_head h) # (window h1 @ ts)"
    by (subst hd_window [OF Cons.prems(1), symmetric]) (simp add: w1)
  then have "drop (length (t # ts)) (window h @ t # ts) = drop (length ts) (window h1 @ ts)"
    by (simp only: list.size drop_Suc_Cons add_Suc_right Nat.add_0_right)
  moreover have "\<exists>h'. finish_all h1 ts = Some h' \<and> history_ok h' \<and>
      remain h' = remain h1 - int (length ts) \<and> window h' = drop (length ts) (window h1 @ ts)"
    using Cons.IH [OF h1(2)] Cons.prems h1 by simp
  ultimately show ?case using h1 by auto
qed

section \<open>The choice\<close>

definition lb_ok :: "load_balancer \<Rightarrow> bool" where
  "lb_ok lb \<longleftrightarrow> num_of_ends lb = int (length (history_diff_time_lst lb)) \<and>
     0 < num_of_ends lb \<and> num_of_ends lb \<le> 3 \<and>
     (\<forall>h \<in> set (history_diff_time_lst lb). history_ok h)"

text \<open>The cost of the agent at an index, as a number.\<close>

definition cost :: "load_balancer \<Rightarrow> nat \<Rightarrow> int" where
  "cost lb i =
     (let h = history_diff_time_lst lb ! i
      in if penalty_send_limit ! i \<le> remain h then 2 ^ 63 - 1
         else if remain h < 8 then 0 else sint (diff_time_sum h))"

lemma estimate_cost_cost:
  assumes "i < length (history_diff_time_lst lb)" and "i < 3"
  shows "\<exists>c. estimate_cost lb (int i) = Some c \<and> sint c = cost lb i"
proof -
  have "direct_send_limit ! i = 8"
    using assms(2) by (auto simp: direct_send_limit_def less_Suc_eq numeral_eq_Suc)
  with assms show ?thesis
    by (simp add: estimate_cost_def rd_nth cost_def Let_def INT64_MAX_def direct_send_limit_def
        penalty_send_limit_def)
qed

lemma select_loop_min:
  assumes "n \<le> length (history_diff_time_lst lb)" and "n \<le> 3" and "sint v = cost lb k"
  shows "\<exists>r. select_loop lb n (int k) v = Some (int r) \<and> cost lb r \<le> cost lb k \<and>
    (\<forall>j < n. cost lb r \<le> cost lb j) \<and>
    (r = k \<or> r < n \<and> cost lb r < cost lb k \<and> (\<forall>j. r < j \<and> j < n \<longrightarrow> cost lb r < cost lb j))"
  using assms
proof (induction n arbitrary: k v)
  case 0
  then show ?case by auto
next
  case (Suc n)
  obtain c where c: "estimate_cost lb (int n) = Some c" "sint c = cost lb n"
    using estimate_cost_cost [of n lb] Suc.prems by auto
  have n: "n \<le> length (history_diff_time_lst lb)" "n \<le> 3" using Suc.prems by simp_all
  show ?case
  proof (cases "cost lb n < cost lb k")
    case True
    from Suc.IH [OF n c(2)] obtain r where "select_loop lb n (int n) c = Some (int r)"
      and "cost lb r \<le> cost lb n" and "\<forall>j<n. cost lb r \<le> cost lb j"
      and "r = n \<or> r < n \<and> cost lb r < cost lb n \<and>
        (\<forall>j. r < j \<and> j < n \<longrightarrow> cost lb r < cost lb j)" by blast
    with True c Suc.prems(3) show ?thesis by (auto simp: less_Suc_eq)
  next
    case False
    from Suc.IH [OF n Suc.prems(3)] obtain r where "select_loop lb n (int k) v = Some (int r)"
      and "cost lb r \<le> cost lb k" and "\<forall>j<n. cost lb r \<le> cost lb j"
      and "r = k \<or> r < n \<and> cost lb r < cost lb k \<and>
        (\<forall>j. r < j \<and> j < n \<longrightarrow> cost lb r < cost lb j)" by blast
    with False c Suc.prems(3) show ?thesis by (auto simp: less_Suc_eq)
  qed
qed

definition outstanding :: "load_balancer \<Rightarrow> nat \<Rightarrow> int" where
  "outstanding lb i = remain (history_diff_time_lst lb ! i)"

definition ends :: "load_balancer \<Rightarrow> nat" where
  "ends lb = length (history_diff_time_lst lb)"

text \<open>The cheapest agent, the one of the highest index among equals.\<close>

definition cheapest :: "load_balancer \<Rightarrow> nat \<Rightarrow> bool" where
  "cheapest lb i \<longleftrightarrow> i < ends lb \<and> (\<forall>j < ends lb. cost lb i \<le> cost lb j) \<and>
     (\<forall>j < ends lb. i < j \<longrightarrow> cost lb i < cost lb j)"

text \<open>Replacing the record of one agent.\<close>

definition set_history :: "load_balancer \<Rightarrow> nat \<Rightarrow> history_diff_time \<Rightarrow> load_balancer" where
  "set_history lb i h =
     lb\<lparr>history_diff_time_lst := (history_diff_time_lst lb)[i := h]\<rparr>"

lemma set_history_ok:
  "lb_ok lb \<Longrightarrow> history_ok h \<Longrightarrow> lb_ok (set_history lb i h)"
  using set_update_subset_insert [of "history_diff_time_lst lb" i h]
  by (auto simp: lb_ok_def set_history_def)

lemma ends_set_history [simp]: "ends (set_history lb i h) = ends lb"
  by (simp add: ends_def set_history_def)

lemma outstanding_set_history:
  "i < ends lb \<Longrightarrow>
   j < ends lb \<Longrightarrow> outstanding (set_history lb i h) j = (if j = i then remain h else outstanding lb j)"
  by (simp add: outstanding_def set_history_def ends_def)

lemma history_ok_remain [simp]: "history_ok (h\<lparr>remain := r\<rparr>) = history_ok h"
  by (simp add: history_ok_def window_def)

lemma lb_ok_history: "lb_ok lb \<Longrightarrow> i < ends lb \<Longrightarrow> history_ok (history_diff_time_lst lb ! i)"
  by (simp add: lb_ok_def ends_def)

lemma add_remain_set:
  assumes "i < ends lb" and "int_ok (outstanding lb i + d)"
  shows "add_remain lb (int i) d =
    Some (set_history lb i ((history_diff_time_lst lb ! i)\<lparr>remain := outstanding lb i + d\<rparr>))"
  using assms
  by (simp add: add_remain_def rd_nth ends_def outstanding_def set_history_def wr_list_update
      guard_bind)

lemma select_cheapest:
  assumes ok: "lb_ok lb"
  shows "\<exists>i. cheapest lb i \<and>
    (int_ok (outstanding lb i + 1) \<longrightarrow>
     select_endpoint_time_based lb now = Some
       (set_history lb i ((history_diff_time_lst lb ! i)\<lparr>remain := outstanding lb i + 1\<rparr>),
        now, int i))"
proof -
  define m where "m = ends lb - 1"
  have e: "num_of_ends lb = int (Suc m)" "ends lb = Suc m" "Suc m \<le> 3"
    using ok by (auto simp: lb_ok_def m_def ends_def)
  then have len: "length (history_diff_time_lst lb) = Suc m" by (simp add: ends_def)
  obtain c where c: "estimate_cost lb (int m) = Some c" "sint c = cost lb m"
    using estimate_cost_cost [of m lb] e len by auto
  obtain r where r: "select_loop lb m (int m) c = Some (int r)" "cost lb r \<le> cost lb m"
      "\<forall>j < m. cost lb r \<le> cost lb j"
      "r = m \<or> r < m \<and> cost lb r < cost lb m \<and> (\<forall>j. r < j \<and> j < m \<longrightarrow> cost lb r < cost lb j)"
    using select_loop_min [of m lb c m] c e len by auto
  have "cheapest lb r"
    using r(2-4) by (auto simp: cheapest_def e less_Suc_eq)
  moreover have "r < ends lb" using r(4) e by auto
  ultimately show ?thesis using c(1) r(1) e
    by (intro exI [of _ r])
       (simp add: select_endpoint_time_based_def add_remain_set)
qed

lemma finish_set:
  assumes "lb_ok lb" and "i < ends lb" and "int_ok (outstanding lb i - 1)"
  shows "\<exists>h'. finish_endpoint_task_time_based lb (int i) ts now = Some (set_history lb i h') \<and>
    history_ok h' \<and> remain h' = outstanding lb i - 1 \<and>
    window h' = tl (window (history_diff_time_lst lb ! i)) @ [now - ts]"
  using finish_history_window [OF lb_ok_history [OF assms(1,2)], of "now - ts"] assms
  by (auto simp: finish_endpoint_task_time_based_def rd_nth ends_def outstanding_def
      set_history_def wr_list_update)

interpretation lb: balancer select_endpoint_time_based finish_endpoint_task_time_based
  lost_response ends outstanding lb_ok
proof
  fix b now assume ok: "lb_ok b" and r: "\<forall>i < ends b. int_ok (outstanding b i + 1)"
  obtain i where "cheapest b i" and *: "int_ok (outstanding b i + 1) \<longrightarrow>
      select_endpoint_time_based b now = Some
       (set_history b i ((history_diff_time_lst b ! i)\<lparr>remain := outstanding b i + 1\<rparr>),
        now, int i)"
    using select_cheapest [OF ok] by blast
  then have "i < ends b" by (simp add: cheapest_def)
  with * r ok show "\<exists>b' i. select_endpoint_time_based b now = Some (b', now, int i) \<and> i < ends b \<and>
      lb_ok b' \<and> ends b' = ends b \<and>
      (\<forall>j < ends b. outstanding b' j = outstanding b j + (if j = i then 1 else 0))"
    by (auto simp: set_history_ok lb_ok_history outstanding_set_history)
next
  fix b i ts now assume "lb_ok b" "i < ends b" "int_ok (outstanding b i - 1)"
  with finish_set [OF this, of ts now]
  show "\<exists>b'. finish_endpoint_task_time_based b (int i) ts now = Some b' \<and> lb_ok b' \<and>
      ends b' = ends b \<and>
      (\<forall>j < ends b. outstanding b' j = outstanding b j - (if j = i then 1 else 0))"
    by (auto simp: set_history_ok outstanding_set_history)
next
  fix b i assume "lb_ok b" "i < ends b" "int_ok (outstanding b i - 1)"
  then show "\<exists>b'. lost_response b (int i) = Some b' \<and> lb_ok b' \<and> ends b' = ends b \<and>
      (\<forall>j < ends b. outstanding b' j = outstanding b j - (if j = i then 1 else 0))"
    using add_remain_set [of i b "-1"]
    by (simp add: lost_response_def set_history_ok lb_ok_history outstanding_set_history)
qed

lemma lb_ok_init:
  assumes "0 < n" and "n \<le> 3"
  shows "\<exists>lb. init_load_balancer n = Some lb \<and> lb_ok lb \<and> ends lb = nat n \<and>
    (\<forall>i < ends lb. outstanding lb i = 0)"
  using assms
  by (simp add: init_load_balancer_def lb_ok_def ends_def outstanding_def history_ok_init)
     (simp add: init_history_time_def)

text \<open>
  The sum decides only as long as it is the sum of the times: while every time in the window is
  below \<open>2 ^ 56\<close> microseconds, the 64-bit addition does not wrap.
\<close>

lemma sint_sum_list:
  assumes "\<forall>t \<in> set ts. 0 \<le> sint (t :: i64) \<and> sint t < 2 ^ 56" and "length ts \<le> 64"
  shows "sint (sum_list ts) = sum_list (map sint ts)"
proof -
  have u: "uint t = sint t" if "0 \<le> sint t" for t :: i64
    using that uint_lt2p [of t] by (auto simp: sint_i64 split: if_splits)
  have "uint (sum_list ts) = sum_list (map sint ts) \<and>
      sum_list (map sint ts) \<le> int (length ts) * 2 ^ 56" 
    using assms
  proof (induction ts)
    case (Cons t ts)
    then have IH: "uint (sum_list ts) = sum_list (map sint ts)"
        "sum_list (map sint ts) \<le> int (length ts) * 2 ^ 56"
      and t: "0 \<le> sint t" "sint t < 2 ^ 56" and l: "int (length ts) < 64" by simp_all
    have "uint t + uint (sum_list ts) < 2 ^ 64" using IH t l by (simp add: u)
    then have "uint (t + sum_list ts) = uint t + uint (sum_list ts)"
      by (simp add: uint_word_ariths)
    with IH t show ?case by (simp add: u algebra_simps)
  qed simp
  then show ?thesis using assms(2) by (simp add: sint_i64)
qed

text \<open>The tables of limits have three entries: with another number of agents the code reads
  outside them.\<close>

lemma select_more_than_three:
  assumes "3 < num_of_ends lb"
  shows "select_endpoint_time_based lb now = None"
  using assms
  by (auto simp: select_endpoint_time_based_def estimate_cost_def rd_def penalty_send_limit_def
      Let_def)

section \<open>Properties\<close>

lemma lb_ok_four: "lb_ok lb \<Longrightarrow> num_of_ends lb = int (ends lb) \<and> 0 < ends lb \<and> ends lb \<le> 3"
  by (auto simp: lb_ok_def ends_def)

text \<open>C19. With one to three provider agents \<open>select_endpoint_time_based\<close> returns the
  cheapest one, the one of the highest index among equals, stamps the request with the current
  time, and changes nothing but that agent's number of requests in flight, which grows by one.
  An agent whose penalty limit is reached is only chosen when no agent is cheaper.\<close>

theorem select_endpoint_chooses:
  assumes "lb_ok lb" and "\<forall>i < ends lb. outstanding lb i < 2 ^ 31 - 1"
    and "\<forall>i < ends lb. - (2 ^ 31) \<le> outstanding lb i"
  shows "\<exists>i lb'. select_endpoint_time_based lb now = Some (lb', now, int i) \<and> cheapest lb i \<and>
    lb' = set_history lb i ((history_diff_time_lst lb ! i)\<lparr>remain := outstanding lb i + 1\<rparr>) \<and>
    (penalty_send_limit ! i \<le> outstanding lb i \<longrightarrow>
      (\<forall>j < ends lb. cost lb j = 2 ^ 63 - 1))"
proof -
  obtain i where i: "cheapest lb i" and sel: "int_ok (outstanding lb i + 1) \<longrightarrow>
      select_endpoint_time_based lb now = Some
       (set_history lb i ((history_diff_time_lst lb ! i)\<lparr>remain := outstanding lb i + 1\<rparr>),
        now, int i)"
    using select_cheapest [OF assms(1)] by blast
  then have lt: "i < ends lb" by (simp add: cheapest_def)
  have "cost lb j \<le> 2 ^ 63 - 1" for j
    using sint_less [of "diff_time_sum (history_diff_time_lst lb ! j)"]
    by (simp add: cost_def Let_def)
  then have "cost lb j = 2 ^ 63 - 1" if "penalty_send_limit ! i \<le> outstanding lb i" "j < ends lb" for j
    using i that by (simp add: cheapest_def cost_def outstanding_def Let_def order_antisym)
  with i sel lt assms(2,3) show ?thesis by (fastforce simp: int_ok_def)
qed

definition lb_example :: load_balancer where
  "lb_example = \<lparr>num_of_ends = 2, history_diff_time_lst =
     [init_history_time\<lparr>remain := 9\<rparr>, init_history_time\<lparr>remain := 200\<rparr>]\<rparr>"

lemma lb_example_ok: "lb_ok lb_example"
  by (simp add: lb_ok_def lb_example_def history_ok_init)

lemma lb_example_outstanding:
  "ends lb_example = 2" "outstanding lb_example 0 = 9" "outstanding lb_example (Suc 0) = 200"
  by (simp_all add: ends_def lb_example_def outstanding_def)

theorem select_endpoint_chooses_witness:
  "\<exists>i lb'. select_endpoint_time_based lb_example 17 = Some (lb', 17, int i) \<and> cheapest lb_example i"
  using select_endpoint_chooses [OF lb_example_ok, of 17]
  by (auto simp: lb_example_outstanding less_Suc_eq numeral_2_eq_2)

text \<open>C20. After any number of completions the ring of an agent holds, oldest first, the last 64
  response times (the initial 50000 counting as times), and the running sum is their sum.\<close>

theorem window_last_64:
  assumes "history_ok h" and "remain h < 2 ^ 31" and "int (length ts) - 2 ^ 31 \<le> remain h"
  shows "\<exists>h'. finish_all h ts = Some h' \<and> remain h' = remain h - int (length ts) \<and>
    window h' = drop (length ts) (window h @ ts) \<and>
    diff_time_sum h' = sum_list (drop (length ts) (window h @ ts))"
  using finish_all_window [OF assms] by (auto simp: history_ok_def)

theorem window_last_64_witness:
  "\<exists>h'. finish_all init_history_time [5, 6] = Some h' \<and> remain h' = - 2 \<and>
    window h' = replicate 62 50000 @ [5, 6] \<and>
    diff_time_sum h' = sum_list (replicate 62 50000 @ [5, 6])"
proof -
  have r: "remain init_history_time = 0" by (simp add: init_history_time_def)
  have d: "drop (length [5, 6]) (window init_history_time @ [5, 6]) = replicate 62 50000 @ [5, 6]"
    by (simp add: window_init HISTORY_WINDOW_SIZE_def del: drop_append)
       (simp add: drop_append)
  show ?thesis
    using window_last_64 [OF history_ok_init, of "[5, 6]"] unfolding d by (simp add: r)
qed

text \<open>While the times are non-negative and below \<open>2 ^ 56\<close> microseconds the 64-bit sum
  the choice compares is the true sum of the times in the window.\<close>

theorem sum_does_not_wrap:
  assumes "history_ok h" and "\<forall>t \<in> set (window h). 0 \<le> sint t \<and> sint t < 2 ^ 56"
  shows "sint (diff_time_sum h) = sum_list (map sint (window h))"
  using sint_sum_list [OF assms(2)] assms(1)
  by (simp add: history_ok_def HISTORY_WINDOW_SIZE_def)

theorem sum_does_not_wrap_witness:
  "sint (diff_time_sum init_history_time) = sum_list (map sint (window init_history_time))"
  by (rule sum_does_not_wrap [OF history_ok_init]) (simp add: window_init HISTORY_WINDOW_SIZE_def)

text \<open>The requests in flight: started with no request, after any history of selections and
  responses in which each response belongs to a request sent before, the balancer's count for each
  agent is the number of requests sent to it less the responses that came back.\<close>

theorem outstanding_accounts:
  assumes "init_load_balancer n = Some lb" and "0 < n" and "n \<le> 3"
    and "\<forall>i \<in> set (returned evs). int i < n" and "int (length evs) < 2 ^ 31"
  shows "\<exists>lb' chosen. run_lb select_endpoint_time_based finish_endpoint_task_time_based
      lost_response evs lb = Some (lb', chosen) \<and> set chosen \<subseteq> {..<nat n} \<and>
    length chosen + length (returned evs) = length evs \<and>
    (\<forall>i < nat n. outstanding lb' i =
      int (count_list chosen i) - int (count_list (returned evs) i))"
proof -
  have ok: "lb_ok lb" "ends lb = nat n" "\<forall>i < ends lb. outstanding lb i = 0"
    using lb_ok_init [OF assms(2,3)] assms(1) by auto
  have "\<forall>i \<in> set (returned evs). i < ends lb" using assms(4) ok(2) by auto
  moreover have "\<forall>i < ends lb. \<bar>outstanding lb i\<bar> + int (length evs) < 2 ^ 31"
    using ok(3) assms(5) by simp
  ultimately show ?thesis using lb.run_accounts [OF ok(1), of evs] ok by auto
qed

theorem outstanding_accounts_witness:
  "\<exists>lb lb' chosen. init_load_balancer 2 = Some lb \<and>
    run_lb select_endpoint_time_based finish_endpoint_task_time_based
      lost_response [Select 3, Finish 1 3 8, Select 9, Lost 1] lb = Some (lb', chosen) \<and>
    length chosen = 2 \<and> outstanding lb' 1 = int (count_list chosen 1) - 2"
proof -
  obtain lb where lb: "init_load_balancer 2 = Some lb" using lb_ok_init [of 2] by auto
  obtain lb' chosen where "run_lb select_endpoint_time_based finish_endpoint_task_time_based
      lost_response [Select 3, Finish 1 3 8, Select 9, Lost 1] lb = Some (lb', chosen)"
    and "length chosen = 2" and "outstanding lb' 1 = int (count_list chosen 1) - 2"
    using outstanding_accounts [OF lb, of "[Select 3, Finish 1 3 8, Select 9, Lost 1]"]
    by (auto simp del: run_lb.simps)
  with lb show ?thesis by blast
qed

text \<open>C40. The tables of limits have three entries: with more than three provider agents, which the
  consumer agent accepts, selecting one reads outside them.\<close>

theorem more_than_three_agents:
  assumes "init_load_balancer n = Some lb" and "3 < n"
  shows "select_endpoint_time_based lb now = None"
proof -
  from assms(1) have "num_of_ends lb = n" by (auto simp: init_load_balancer_def bind_Some_iff)
  with assms(2) show ?thesis by (intro select_more_than_three) simp
qed

theorem more_than_three_agents_witness:
  "\<exists>lb. init_load_balancer 4 = Some lb \<and> select_endpoint_time_based lb 0 = None"
proof -
  have "init_load_balancer 4 \<noteq> None" by (simp add: init_load_balancer_def)
  then obtain lb where lb: "init_load_balancer 4 = Some lb" by auto
  with more_than_three_agents [OF lb] show ?thesis by simp
qed

end
