(* ===== verification/Consumer_State.thy ===== *)
theory Consumer_State
  imports Agent_Frame Load_Balancer C_Str
begin

text \<open>
  The state of one event loop of the consumer agent (\<open>consumer_agent.h\<close>,
  \<open>consumer_agent.c\<close>) and the operations that set it up. The \<open>http_req_t\<close>s
  are in a heap, because \<open>http_req_dict\<close> keeps pointers to them that the close callback
  does not clear: a pointer is a number, an address that is not in the heap was freed. The load
  balancer and the number of connections are shared by the loops and locked; each access is one
  critical section. \<open>times\<close> is what the next calls of \<open>gettimeofday\<close> give, and
  \<open>sent\<close> what was handed to libuv to write, with the request that asked for it.
  \<open>ignored\<close> are the connections over the limit: open, read, and without a request;
  \<open>abandoned\<close> are the handles closed without a callback, whose blocks nothing frees. Handles of
  libuv have an address only. Fields a constructor does not set have the value of the fresh block.
\<close>

definition DEFAULT_PACKAGE_SIZE :: nat where "DEFAULT_PACKAGE_SIZE = 4096"
definition DEFAULT_RESPONSE_SIZE :: nat where "DEFAULT_RESPONSE_SIZE = 4096"
definition MAXIMUM_CONN_WARMUP_COUNT :: int where "MAXIMUM_CONN_WARMUP_COUNT = 256"
definition MAXIMUM_CONN_COUNT :: int where "MAXIMUM_CONN_COUNT = 1024"
definition MAXIMUM_ENDPOINT_SERVERS :: int where "MAXIMUM_ENDPOINT_SERVERS = 16"
definition HASH_SLOT_NUM :: nat where "HASH_SLOT_NUM = 8192"
definition EVENT_LOOP_NUM :: nat where "EVENT_LOOP_NUM = 2"

type_synonym ptr = nat

record http_req =
  client :: "ptr option"
  raw_array :: "byte list"
  raw_array_size :: int
  raw_array_max_size :: int
  request_length :: int
  content_length :: int
  http_req_id :: i64
  response_package :: "byte list"
  ts_req_beg :: i64

record endpoint_server =
  which :: nat
  ep_raw_array :: "byte list"
  size_of_raw_array :: int
  raw_array_max_length :: int
  tcp_stream :: "ptr option"
  conn :: "ptr option"
  conn_status :: int

record tcp_server =
  endpoint_connection_count :: int
  req_id :: i64
  endpoint_servers :: "endpoint_server list"
  http_req_dict :: "ptr option list"

datatype c_out = To_Agent nat ptr "byte list" | To_Client ptr ptr "byte list"

record consumer =
  event_loop :: tcp_server
  reqs :: "ptr \<Rightarrow> http_req option"
  global_lb :: load_balancer
  global_conn_remain_count :: int
  times :: "nat \<Rightarrow> (int \<times> int) option"
  sent :: "c_out list"
  closing :: "ptr list"
  ignored :: "ptr list"
  abandoned :: "ptr list"

section \<open>Construction\<close>

definition init_http_req_t :: "http_req \<Rightarrow> byte list \<Rightarrow> byte list \<Rightarrow> nat \<Rightarrow> http_req option" where
  "init_http_req_t fresh fresh_raw fresh_package n = do {
     guard (length fresh_raw = n \<and> length fresh_package = DEFAULT_PACKAGE_SIZE);
     let req = fresh\<lparr>client := None\<rparr>;
     let req = req\<lparr>raw_array := fresh_raw\<rparr>;
     let req = req\<lparr>raw_array_size := 0\<rparr>;
     let req = req\<lparr>raw_array_max_size := int n\<rparr>;
     let req = req\<lparr>request_length := - 1\<rparr>;
     let req = req\<lparr>http_req_id := - 1\<rparr>;
     Some (req\<lparr>response_package := fresh_package\<rparr>) }"

definition init_tcp_server_t :: "tcp_server \<Rightarrow> nat \<Rightarrow> tcp_server" where
  "init_tcp_server_t fresh tid =
     fresh\<lparr>req_id := of_nat tid, http_req_dict := replicate HASH_SLOT_NUM None\<rparr>"

text \<open>The endpoint servers \<open>start_work_event_loop\<close> makes; the array has 16 slots.\<close>

definition init_endpoint_server :: "byte list \<Rightarrow> nat \<Rightarrow> endpoint_server" where
  "init_endpoint_server fresh_raw i =
     \<lparr>which = i, ep_raw_array = fresh_raw, size_of_raw_array = 0,
      raw_array_max_length = int DEFAULT_RESPONSE_SIZE, tcp_stream = None, conn = None,
      conn_status = - 1\<rparr>"

definition init_endpoint_servers :: "(nat \<Rightarrow> byte list) \<Rightarrow> int \<Rightarrow> tcp_server \<Rightarrow> tcp_server option" where
  "init_endpoint_servers fresh num_endpoint_servers tcp_server = do {
     guard (num_endpoint_servers \<le> MAXIMUM_ENDPOINT_SERVERS);
     Some (tcp_server\<lparr>
       endpoint_servers := map (\<lambda>i. init_endpoint_server (fresh i) i) [0..<nat num_endpoint_servers],
       endpoint_connection_count := 0\<rparr>) }"

section \<open>Time\<close>

text \<open>\<open>gettimeofday\<close> gives seconds and microseconds, or fails.\<close>

definition get_wall_time :: "(int \<times> int) option \<Rightarrow> i64" where
  "get_wall_time t = (case t of None \<Rightarrow> 0 | Some (sec, usec) \<Rightarrow> word_of_int (sec * 1000000 + usec))"

definition wall_time :: "consumer \<Rightarrow> i64 \<times> consumer" where
  "wall_time st = (get_wall_time (times st 0), st\<lparr>times := (\<lambda>n. times st (Suc n))\<rparr>)"

section \<open>Buffers for libuv\<close>

text \<open>The alloc callbacks: where in the block libuv may write, and how much.\<close>

definition alloc_buffer :: "http_req \<Rightarrow> int \<times> int" where
  "alloc_buffer http_req =
     (raw_array_size http_req, to_size (raw_array_max_size http_req - raw_array_size http_req))"

definition alloc_buffer_to_agent :: "endpoint_server \<Rightarrow> int \<times> int" where
  "alloc_buffer_to_agent endpoint_server =
     (size_of_raw_array endpoint_server,
      to_size (raw_array_max_length endpoint_server - size_of_raw_array endpoint_server))"

section \<open>Freeing a request\<close>

definition set_req :: "ptr \<Rightarrow> http_req \<Rightarrow> consumer \<Rightarrow> consumer" where
  "set_req p h st = st\<lparr>reqs := (reqs st)(p \<mapsto> h)\<rparr>"

text \<open>Freeing what is no longer there is undefined.\<close>

definition free_http_req :: "ptr \<Rightarrow> consumer \<Rightarrow> consumer option" where
  "free_http_req http_req st = do {
     _ \<leftarrow> reqs st http_req;
     Some (st\<lparr>reqs := (reqs st)(http_req := None)\<rparr>) }"

text \<open>The close callback libuv runs for a closed connection.\<close>

definition close_cb :: "ptr \<Rightarrow> consumer \<Rightarrow> consumer option" where
  "close_cb http_req st = do {
     guard (http_req \<in> set (closing st));
     st \<leftarrow> free_http_req http_req st;
     Some (st\<lparr>closing := removeAll http_req (closing st)\<rparr>) }"

lemma reqs_set_req [simp]: "reqs (set_req p h st) = (reqs st)(p \<mapsto> h)"
  by (simp add: set_req_def)

lemma set_req_fields [simp]:
  "event_loop (set_req p h st) = event_loop st" "global_lb (set_req p h st) = global_lb st"
  "global_conn_remain_count (set_req p h st) = global_conn_remain_count st"
  "times (set_req p h st) = times st" "sent (set_req p h st) = sent st"
  "closing (set_req p h st) = closing st" "ignored (set_req p h st) = ignored st"
  "abandoned (set_req p h st) = abandoned st"
  by (simp_all add: set_req_def)

lemma wall_time_fields:
  "wall_time st = (now, st') \<Longrightarrow> event_loop st' = event_loop st \<and> reqs st' = reqs st \<and> global_lb st' = global_lb st \<and>
   global_conn_remain_count st' = global_conn_remain_count st \<and> sent st' = sent st \<and> closing st' = closing st \<and>
   ignored st' = ignored st \<and> abandoned st' = abandoned st"
  by (auto simp: wall_time_def)

end
