(* ===== verification/Consumer_Requests.thy ===== *)
theory Consumer_Requests
  imports Consumer_State
begin

text \<open>
  The requests of the consumer: accepting its connections (\<open>on_new_connection\<close>), reading an
  HTTP request and handing its body to a provider agent (\<open>c_read_connection_data\<close>,
  \<open>send_to_provider_agent\<close>), and closing. The HTTP parser is a parameter
  (\<open>phr_parse_request\<close> of picohttpparser): of the bytes read so far it gives the length of
  the header or a negative number, and where the values of the headers are. libuv writes at once.

  The lemmas follow one request from the first byte of its header to the frame that is sent.
\<close>

definition send_to_provider_agent :: "int \<Rightarrow> ptr \<Rightarrow> byte list \<Rightarrow> consumer \<Rightarrow> consumer option" where
  "send_to_provider_agent which_endpoint p send_buffer st = do {
     http_req \<leftarrow> reqs st p;
     let tcp_server = event_loop st;
     endpoint_server \<leftarrow> rd (endpoint_servers tcp_server) which_endpoint;
     _ \<leftarrow> tcp_stream endpoint_server;
     dict \<leftarrow> wr (http_req_dict tcp_server)
       (c_mod (sint (http_req_id http_req)) (int HASH_SLOT_NUM)) (Some p);
     Some (st\<lparr>event_loop := tcp_server\<lparr>http_req_dict := dict\<rparr>,
       sent := sent st @ [To_Agent (nat which_endpoint) p send_buffer]\<rparr>) }"

text \<open>The second part of \<open>c_read_connection_data\<close>, for a request that is complete.\<close>

definition forward_request :: "ptr \<Rightarrow> http_req \<Rightarrow> int \<Rightarrow> consumer \<Rightarrow> consumer option" where
  "forward_request p http_req content st = do {
     let (now, st) = wall_time st;
     (lb, ts, which_endpoint) \<leftarrow> select_endpoint_time_based (global_lb st) now;
     let http_req = http_req\<lparr>ts_req_beg := ts\<rparr>;
     let st = st\<lparr>global_lb := lb\<rparr>;
     let http_req = http_req\<lparr>http_req_id := req_id (event_loop st)\<rparr>;
     let st = st\<lparr>event_loop := (event_loop st)\<lparr>req_id := req_id (event_loop st) + of_nat EVENT_LOOP_NUM\<rparr>\<rparr>;
     let start = request_length http_req - 12;
     raw \<leftarrow> int_to_four_char (word_of_int content) (raw_array http_req) start;
     raw \<leftarrow> long_to_8bytes (http_req_id http_req) raw (start + 4);
     let http_req = http_req\<lparr>raw_array := raw\<rparr>;
     guard (int_ok (12 + content));
     send_buffer \<leftarrow> load (raw_array http_req) start (12 + content);
     st \<leftarrow> send_to_provider_agent which_endpoint p send_buffer (set_req p http_req st);
     let http_req = http_req\<lparr>raw_array_size := 0\<rparr>;
     let http_req = http_req\<lparr>request_length := - 1\<rparr>;
     Some (set_req p http_req st) }"

text \<open>
  The array of parsed headers is a local variable: when the header was complete in an earlier read,
  it holds nothing (the parser does not run again).
\<close>

definition c_read_connection_data ::
  "(byte list \<Rightarrow> int \<times> int list) \<Rightarrow> ptr \<Rightarrow> int \<Rightarrow> consumer \<Rightarrow> consumer option" where
  "c_read_connection_data phr_parse_request p nread st = do {
     http_req \<leftarrow> reqs st p;
     if 0 < nread then do {
       let http_req = http_req\<lparr>raw_array_size := to_size (raw_array_size http_req + nread)\<rparr>;
       buf \<leftarrow> load (raw_array http_req) 0 (raw_array_size http_req);
       let (len, headers) =
         (if request_length http_req < 0 then phr_parse_request buf else (request_length http_req, []));
       let http_req = http_req\<lparr>request_length := len\<rparr>;
       if request_length http_req < 0 then Some (set_req p http_req st)
       else do {
         value \<leftarrow> rd headers 0;
         content \<leftarrow> atoi_at (raw_array http_req) value;
         let http_req = http_req\<lparr>content_length := content\<rparr>;
         guard (int_ok (content + request_length http_req));
         if raw_array_size http_req < to_size (content + request_length http_req)
         then Some (set_req p http_req st)
         else forward_request p http_req content st } }
     else if nread < 0 then do {
       guard (p \<notin> set (closing st));
       let st = st\<lparr>closing := p # closing st\<rparr>;
       guard (int_ok (global_conn_remain_count st - 1));
       Some (st\<lparr>global_conn_remain_count := global_conn_remain_count st - 1\<rparr>) }
     else Some st }"

text \<open>One read of libuv: it asks for room, puts the bytes there and calls the callback.\<close>

definition read_chunk ::
  "(byte list \<Rightarrow> int \<times> int list) \<Rightarrow> ptr \<Rightarrow> byte list \<Rightarrow> consumer \<Rightarrow> consumer option" where
  "read_chunk phr_parse_request p bs st = do {
     http_req \<leftarrow> reqs st p;
     let (base, len) = alloc_buffer http_req;
     guard (bs \<noteq> [] \<and> int (length bs) \<le> len);
     raw \<leftarrow> store (raw_array http_req) base bs;
     c_read_connection_data phr_parse_request p (int (length bs))
       (set_req p (http_req\<lparr>raw_array := raw\<rparr>) st) }"

text \<open>
  A connection beyond the limit is accepted and stays open; what it sends is thrown away. A connection
  that cannot be accepted is closed without a callback.
\<close>

datatype connection = Served | Ignored | Refused | Failed

definition on_new_connection ::
  "i64 \<Rightarrow> int \<Rightarrow> bool \<Rightarrow> ptr \<Rightarrow> ptr \<Rightarrow> http_req \<Rightarrow> byte list \<Rightarrow> byte list \<Rightarrow> consumer \<Rightarrow>
   (connection \<times> consumer) option" where
  "on_new_connection start_time status accepted p conn_client fresh fresh_raw fresh_package st =
     (if status \<noteq> 0 then Some (Failed, st)
      else do {
        let (cur_time, st) = wall_time st;
        let conn_limit =
          (if 30000000 < sint (cur_time - start_time) then MAXIMUM_CONN_COUNT else MAXIMUM_CONN_WARMUP_COUNT);
        if accepted then do {
          let tmp = global_conn_remain_count st;
          let st = (if tmp < conn_limit then st\<lparr>global_conn_remain_count := tmp + 1\<rparr> else st);
          if tmp < conn_limit then do {
            req \<leftarrow> init_http_req_t fresh fresh_raw fresh_package (DEFAULT_PACKAGE_SIZE * 2);
            let req = req\<lparr>client := Some conn_client\<rparr>;
            Some (Served, set_req p req st) }
          else Some (Ignored, st\<lparr>ignored := conn_client # ignored st\<rparr>) }
        else Some (Refused, st\<lparr>abandoned := conn_client # abandoned st\<rparr>) })"

text \<open>What a connection over the limit sends, or its end; the block that was read into is freed.\<close>

definition c_dummy_read_connection_data :: "ptr \<Rightarrow> int \<Rightarrow> consumer \<Rightarrow> consumer" where
  "c_dummy_read_connection_data conn_client nread st =
     (if nread < 0
      then st\<lparr>ignored := remove1 conn_client (ignored st), abandoned := conn_client # abandoned st\<rparr>
      else st)"

section \<open>One request\<close>

text \<open>
  What the parser is relied on for, on a request of a header and a body: a part of the header is no
  request yet, the header with any part of the body is one, of the header's length, and its first
  field is the length of the body in decimal.
\<close>

definition parses :: "(byte list \<Rightarrow> int \<times> int list) \<Rightarrow> byte list \<Rightarrow> byte list \<Rightarrow> bool" where
  "parses phr_parse_request head body \<longleftrightarrow> 12 \<le> length head \<and>
     (\<forall>n < length head. fst (phr_parse_request (take n head)) < 0) \<and>
     (\<exists>pre c post vs. head = pre @ dec_nat (length body) @ c # post \<and> \<not> is_digit c \<and>
       (\<forall>n. phr_parse_request (head @ take n body) = (int (length head), int (length pre) # vs)))"

text \<open>The connection has received the first \<open>n\<close> bytes of a request.\<close>

definition receiving :: "http_req \<Rightarrow> byte list \<Rightarrow> nat \<Rightarrow> bool" where
  "receiving h request n \<longleftrightarrow> raw_array_size h = int n \<and> take n (raw_array h) = take n request \<and> n \<le> 8192 \<and>
     length (raw_array h) = 8192 \<and> raw_array_max_size h = 8192 \<and> request_length h < 0"

lemma receive_bytes:
  assumes "receiving h request n" and "n + length bs \<le> 8192" and "take (length bs) (drop n request) = bs"
  obtains raw room where "store (raw_array h) (int n) bs = Some raw" "length raw = 8192"
    "take (n + length bs) raw = take (n + length bs) request"
    "alloc_buffer h = (int n, room)" "int (length bs) \<le> room"
proof -
  have h: "raw_array_size h = int n" "take n (raw_array h) = take n request" "length (raw_array h) = 8192"
    "raw_array_max_size h = 8192" using assms(1) by (simp_all add: receiving_def)
  then obtain raw where raw: "store (raw_array h) (int n) bs = Some raw"
    using assms(2) by (simp add: store_Some)
  have "take (n + length bs) raw = take n (raw_array h) @ bs"
    using raw h(1,3,4) assms(2) by (auto simp: store_def split: if_splits)
  also have "\<dots> = take (n + length bs) request" using assms(3) h(2) by (metis take_add)
  finally show thesis
    using that [OF raw] length_store [OF raw] h assms(2) by (simp add: alloc_buffer_def)
qed

text \<open>A read that does not complete the header.\<close>

lemma read_chunk_head:
  assumes p: "parses phr head body" and h: "reqs st p = Some h" "receiving h (head @ body) n"
    and bs: "bs \<noteq> []" "n + length bs < length head" "take (length bs) (drop n (head @ body)) = bs"
    and fits: "length head \<le> 8192"
  shows "\<exists>h'. read_chunk phr p bs st = Some (set_req p h' st) \<and> receiving h' (head @ body) (n + length bs) \<and>
    client h' = client h \<and> response_package h' = response_package h"
proof -
  have le: "n + length bs \<le> 8192" using bs(2) fits by simp
  obtain raw room where raw: "store (raw_array h) (int n) bs = Some raw" "length raw = 8192"
    "take (n + length bs) raw = take (n + length bs) (head @ body)"
    "alloc_buffer h = (int n, room)" "int (length bs) \<le> room"
    by (rule receive_bytes [OF h(2) le bs(3)])
  let ?n = "n + length bs"
  have r: "request_length h < 0" "raw_array_size h = int n" using h(2) by (simp_all add: receiving_def)
  have sz: "to_size (int n + int (length bs)) = int ?n" using le by simp
  have ld: "load raw 0 (int ?n) = Some (take ?n head)" using raw(2,3) le bs(2) by (simp add: load_def del: of_nat_add)
  obtain l hs where parse: "phr (take ?n head) = (l, hs)" by (cases "phr (take ?n head)")
  have l: "l < 0" using p bs(2) parse unfolding parses_def by (metis fst_conv)
  let ?h = "h\<lparr>raw_array := raw, raw_array_size := int ?n, request_length := l\<rparr>"
  have "read_chunk phr p bs st = Some (set_req p ?h st)"
    using h(1) bs(1) raw(1,4,5) r sz ld parse l
    by (simp add: read_chunk_def c_read_connection_data_def set_req_def Let_def)
  moreover have "receiving ?h (head @ body) ?n"
    using h(2) raw(2,3) l le by (simp add: receiving_def)
  ultimately show ?thesis by (intro exI [of _ ?h]) simp
qed

text \<open>The endpoints can be written to, and the array of requests has its slots.\<close>

definition loop_ok :: "consumer \<Rightarrow> bool" where
  "loop_ok st \<longleftrightarrow> length (http_req_dict (event_loop st)) = HASH_SLOT_NUM \<and>
     ends (global_lb st) = length (endpoint_servers (event_loop st)) \<and>
     (\<forall>e \<in> set (endpoint_servers (event_loop st)). tcp_stream e \<noteq> None)"

definition slot :: "i64 \<Rightarrow> nat" where
  "slot r = nat (sint r mod int HASH_SLOT_NUM)"

lemma slot_less: "slot r < HASH_SLOT_NUM"
  by (simp add: slot_def HASH_SLOT_NUM_def nat_less_iff)

lemma dict_index: "0 \<le> sint r \<Longrightarrow> c_mod (sint r) (int HASH_SLOT_NUM) = int (slot r)"
  by (simp add: slot_def HASH_SLOT_NUM_def)

text \<open>The read that completes header and body: the frame goes to the agent the balancer chooses.\<close>

definition request_sent :: "ptr \<Rightarrow> byte list \<Rightarrow> consumer \<Rightarrow> consumer \<Rightarrow> bool" where
  "request_sent p body st st' \<longleftrightarrow> (\<exists>h h' lb ts i.
     reqs st p = Some h \<and>
     select_endpoint_time_based (global_lb st) (get_wall_time (times st 0)) = Some (lb, ts, int i) \<and>
     i < ends (global_lb st) \<and>
     global_lb st' = lb \<and> sent st' = sent st @ [To_Agent i p (agent_frame (req_id (event_loop st)) body)] \<and>
     event_loop st' = (event_loop st)\<lparr>req_id := req_id (event_loop st) + 2,
       http_req_dict := (http_req_dict (event_loop st))[slot (req_id (event_loop st)) := Some p]\<rparr> \<and>
     reqs st' = (reqs st)(p \<mapsto> h') \<and> ts_req_beg h' = ts \<and> http_req_id h' = req_id (event_loop st) \<and>
     (\<forall>request. receiving h' request 0) \<and> client h' = client h \<and> response_package h' = response_package h \<and>
     global_conn_remain_count st' = global_conn_remain_count st \<and> closing st' = closing st)"

lemma frame_before_body:
  assumes "length raw = 8192" and "12 \<le> k" and "k + length body \<le> 8192" and "take (length body) (drop k raw) = body"
    and "length body < 2 ^ 31"
  shows "\<exists>raw1 raw2. int_to_four_char (word_of_int (int (length body))) raw (int k - 12) = Some raw1 \<and>
    long_to_8bytes r raw1 (int k - 8) = Some raw2 \<and> length raw2 = 8192 \<and>
    load raw2 (int k - 12) (12 + int (length body)) = Some (agent_frame r body)"
proof -
  let ?w = "word_of_int (int (length body)) :: i32"
  have "k - 12 \<le> length raw" using assms(1,3) by simp
  then obtain p a where a: "raw = p @ a" "length p = k - 12" using split_at by blast
  have "4 \<le> length a" using a assms(1-3) by simp
  then obtain f rest where f: "a = f @ rest" "length f = 4" using split_at by blast
  have "8 \<le> length rest" using f a assms(1-3) by simp
  then obtain e rest2 where e: "rest = e @ rest2" "length e = 8" using split_at by blast
  have raw: "raw = p @ f @ e @ rest2" using a(1) f(1) e(1) by simp
  have kk: "int k - 12 = int (length p)" "int k - 8 = int (length (p @ be32_bytes ?w))" and k: "k = length (p @ f @ e)"
    using assms(2) a f e by simp_all
  have r2: "take (length body) rest2 = body" using assms(4) unfolding raw k by simp
  have lr: "length p + 12 + length rest2 = 8192" "length body \<le> length rest2"
    using assms(1,3) f(2) e(2) unfolding raw k by simp_all
  let ?raw1 = "p @ be32_bytes ?w @ e @ rest2" and ?raw2 = "p @ be32_bytes ?w @ le_bytes 8 r @ rest2"
  have s1: "int_to_four_char ?w raw (int k - 12) = Some ?raw1"
    using store_append [of "be32_bytes ?w" f p] f unfolding raw kk(1) by (simp add: int_to_four_char_store)
  have s2: "long_to_8bytes r ?raw1 (int k - 8) = Some ?raw2"
    using store_append [of "le_bytes 8 r" e "p @ be32_bytes ?w" rest2] e unfolding kk(2)
    by (simp add: long_to_8bytes_store)
  have "load ?raw2 (int k - 12) (12 + int (length body)) =
      Some (take (12 + length body) (be32_bytes ?w @ le_bytes 8 r @ rest2))"
    using lr unfolding kk(1) by (simp add: load_def nat_add_distrib)
  also have "take (12 + length body) (be32_bytes ?w @ le_bytes 8 r @ rest2) = agent_frame r body"
    using r2 by (simp add: agent_frame_def)
  finally have "load ?raw2 (int k - 12) (12 + int (length body)) = Some (agent_frame r body)" .
  moreover have "length ?raw2 = 8192" using lr by simp
  ultimately show ?thesis using s1 s2 by blast
qed

lemma send_to_provider_agent_ok:
  assumes "reqs st p = Some h" and "loop_ok st" and "i < ends (global_lb st)" and "0 \<le> sint (http_req_id h)"
  shows "send_to_provider_agent (int i) p bs st =
    Some (st\<lparr>event_loop := (event_loop st)\<lparr>http_req_dict :=
        (http_req_dict (event_loop st))[slot (http_req_id h) := Some p]\<rparr>,
      sent := sent st @ [To_Agent i p bs]\<rparr>)"
proof -
  let ?es = "endpoint_servers (event_loop st)"
  have i: "i < length ?es" using assms(2,3) by (simp add: loop_ok_def)
  then have "tcp_stream (?es ! i) \<noteq> None" using assms(2) by (simp add: loop_ok_def)
  moreover have "slot (http_req_id h) < length (http_req_dict (event_loop st))"
    using assms(2) slot_less by (simp add: loop_ok_def)
  then have "wr (http_req_dict (event_loop st)) (c_mod (sint (http_req_id h)) (int HASH_SLOT_NUM)) (Some p) =
      Some ((http_req_dict (event_loop st))[slot (http_req_id h) := Some p])"
    unfolding dict_index [OF assms(4)] by (simp add: wr_list_update)
  ultimately show ?thesis using assms(1) i
    by (auto simp: send_to_provider_agent_def rd_nth Let_def simp del: c_mod_nonneg)
qed

lemma atoi_content_length:
  assumes "length body < 2 ^ 31" and "\<not> is_digit c"
    and "take k raw = (pre @ dec_nat (length body) @ c # post) @ bs" and "length raw = 8192"
  shows "atoi_at raw (int (length pre)) = Some (int (length body))"
proof -
  have "raw = take k raw @ drop k raw" by simp
  then have "raw = pre @ dec_nat (length body) @ c # post @ bs @ drop k raw" unfolding assms(3) by simp
  then show ?thesis
    using atoi_at_dec_nat [of "length body" c pre "post @ bs @ drop k raw"] assms(1,2)
    by (simp add: int_max_def)
qed

lemma forward_request_sends:
  assumes "select_endpoint_time_based (global_lb st) (get_wall_time (times st 0)) = Some (lb, ts, w)"
    and "int_to_four_char (word_of_int content) (raw_array h) (request_length h - 12) = Some raw1"
    and "long_to_8bytes (req_id (event_loop st)) raw1 (request_length h - 12 + 4) = Some raw2"
    and "int_ok (12 + content)" and "load raw2 (request_length h - 12) (12 + content) = Some f"
  shows "forward_request p h content st = do {
      st' \<leftarrow> send_to_provider_agent w p f (set_req p
        (h\<lparr>ts_req_beg := ts, http_req_id := req_id (event_loop st), raw_array := raw2\<rparr>)
        (st\<lparr>times := (\<lambda>n. times st (Suc n)), global_lb := lb,
          event_loop := (event_loop st)\<lparr>req_id := req_id (event_loop st) + of_nat EVENT_LOOP_NUM\<rparr>\<rparr>));
      Some (set_req p (h\<lparr>ts_req_beg := ts, http_req_id := req_id (event_loop st), raw_array := raw2,
        raw_array_size := 0, request_length := - 1\<rparr>) st') }"
  using assms by (simp add: forward_request_def wall_time_def Let_def guard_bind)

lemma c_read_connection_data_complete:
  assumes "reqs st p = Some h" and "0 < nread" and "to_size (raw_array_size h + nread) = sz"
    and "load (raw_array h) 0 sz = Some buf" and "request_length h < 0"
    and "phr buf = (len, v # vs)" and "0 \<le> len" and "atoi_at (raw_array h) v = Some content"
    and "int_ok (content + len)" and "\<not> sz < to_size (content + len)"
  shows "c_read_connection_data phr p nread st =
    forward_request p (h\<lparr>raw_array_size := sz, request_length := len, content_length := content\<rparr>) content st"
proof -
  have "rd (v # vs) 0 = Some v" by (simp add: rd_def)
  with assms show ?thesis by (simp add: c_read_connection_data_def guard_bind)
qed

lemma read_chunk_completes:
  assumes p: "parses phr head body" and h: "reqs st p = Some h" "receiving h (head @ body) n"
    and n: "n < length head" and fits: "length head + length body \<le> 8192"
    and st: "loop_ok st" "lb_ok (global_lb st)" "\<forall>i < ends (global_lb st). int_ok (outstanding (global_lb st) i + 1)"
    and id: "0 \<le> sint (req_id (event_loop st))"
  shows "\<exists>st'. read_chunk phr p (drop n (head @ body)) st = Some st' \<and> request_sent p body st st'"
proof -
  let ?R = "head @ body" and ?bs = "drop n (head @ body)" and ?r = "req_id (event_loop st)"
  let ?len = "int (length head)" and ?content = "int (length body)"
  have lbs: "length ?bs = length ?R - n" and le: "n + length ?bs \<le> 8192" using n fits by simp_all
  have tk: "take (length ?bs) (drop n ?R) = ?bs" by simp
  obtain raw room where raw: "store (raw_array h) (int n) ?bs = Some raw" "length raw = 8192"
    "take (n + length ?bs) raw = take (n + length ?bs) ?R" "alloc_buffer h = (int n, room)" "int (length ?bs) \<le> room"
    by (rule receive_bytes [OF h(2) le tk])
  have nR: "n + length ?bs = length ?R" using n by simp
  have tR: "take (length ?R) raw = ?R" using raw(3) unfolding nR by simp
  have r: "request_length h < 0" "raw_array_size h = int n" using h(2) by (simp_all add: receiving_def)
  have sz: "to_size (int n + int (length ?bs)) = int (length ?R)"
    using nR fits by (simp only: flip: of_nat_add) simp
  have ld: "load raw 0 (int (length ?R)) = Some ?R" using raw(2) tR fits by (simp add: load_def del: of_nat_add)
  obtain pre c post vs where pp: "head = pre @ dec_nat (length body) @ c # post" "\<not> is_digit c"
    "phr (head @ take (length body) body) = (?len, int (length pre) # vs)" and h12: "12 \<le> length head"
    using p unfolding parses_def by blast
  have parse: "phr ?R = (?len, int (length pre) # vs)" using pp(3) by simp
  have at: "atoi_at raw (int (length pre)) = Some ?content"
  proof (rule atoi_content_length)
    show "take (length ?R) raw = (pre @ dec_nat (length body) @ c # post) @ body"
      unfolding tR by (simp only: flip: pp(1))
  qed (use fits pp(2) raw(2) in simp_all)
  have full: "\<not> int (length ?R) < to_size (?content + ?len)" "int_ok (?content + ?len)" "int_ok (12 + ?content)"
    using fits by (simp_all add: int_ok_def)
  let ?now = "get_wall_time (times st 0)"
  obtain lb i where sel: "select_endpoint_time_based (global_lb st) ?now = Some (lb, ?now, int i)"
    and i: "i < ends (global_lb st)" and lb: "ends lb = ends (global_lb st)"
    using lb.sel_some [OF st(2,3), of ?now] by blast
  have "drop (length head) (take (length ?R) raw) = body" unfolding tR by simp
  then have tb: "take (length body) (drop (length head) raw) = body" by (simp add: drop_take)
  obtain raw1 raw2 where fr: "int_to_four_char (word_of_int ?content) raw (?len - 12) = Some raw1"
    "long_to_8bytes ?r raw1 (?len - 8) = Some raw2" "length raw2 = 8192"
    "load raw2 (?len - 12) (12 + ?content) = Some (agent_frame ?r body)"
    using frame_before_body [OF raw(2) h12 fits tb, of ?r] fits by auto
  have e8: "?len - 12 + 4 = ?len - 8" by simp
  define h0 where "h0 = h\<lparr>raw_array := raw, raw_array_size := int (length ?R), request_length := ?len,
    content_length := ?content\<rparr>"
  define h1 where "h1 = h0\<lparr>ts_req_beg := ?now, http_req_id := ?r, raw_array := raw2\<rparr>"
  define st1 where "st1 = set_req p h1 (st\<lparr>times := (\<lambda>n. times st (Suc n)), global_lb := lb,
    event_loop := (event_loop st)\<lparr>req_id := ?r + of_nat EVENT_LOOP_NUM\<rparr>\<rparr>)"
  have snd: "send_to_provider_agent (int i) p (agent_frame ?r body) st1 =
      Some (st1\<lparr>event_loop := (event_loop st1)\<lparr>http_req_dict := (http_req_dict (event_loop st1))[slot ?r := Some p]\<rparr>,
        sent := sent st1 @ [To_Agent i p (agent_frame ?r body)]\<rparr>)"
    using send_to_provider_agent_ok [of st1 p h1 i "agent_frame ?r body"] st(1) i id lb
    by (simp add: st1_def h1_def h0_def loop_ok_def)
  define st2 where "st2 = st1\<lparr>event_loop := (event_loop st1)\<lparr>http_req_dict := (http_req_dict (event_loop st1))[slot ?r := Some p]\<rparr>,
    sent := sent st1 @ [To_Agent i p (agent_frame ?r body)]\<rparr>"
  define h2 where "h2 = h1\<lparr>raw_array_size := 0, request_length := - 1\<rparr>"
  have "read_chunk phr p ?bs st = c_read_connection_data phr p (int (length ?bs)) (set_req p (h\<lparr>raw_array := raw\<rparr>) st)"
    using h(1) raw(1,4,5) n by (simp add: read_chunk_def)
  also have "\<dots> = forward_request p h0 ?content (set_req p (h\<lparr>raw_array := raw\<rparr>) st)"
    by (subst c_read_connection_data_complete [where phr = phr and len = ?len and content = ?content])
       (use r sz ld at n parse full in \<open>simp_all add: h0_def\<close>)
  also have "\<dots> = do { st \<leftarrow> send_to_provider_agent (int i) p (agent_frame ?r body) st1; Some (set_req p h2 st) }"
    by (subst forward_request_sends)
       (use sel fr e8 full(3) in \<open>simp_all add: h0_def h1_def h2_def st1_def set_req_def\<close>)
  finally have "read_chunk phr p ?bs st = Some (set_req p h2 st2)"
    by (simp only: snd Option.bind.bind_lunit st2_def)
  moreover have "request_sent p body st (set_req p h2 st2)"
    unfolding request_sent_def
    by (rule exI [of _ h], rule exI [of _ h2], rule exI [of _ lb], rule exI [of _ ?now], rule exI [of _ i])
       (use h sel i fr(3) in \<open>simp add: h2_def h1_def h0_def st2_def st1_def receiving_def EVENT_LOOP_NUM_def set_req_def\<close>)
  ultimately show ?thesis by blast
qed

text \<open>Several reads.\<close>

fun read_chunks ::
  "(byte list \<Rightarrow> int \<times> int list) \<Rightarrow> ptr \<Rightarrow> byte list list \<Rightarrow> consumer \<Rightarrow> consumer option" where
  "read_chunks phr p [] st = Some st"
| "read_chunks phr p (bs # cs) st = do { st \<leftarrow> read_chunk phr p bs st; read_chunks phr p cs st }"

lemma request_sent_set_req:
  assumes "request_sent p body (set_req p h1 st) st'" and "reqs st p = Some h"
    and "client h1 = client h" "response_package h1 = response_package h"
  shows "request_sent p body st st'"
  using assms by (force simp: request_sent_def)

lemma loop_ok_set_req [simp]: "loop_ok (set_req p h st) = loop_ok st"
  by (simp add: loop_ok_def)

lemma read_chunks_request:
  assumes p: "parses phr head body" and h: "reqs st p = Some h" "receiving h (head @ body) n"
    and cs: "\<forall>c \<in> set cs. c \<noteq> []" "drop n (head @ body) = concat cs @ final" "n + length (concat cs) < length head"
    and fits: "length head + length body \<le> 8192"
    and st: "loop_ok st" "lb_ok (global_lb st)" "\<forall>i < ends (global_lb st). int_ok (outstanding (global_lb st) i + 1)"
    and id: "0 \<le> sint (req_id (event_loop st))"
  shows "\<exists>st'. read_chunks phr p (cs @ [final]) st = Some st' \<and> request_sent p body st st'"
  using h cs st id
proof (induction cs arbitrary: st h n)
  case Nil
  have "n < length head" "final = drop n (head @ body)" using Nil.prems(4,5) by simp_all
  with read_chunk_completes [OF p Nil.prems(1,2) _ fits Nil.prems(6-9)] show ?case by auto
next
  case (Cons c cs)
  have "take (length c) (drop n (head @ body)) = c" unfolding Cons.prems(4) by simp
  then have c: "c \<noteq> []" "n + length c < length head" "take (length c) (drop n (head @ body)) = c"
    using Cons.prems(3,5) by simp_all
  have lh: "length head \<le> 8192" using fits by simp
  obtain h1 where h1: "read_chunk phr p c st = Some (set_req p h1 st)" "receiving h1 (head @ body) (n + length c)"
    "client h1 = client h" "response_package h1 = response_package h"
    using read_chunk_head [OF p Cons.prems(1,2) c lh] by blast
  have "drop (length c) (drop n (head @ body)) = concat cs @ final" unfolding Cons.prems(4) by simp
  then have "drop (n + length c) (head @ body) = concat cs @ final" by (simp only: drop_drop add.commute)
  then obtain st' where "read_chunks phr p (cs @ [final]) (set_req p h1 st) = Some st'"
      "request_sent p body (set_req p h1 st) st'"
    using Cons.IH [of "set_req p h1 st" h1 "n + length c"] h1(2) Cons.prems by auto
  with h1 request_sent_set_req [OF _ Cons.prems(1) h1(3,4)] show ?case by auto
qed

text \<open>The read that completes the header but not the body; the next read then has no headers.\<close>

lemma read_chunk_splits_body:
  assumes p: "parses phr head body" and h: "reqs st p = Some h" "receiving h (head @ body) n"
    and n: "n < length head" "length head \<le> n + length bs" "n + length bs < length (head @ body)"
    and bs: "take (length bs) (drop n (head @ body)) = bs" and fits: "length head + length body \<le> 8192"
  shows "\<exists>h1. read_chunk phr p bs st = Some (set_req p h1 st) \<and> raw_array_size h1 = int (n + length bs) \<and>
    0 \<le> request_length h1 \<and> length (raw_array h1) = 8192 \<and> raw_array_max_size h1 = 8192"
proof -
  let ?n = "n + length bs" and ?len = "int (length head)" and ?content = "int (length body)"
  have le: "?n \<le> 8192" using n(3) fits by simp
  obtain raw room where raw: "store (raw_array h) (int n) bs = Some raw" "length raw = 8192"
    "take ?n raw = take ?n (head @ body)" "alloc_buffer h = (int n, room)" "int (length bs) \<le> room"
    by (rule receive_bytes [OF h(2) le bs])
  have r: "request_length h < 0" "raw_array_size h = int n" "raw_array_max_size h = 8192"
    using h(2) by (simp_all add: receiving_def)
  have sz: "to_size (int n + int (length bs)) = int ?n" using le by simp
  let ?k = "?n - length head"
  have tk: "take ?n (head @ body) = head @ take ?k body" using n(2) by simp
  have ld: "load raw 0 (int ?n) = Some (head @ take ?k body)"
    using raw(2) le unfolding raw(3) [unfolded tk, symmetric] by (simp add: load_def del: of_nat_add)
  obtain pre c post vs where pp: "head = pre @ dec_nat (length body) @ c # post" "\<not> is_digit c"
    "phr (head @ take ?k body) = (?len, int (length pre) # vs)"
    using p unfolding parses_def by blast
  have "take ?n raw = (pre @ dec_nat (length body) @ c # post) @ take ?k body"
    unfolding raw(3) tk by (simp only: flip: pp(1))
  then have at: "atoi_at raw (int (length pre)) = Some ?content"
    by (rule atoi_content_length [rotated 2]) (use fits pp(2) raw(2) in simp_all)
  have part: "int ?n < to_size (?content + ?len)" "int_ok (?content + ?len)"
    using fits n(3) by (simp_all add: int_ok_def)
  have rd0: "rd (int (length pre) # vs) 0 = Some (int (length pre))" by (simp add: rd_def)
  have ne: "bs \<noteq> []" using n by auto
  let ?h = "h\<lparr>raw_array := raw, raw_array_size := int ?n, request_length := ?len, content_length := ?content\<rparr>"
  have "read_chunk phr p bs st = Some (set_req p ?h st)"
    using h(1) ne raw(1,4,5) r sz ld pp(3) rd0 at part
    by (simp add: read_chunk_def c_read_connection_data_def set_req_def guard_bind)
  then show ?thesis using raw(2) r by (intro exI [of _ ?h]) simp
qed

lemma read_without_headers:
  assumes "reqs st p = Some h" and "0 \<le> request_length h" and "0 < nread"
  shows "c_read_connection_data phr p nread st = None"
proof -
  have "rd ([] :: int list) 0 = None" by (simp add: rd_def)
  with assms show ?thesis
    by (cases "load (raw_array h) 0 (to_size (raw_array_size h + nread))")
       (simp_all add: c_read_connection_data_def)
qed

section \<open>Properties\<close>

text \<open>C5. The consumer agent reads one HTTP request (\<open>c_read_connection_data\<close>): when its
  bytes arrive in reads none of which but the last reaches past the header, nothing is undefined, and
  the last read sends exactly one frame, of the next request identifier and the body, to the agent the
  load balancer chooses, stores the request in the slot of its identifier and makes the connection
  ready for the next request.\<close>

theorem consumer_forwards_request:
  assumes "parses phr_parse_request head body" and "reqs st p = Some h" and "receiving h (head @ body) 0"
    and "\<forall>c \<in> set cs. c \<noteq> []" and "concat cs @ final = head @ body" and "length (concat cs) < length head"
    and "length head + length body \<le> 8192"
    and "loop_ok st" and "lb_ok (global_lb st)"
    and "\<forall>i < ends (global_lb st). int_ok (outstanding (global_lb st) i + 1)"
    and "0 \<le> sint (req_id (event_loop st))"
  shows "\<exists>st'. read_chunks phr_parse_request p (cs @ [final]) st = Some st' \<and> request_sent p body st st'"
  using read_chunks_request [OF assms(1-4) _ _ assms(7-11)] assms(5,6) by simp

text \<open>A parser that knows one header, and a state with two agents and one connection.\<close>

definition parse_header :: "byte list \<Rightarrow> int \<Rightarrow> byte list \<Rightarrow> int \<times> int list" where
  "parse_header head v bs = (if take (length head) bs = head then (int (length head), [v]) else (- 2, []))"

lemma parse_header_parses:
  assumes "head = pre @ dec_nat (length body) @ c # post" and "\<not> is_digit c" and "12 \<le> length head"
  shows "parses (parse_header head (int (length pre))) head body"
proof -
  have "take (length head) (take n head) \<noteq> head" if "n < length head" for n
    using that by (metis length_take min.strict_order_iff min.absorb3 order.strict_implies_not_eq min_less_iff_conj)
  then show ?thesis using assms(2,3) unfolding parses_def parse_header_def
    by (intro conjI exI [of _ pre] exI [of _ c] exI [of _ post] exI [of _ "[]"] allI impI assms(1)) simp_all
qed

definition head_example :: "byte list" where
  "head_example = bytes ''POST / HTTP/1.1'' @ [13, 10] @ bytes ''Content-Length: '' @ dec_nat 3 @ [13, 10, 13, 10]"

lemma length_head_example: "length head_example = 38" "head_example \<noteq> []"
  by (simp_all add: head_example_def dec_nat.simps)

lemma head_example_parses: "parses (parse_header head_example 33) head_example (bytes ''a=b'')"
proof -
  let ?pre = "bytes ''POST / HTTP/1.1'' @ [13, 10] @ bytes ''Content-Length: ''"
  have "head_example = ?pre @ dec_nat (length (bytes ''a=b'')) @ 13 # [10, 13, 10]"
    by (simp add: head_example_def numeral_3_eq_3)
  moreover have "length ?pre = 33" by simp
  ultimately show ?thesis
    using parse_header_parses [of head_example ?pre "bytes ''a=b''" 13 "[10, 13, 10]"]
    by (simp only: length_head_example) (simp add: is_digit_def)
qed

definition endpoint_example :: "nat \<Rightarrow> endpoint_server" where
  "endpoint_example i = (init_endpoint_server (replicate 4096 0) i)\<lparr>tcp_stream := Some i, conn_status := 0\<rparr>"

definition req_example :: http_req where
  "req_example = \<lparr>client = Some 70, raw_array = replicate 8192 0, raw_array_size = 0, raw_array_max_size = 8192,
     request_length = - 1, content_length = 0, http_req_id = - 1, response_package = replicate 4096 0,
     ts_req_beg = 0\<rparr>"

definition consumer_example :: consumer where
  "consumer_example =
     \<lparr>event_loop = \<lparr>endpoint_connection_count = 2, req_id = 6, endpoint_servers = map endpoint_example [0, 1],
        http_req_dict = replicate HASH_SLOT_NUM None\<rparr>,
      reqs = [7 \<mapsto> req_example], global_lb = lb_example, global_conn_remain_count = 1,
      times = (\<lambda>n. Some (17, int n)), sent = [], closing = [], ignored = [], abandoned = []\<rparr>"

lemma consumer_example_facts:
  "reqs consumer_example 7 = Some req_example" "receiving req_example r 0" "loop_ok consumer_example"
  "global_lb consumer_example = lb_example" "req_id (event_loop consumer_example) = 6"
  "sent consumer_example = []"
  by (simp_all add: consumer_example_def req_example_def receiving_def loop_ok_def lb_example_outstanding
      endpoint_example_def)

lemma lb_example_room:
  "\<forall>i < ends lb_example. int_ok (outstanding lb_example i + 1)"
  by (auto simp: lb_example_outstanding less_Suc_eq numeral_2_eq_2 int_ok_def)

theorem consumer_forwards_request_witness:
  "\<exists>st'. read_chunks (parse_header head_example 33) 7
      [take 20 head_example, drop 20 head_example @ bytes ''a=b''] consumer_example = Some st' \<and>
    request_sent 7 (bytes ''a=b'') consumer_example st'"
  using consumer_forwards_request [OF head_example_parses consumer_example_facts(1,2), of
        "[take 20 head_example]" "drop 20 head_example @ bytes ''a=b''"] length_head_example lb_example_room lb_example_ok
  by (simp add: consumer_example_facts)

text \<open>C36. When the body arrives later than the end of the header, the read of its rest uses the
  array of parsed headers, a local variable nothing was written to: it is undefined, whatever
  arrives.\<close>

theorem late_body_undefined:
  assumes "parses phr_parse_request head body" and "reqs st p = Some h" and "receiving h (head @ body) n"
    and "n < length head" and "length head \<le> n + length bs" and "n + length bs < length (head @ body)"
    and "take (length bs) (drop n (head @ body)) = bs" and "length head + length body \<le> 8192"
    and "bs' \<noteq> []" and "n + length bs + length bs' \<le> 8192"
  shows "\<exists>st' h' raw. read_chunk phr_parse_request p bs st = Some st' \<and> reqs st' p = Some h' \<and>
    store (raw_array h') (fst (alloc_buffer h')) bs' = Some raw \<and>
    c_read_connection_data phr_parse_request p (int (length bs')) (set_req p (h'\<lparr>raw_array := raw\<rparr>) st') = None"
proof -
  obtain h1 where h1: "read_chunk phr_parse_request p bs st = Some (set_req p h1 st)"
    "raw_array_size h1 = int (n + length bs)" "0 \<le> request_length h1" "length (raw_array h1) = 8192"
    using read_chunk_splits_body [OF assms(1-8)] by blast
  obtain raw where raw: "store (raw_array h1) (int (n + length bs)) bs' = Some raw"
    using h1(4) assms(10) by (simp add: store_Some)
  have "c_read_connection_data phr_parse_request p (int (length bs'))
      (set_req p (h1\<lparr>raw_array := raw\<rparr>) (set_req p h1 st)) = None"
    by (rule read_without_headers [of _ _ "h1\<lparr>raw_array := raw\<rparr>"]) (use h1(3) assms(9) in simp_all)
  with h1(1,2) raw show ?thesis
    by (intro exI [of _ "set_req p h1 st"] exI [of _ h1] exI [of _ raw]) (simp add: alloc_buffer_def)
qed

theorem late_body_undefined_witness:
  "\<exists>st' h' raw. read_chunk (parse_header head_example 33) 7 (head_example @ bytes ''a'') consumer_example = Some st' \<and>
    reqs st' 7 = Some h' \<and> store (raw_array h') (fst (alloc_buffer h')) (bytes ''=b'') = Some raw \<and>
    c_read_connection_data (parse_header head_example 33) 7 2 (set_req 7 (h'\<lparr>raw_array := raw\<rparr>) st') = None"
  using late_body_undefined [OF head_example_parses consumer_example_facts(1,2), of
      "head_example @ bytes ''a''" "bytes ''=b''"] length_head_example
  by (simp add: bytes_Cons)

end
