(* ===== verification/Consumer_Responses.thy ===== *)
theory Consumer_Responses
  imports Consumer_Requests
begin

text \<open>
  The responses the consumer agent reads from a provider agent
  (\<open>c_read_from_provide_agents\<close>): the loop takes frames off the buffer of the endpoint;
  the identifier selects a slot of \<open>http_req_dict\<close>, and the body goes to the client of the
  request the slot points to. An entry is never cleared; using one whose request was freed is
  undefined. The loop works on the buffer and its size, the state beside it; the handler puts both
  back into the endpoint.
\<close>

section \<open>The code\<close>

definition handle_response :: "int \<Rightarrow> byte list \<Rightarrow> int \<Rightarrow> i64 \<Rightarrow> consumer \<Rightarrow> consumer option" where
  "handle_response wh raw length_body r st = do {
     http_conn \<leftarrow> rd (http_req_dict (event_loop st)) (c_mod (sint r) (int HASH_SLOT_NUM));
     case http_conn of
       Some p \<Rightarrow> do {
         h \<leftarrow> reqs st p;
         let (now, st) = wall_time st;
         lb \<leftarrow> finish_endpoint_task_time_based (global_lb st) wh (ts_req_beg h) now;
         let st = st\<lparr>global_lb := lb\<rparr>;
         package \<leftarrow> memcpy (response_package h) 0 raw 12 length_body;
         let h = h\<lparr>response_package := package\<rparr>;
         res_buf \<leftarrow> load package 0 length_body;
         c \<leftarrow> client h;
         Some (set_req p h (st\<lparr>sent := sent st @ [To_Client c p res_buf]\<rparr>)) }
     | None \<Rightarrow> do {
         lb \<leftarrow> lost_response (global_lb st) wh;
         Some (st\<lparr>global_lb := lb\<rparr>) } }"

partial_function (option) c_response_loop ::
  "int \<Rightarrow> byte list \<Rightarrow> int \<Rightarrow> consumer \<Rightarrow> (byte list \<times> int \<times> consumer) option" where
  "c_response_loop wh raw n st =
     (if n < 12 then Some (raw, n, st)
      else do {
        w \<leftarrow> four_char_to_int raw 0;
        let length_body = sint w;
        guard (int_ok (length_body + 12));
        let last_length = length_body + 12;
        if n < to_size last_length then Some (raw, n, st)
        else do {
          r \<leftarrow> bytes8_to_long raw 4;
          st \<leftarrow> handle_response wh raw length_body r st;
          let n = to_size (n - to_size last_length);
          raw \<leftarrow> memmove raw 0 last_length n;
          c_response_loop wh raw n st } })"

text \<open>
  The read callback. A connection closed by the peer is closed and made again
  (\<open>reconnection_to_agent\<close>); any other error ends the process.
\<close>

datatype outcome = Running consumer | Exit int

definition set_endpoint :: "nat \<Rightarrow> endpoint_server \<Rightarrow> consumer \<Rightarrow> consumer" where
  "set_endpoint i e st = st\<lparr>event_loop := (event_loop st)\<lparr>
     endpoint_servers := (endpoint_servers (event_loop st))[i := e]\<rparr>\<rparr>"

definition c_read_from_provide_agents :: "nat \<Rightarrow> int \<Rightarrow> bool \<Rightarrow> consumer \<Rightarrow> outcome option" where
  "c_read_from_provide_agents i nread eof st = do {
     server \<leftarrow> rd (endpoint_servers (event_loop st)) (int i);
     if 0 < nread then do {
       let n = to_size (size_of_raw_array server + nread);
       (raw, n, st) \<leftarrow> c_response_loop (int (which server)) (ep_raw_array server) n st;
       Some (Running (set_endpoint i (server\<lparr>ep_raw_array := raw, size_of_raw_array := n\<rparr>) st)) }
     else if nread < 0 then
       (if \<not> eof then Some (Exit (- 1))
        else Some (Running (set_endpoint i (server\<lparr>conn_status := - 1\<rparr>) st)))
     else Some (Running st) }"

section \<open>Frames\<close>

type_synonym frame = "i64 \<times> byte list"

definition enc_frame :: "frame \<Rightarrow> byte list" where
  "enc_frame f = agent_frame (fst f) (snd f)"

definition frame_fits :: "frame \<Rightarrow> bool" where
  "frame_fits f \<longleftrightarrow> 0 \<le> sint (fst f) \<and> length (enc_frame f) \<le> DEFAULT_RESPONSE_SIZE"

text \<open>What a frame does: the body goes to the client of the request in the slot.\<close>

definition answered :: "nat \<Rightarrow> frame \<Rightarrow> consumer \<Rightarrow> consumer" where
  "answered w f st = (case http_req_dict (event_loop st) ! slot (fst f) of
     None \<Rightarrow> st\<lparr>global_lb := the (lost_response (global_lb st) (int w))\<rparr>
   | Some p \<Rightarrow> let h = the (reqs st p); (now, st1) = wall_time st in
       set_req p (h\<lparr>response_package := snd f @ drop (length (snd f)) (response_package h)\<rparr>)
         (st1\<lparr>global_lb := the (finish_endpoint_task_time_based (global_lb st) (int w) (ts_req_beg h) now),
            sent := sent st @ [To_Client (the (client h)) p (snd f)]\<rparr>))"

text \<open>No entry of the array dangles.\<close>

definition dict_live :: "consumer \<Rightarrow> bool" where
  "dict_live st \<longleftrightarrow> length (http_req_dict (event_loop st)) = HASH_SLOT_NUM \<and>
     (\<forall>p. Some p \<in> set (http_req_dict (event_loop st)) \<longrightarrow>
       (\<exists>h c. reqs st p = Some h \<and> client h = Some c \<and> length (response_package h) = DEFAULT_PACKAGE_SIZE))"

text \<open>The state can take so many more frames: no count of requests in flight leaves \<open>int\<close>.\<close>

definition can_take :: "nat \<Rightarrow> frame list \<Rightarrow> consumer \<Rightarrow> bool" where
  "can_take w fs st \<longleftrightarrow> dict_live st \<and> lb_ok (global_lb st) \<and> w < ends (global_lb st) \<and>
     int (length fs) - 2 ^ 31 \<le> outstanding (global_lb st) w \<and> outstanding (global_lb st) w < 2 ^ 31"

lemma dict_entry:
  assumes "dict_live st"
  shows "http_req_dict (event_loop st) ! slot r \<in> set (http_req_dict (event_loop st))"
  using assms slot_less [of r] by (simp add: dict_live_def)

lemma can_take_answered:
  assumes "can_take w (f # fs) st" and f: "frame_fits f"
  shows "can_take w fs (answered w f st)"
proof -
  have ok: "dict_live st" "lb_ok (global_lb st)" "w < ends (global_lb st)" "int_ok (outstanding (global_lb st) w - 1)"
    and b: "int (length (f # fs)) - 2 ^ 31 \<le> outstanding (global_lb st) w" "outstanding (global_lb st) w < 2 ^ 31"
    using assms by (simp_all add: can_take_def int_ok_def)
  show ?thesis
  proof (cases "http_req_dict (event_loop st) ! slot (fst f)")
    case None
    with lb.lost_some [OF ok(2-4)] ok b show ?thesis
      by (auto simp: answered_def can_take_def dict_live_def)
  next
    case (Some p)
    then obtain h c where h: "reqs st p = Some h" "client h = Some c" "length (response_package h) = DEFAULT_PACKAGE_SIZE"
      using ok(1) dict_entry [OF ok(1), of "fst f"] unfolding dict_live_def by (metis (no_types))
    obtain lb where "finish_endpoint_task_time_based (global_lb st) (int w) (ts_req_beg h) (get_wall_time (times st 0)) = Some lb"
      "lb_ok lb" "ends lb = ends (global_lb st)" "outstanding lb w = outstanding (global_lb st) w - 1"
      using lb.fin_some [OF ok(2-4), of "ts_req_beg h" "get_wall_time (times st 0)"] ok(3) by auto
    moreover have "length (snd f) \<le> DEFAULT_PACKAGE_SIZE"
      using f by (simp add: frame_fits_def enc_frame_def DEFAULT_RESPONSE_SIZE_def DEFAULT_PACKAGE_SIZE_def)
    ultimately show ?thesis using Some h ok b
      by (auto simp: answered_def can_take_def dict_live_def wall_time_def Let_def)
  qed
qed

lemma handle_response_known:
  assumes "rd (http_req_dict (event_loop st)) (c_mod (sint r) (int HASH_SLOT_NUM)) = Some (Some p)"
    and "reqs st p = Some h" and "client h = Some c" and "length (response_package h) = DEFAULT_PACKAGE_SIZE"
    and "finish_endpoint_task_time_based (global_lb st) wh (ts_req_beg h) (get_wall_time (times st 0)) = Some lb"
    and "length body \<le> DEFAULT_PACKAGE_SIZE" and "load raw 12 (int (length body)) = Some body"
  shows "handle_response wh raw (int (length body)) r st =
    Some (set_req p (h\<lparr>response_package := body @ drop (length body) (response_package h)\<rparr>)
      (snd (wall_time st)\<lparr>global_lb := lb, sent := sent st @ [To_Client c p body]\<rparr>))"
proof -
  have m: "memcpy (response_package h) 0 raw 12 (int (length body)) =
      Some (body @ drop (length body) (response_package h))"
    using assms(4,6,7) by (simp add: memcpy_def store_Some)
  have l: "load (body @ drop (length body) (response_package h)) 0 (int (length body)) = Some body"
    by (simp add: load_def)
  show ?thesis using assms m l by (simp add: handle_response_def wall_time_def Let_def)
qed

lemma handle_response_answered:
  assumes "can_take w (f # fs) st" and "frame_fits f" and "load raw 12 (int (length (snd f))) = Some (snd f)"
  shows "handle_response (int w) raw (int (length (snd f))) (fst f) st = Some (answered w f st)"
proof -
  have ok: "dict_live st" "lb_ok (global_lb st)" "w < ends (global_lb st)" "int_ok (outstanding (global_lb st) w - 1)"
    using assms by (simp_all add: can_take_def int_ok_def)
  let ?d = "http_req_dict (event_loop st)"
  have idx: "rd ?d (c_mod (sint (fst f)) (int HASH_SLOT_NUM)) = Some (?d ! slot (fst f))"
    using dict_index [of "fst f"] slot_less [of "fst f"] assms(2) ok(1)
    by (simp add: frame_fits_def dict_live_def rd_nth del: c_mod_nonneg)
  show ?thesis
  proof (cases "?d ! slot (fst f)")
    case None
    with lb.lost_some [OF ok(2-4)] show ?thesis by (auto simp: handle_response_def idx answered_def)
  next
    case (Some p)
    then obtain h c where h: "reqs st p = Some h" "client h = Some c" "length (response_package h) = DEFAULT_PACKAGE_SIZE"
      using ok(1) dict_entry [OF ok(1), of "fst f"] unfolding dict_live_def by (metis (no_types))
    obtain lb where lb: "finish_endpoint_task_time_based (global_lb st) (int w) (ts_req_beg h) (get_wall_time (times st 0)) = Some lb"
      using lb.fin_some [OF ok(2-4), of "ts_req_beg h" "get_wall_time (times st 0)"] by auto
    have "length (snd f) \<le> DEFAULT_PACKAGE_SIZE"
      using assms(2) by (simp add: frame_fits_def enc_frame_def DEFAULT_RESPONSE_SIZE_def DEFAULT_PACKAGE_SIZE_def)
    from handle_response_known [OF _ h lb this assms(3), of "fst f"] show ?thesis
      using Some h lb by (simp add: idx answered_def wall_time_def Let_def)
  qed
qed

section \<open>The loop is a framed reader\<close>

lemma c_response_loop_waits:
  assumes f: "frame_fits f" and buf: "length buf = DEFAULT_RESPONSE_SIZE" and n: "n < length (enc_frame f)"
    and t: "take n buf = take n (enc_frame f)"
  shows "c_response_loop w buf (int n) st = Some (buf, int n, st)"
proof (cases "n < 12")
  case True
  then show ?thesis by (subst c_response_loop.simps) simp
next
  case False
  have l: "12 + length (snd f) \<le> 4096" and nb: "n \<le> length buf"
    using f n buf by (simp_all add: frame_fits_def enc_frame_def DEFAULT_RESPONSE_SIZE_def)
  obtain x where x: "four_char_to_int buf 0 = Some x" "sint x = int (length (snd f))"
    using agent_frame_length [of n buf "fst f" "snd f"] t False nb l by (auto simp: enc_frame_def)
  have "int n < int (length (snd f)) + 12" using n by (simp add: enc_frame_def)
  then show ?thesis using False x l
    by (subst c_response_loop.simps) (simp add: guard_bind int_ok_def Let_def)
qed

lemma c_response_loop_takes:
  assumes f: "frame_fits f" and st: "can_take w (f # fs) st" and buf: "length buf = DEFAULT_RESPONSE_SIZE"
    and n: "length (enc_frame f) \<le> n" "n \<le> DEFAULT_RESPONSE_SIZE"
    and t: "take (length (enc_frame f)) buf = enc_frame f"
  shows "\<exists>buf'. length buf' = DEFAULT_RESPONSE_SIZE \<and>
    take (n - length (enc_frame f)) buf' = drop (length (enc_frame f)) (take n buf) \<and>
    c_response_loop (int w) buf (int n) st =
      c_response_loop (int w) buf' (int (n - length (enc_frame f))) (answered w f st)"
proof -
  let ?l = "length (enc_frame f)"
  have el: "?l = 12 + length (snd f)" by (simp add: enc_frame_def)
  have l: "?l \<le> 4096" and lb: "?l \<le> length buf" and nb: "n \<le> length buf"
    using f buf n by (simp_all add: frame_fits_def DEFAULT_RESPONSE_SIZE_def)
  have th: "take ?l buf = take ?l (agent_frame (fst f) (snd f))" using t by (simp add: enc_frame_def)
  have h: "four_char_to_int buf 0 = Some (word_of_int (int (length (snd f))))" "bytes8_to_long buf 4 = Some (fst f)"
    using agent_header [OF th] el lb by simp_all
  have sl: "sint (word_of_int (int (length (snd f))) :: i32) = int (length (snd f))" using el l by simp
  have "take ?l buf = (be32_bytes (word_of_int (int (length (snd f)))) @ le_bytes 8 (fst f)) @ snd f @ []"
    using t by (simp add: enc_frame_def agent_frame_def)
  from load_frame [OF this lb] have "load buf 12 (int (length (snd f))) = Some (snd f)" by simp
  note hr = handle_response_answered [OF st f this]
  obtain buf' where mv: "memmove buf 0 (int ?l) (int (n - ?l)) = Some buf'" "length buf' = length buf"
      "take (n - ?l) buf' = drop ?l (take n buf)"
    using memmove_front [OF nb n(1)] by blast
  have szs: "to_size (int ?l) = int ?l" "to_size (int n - int ?l) = int (n - ?l)"
    "int (length (snd f)) + 12 = int ?l" "\<not> int n < 12" "\<not> int n < int ?l" "int_ok (int ?l)"
    using l n nb el buf by (simp_all add: int_ok_def of_nat_diff DEFAULT_RESPONSE_SIZE_def)
  have "c_response_loop (int w) buf (int n) st = c_response_loop (int w) buf' (int (n - ?l)) (answered w f st)"
    by (subst c_response_loop.simps)
       (simp only: szs h sl hr Let_def Option.bind.bind_lunit guard_bind mv(1) prod.case if_True if_False)
  then show ?thesis using mv(2,3) buf by auto
qed

lemma answer_reader:
  "framed_reader DEFAULT_RESPONSE_SIZE (c_response_loop (int w)) enc_frame frame_fits (can_take w) (answered w)"
proof
  show "0 < length (enc_frame f) \<and> length (enc_frame f) \<le> DEFAULT_RESPONSE_SIZE" if "frame_fits f" for f
    using that by (simp add: frame_fits_def enc_frame_def)
qed (use c_response_loop_waits c_response_loop_takes can_take_answered in \<open>simp_all\<close>)

interpretation answers: framed_reader DEFAULT_RESPONSE_SIZE "c_response_loop (int w)" enc_frame frame_fits
  "can_take w" "answered w" for w
  by (rule answer_reader)

section \<open>Who gets what\<close>

definition reply :: "consumer \<Rightarrow> frame \<Rightarrow> c_out list" where
  "reply st f = (case http_req_dict (event_loop st) ! slot (fst f) of
     None \<Rightarrow> [] | Some p \<Rightarrow> [To_Client (the (client (the (reqs st p)))) p (snd f)])"

lemma answered_reply:
  "sent (answered w f st) = sent st @ reply st f"
  "event_loop (answered w f st) = event_loop st"
  "closing (answered w f st) = closing st"
  "global_conn_remain_count (answered w f st) = global_conn_remain_count st"
  by (auto simp: answered_def reply_def wall_time_def Let_def split: option.split)

lemma answered_client:
  assumes "dict_live st"
  shows "map_option client (reqs (answered w f st) p) = map_option client (reqs st p)"
proof (cases "http_req_dict (event_loop st) ! slot (fst f)")
  case (Some q)
  then obtain h where "reqs st q = Some h"
    using assms dict_entry [OF assms, of "fst f"] unfolding dict_live_def by (metis (no_types))
  with Some show ?thesis by (simp add: answered_def wall_time_def Let_def)
qed (simp add: answered_def)

lemma reply_answered:
  assumes "dict_live st"
  shows "reply (answered w f st) g = reply st g"
proof (cases "http_req_dict (event_loop st) ! slot (fst g)")
  case (Some q)
  then obtain h where "reqs st q = Some h"
    using assms dict_entry [OF assms, of "fst g"] unfolding dict_live_def by (metis (no_types))
  with answered_client [OF assms, of w f q] Some show ?thesis
    by (auto simp: reply_def answered_reply)
qed (simp add: reply_def answered_reply)

lemma answered_in_flight:
  assumes "can_take w (f # fs) st" and "dict_live st"
  shows "outstanding (global_lb (answered w f st)) w = outstanding (global_lb st) w - 1"
proof -
  have ok: "lb_ok (global_lb st)" "w < ends (global_lb st)" "int_ok (outstanding (global_lb st) w - 1)"
    using assms by (simp_all add: can_take_def int_ok_def)
  show ?thesis
  proof (cases "http_req_dict (event_loop st) ! slot (fst f)")
    case None
    then show ?thesis using lb.lost_some [OF ok] ok(2) by (auto simp: answered_def)
  next
    case (Some p)
    then show ?thesis
      using lb.fin_some [OF ok, of "ts_req_beg (the (reqs st p))" "get_wall_time (times st 0)"] ok(2)
      by (auto simp: answered_def wall_time_def Let_def)
  qed
qed

lemma fold_answered:
  assumes "\<forall>f \<in> set fs. frame_fits f" and "can_take w (fs @ gs) st"
  shows "sent (fold (answered w) fs st) = sent st @ concat (map (reply st) fs) \<and>
    event_loop (fold (answered w) fs st) = event_loop st \<and>
    outstanding (global_lb (fold (answered w) fs st)) w = outstanding (global_lb st) w - int (length fs)"
  using assms
proof (induction fs arbitrary: st)
  case (Cons f fs)
  have st: "can_take w (f # (fs @ gs)) st" and f: "frame_fits f" using Cons.prems by simp_all
  then have d: "dict_live st" by (simp add: can_take_def)
  note c = can_take_answered [OF st f]
  show ?case
    using Cons.IH [OF _ c] Cons.prems reply_answered [OF d, of w f] answered_in_flight [OF _ d, of w f "fs @ gs"]
    by (simp add: answered_reply)
qed simp

section \<open>Properties\<close>

text \<open>C6. The consumer agent reads the responses of a provider agent
  (\<open>c_read_from_provide_agents\<close>): however their stream is cut into reads, nothing is
  undefined, each complete frame whose identifier has a request in its slot is written to the client
  of that request exactly once and in order, the others are dropped, and the agent has one request
  less in flight for each of them.\<close>

theorem responses_reach_clients:
  assumes "\<forall>f \<in> set fs. frame_fits f" and "can_take w fs st" and "length buf0 = DEFAULT_RESPONSE_SIZE"
  shows "\<exists>j unread buf held st'.
    deliver_all (c_response_loop (int w)) ks (concat (map enc_frame fs), buf0, 0, st) = Some (unread, buf, held, st') \<and>
    sent st' = sent st @ concat (map (reply st) (take j fs)) \<and>
    outstanding (global_lb st') w = outstanding (global_lb st) w - int (length (take j fs)) \<and>
    event_loop st' = event_loop st \<and>
    take (nat held) buf @ unread = concat (map enc_frame (drop j fs)) \<and>
    (j < length fs \<longrightarrow> nat held < length (enc_frame (fs ! j))) \<and>
    ((\<forall>k \<in> set ks. 0 < k) \<and> length (concat (map enc_frame fs)) \<le> length ks \<longrightarrow>
      sent st' = sent st @ concat (map (reply st) fs) \<and> unread = [] \<and> held = 0)"
proof -
  obtain j unread buf held st' where r: "j \<le> length fs" "st' = fold (answered w) (take j fs) st"
    "deliver_all (c_response_loop (int w)) ks (concat (map enc_frame fs), buf0, 0, st) = Some (unread, buf, held, st')"
    "take (nat held) buf @ unread = concat (map enc_frame (drop j fs))"
    "j < length fs \<longrightarrow> nat held < length (enc_frame (fs ! j))"
    "(\<forall>k \<in> set ks. 0 < k) \<and> length (concat (map enc_frame fs)) \<le> length ks \<longrightarrow>
      st' = fold (answered w) fs st \<and> unread = [] \<and> held = 0"
    using answers.stream_handled [OF assms, where ks = ks] by blast
  have "\<forall>f \<in> set (take j fs). frame_fits f" using assms(1) by (auto dest: in_set_takeD)
  note t = fold_answered [OF this, of w "drop j fs" st] and a = fold_answered [OF assms(1), of w "[]" st]
  show ?thesis
    by (rule exI [of _ j], rule exI [of _ unread], rule exI [of _ buf], rule exI [of _ held], rule exI [of _ st'])
       (use r t a assms(2) in auto)
qed

definition answer_example :: consumer where
  "answer_example = consumer_example\<lparr>event_loop := (event_loop consumer_example)
     \<lparr>http_req_dict := (replicate HASH_SLOT_NUM None)[6 := Some 7]\<rparr>\<rparr>"

lemma slot_example: "slot 6 = 6" "slot 8 = 8"
  by (simp_all add: slot_def HASH_SLOT_NUM_def)

lemma answer_example_facts:
  "event_loop answer_example = (event_loop consumer_example)\<lparr>http_req_dict := (replicate HASH_SLOT_NUM None)[6 := Some 7]\<rparr>"
  "global_lb answer_example = lb_example" "reqs answer_example 7 = Some req_example" "client req_example = Some 70"
  "sent answer_example = []"
  by (simp_all add: answer_example_def consumer_example_def req_example_def)

lemma answer_example_dict: "dict_live answer_example"
  using set_update_subset_insert [of "replicate HASH_SLOT_NUM None" 6 "Some 7"]
  by (auto simp: dict_live_def answer_example_facts req_example_def DEFAULT_PACKAGE_SIZE_def)

lemma can_take_example: "can_take 0 [(6, bytes ''ok''), (8, bytes ''no'')] answer_example"
  by (simp add: can_take_def answer_example_dict answer_example_facts lb_example_ok lb_example_outstanding)

theorem responses_reach_clients_witness:
  "\<exists>buf st'. deliver_all (c_response_loop 0) (replicate 28 3)
      (enc_frame (6, bytes ''ok'') @ enc_frame (8, bytes ''no''), replicate 4096 0, 0, answer_example) =
    Some ([], buf, 0, st') \<and> sent st' = [To_Client 70 7 (bytes ''ok'')]"
proof -
  have ok: "\<forall>f \<in> set [(6, bytes ''ok''), (8, bytes ''no'')]. frame_fits f"
    by (simp add: frame_fits_def enc_frame_def DEFAULT_RESPONSE_SIZE_def)
  have r: "reply answer_example (6, bytes ''ok'') = [To_Client 70 7 (bytes ''ok'')]"
    "reply answer_example (8, bytes ''no'') = []"
    by (simp_all add: reply_def slot_example answer_example_facts HASH_SLOT_NUM_def)
  show ?thesis
    using responses_reach_clients [OF ok can_take_example, of "replicate 4096 0" "replicate 28 3"]
    by (auto simp: r enc_frame_def DEFAULT_RESPONSE_SIZE_def answer_example_facts)
qed

text \<open>C37. Closing a connection frees its request but leaves it in the array: when the connection of
  a consumer has failed and its close callback has run while a request of it was with a provider
  agent, the response to that request makes the consumer agent use the freed memory.\<close>

theorem late_response_uses_freed_request:
  assumes "reqs st p = Some h" and "http_req_dict (event_loop st) ! slot r = Some p"
    and "length (http_req_dict (event_loop st)) = HASH_SLOT_NUM" and "0 \<le> sint r"
    and "p \<notin> set (closing st)" and "int_ok (global_conn_remain_count st - 1)" and "nread < 0"
  shows "\<exists>st1 st2. c_read_connection_data phr_parse_request p nread st = Some st1 \<and> close_cb p st1 = Some st2 \<and>
    handle_response w raw len r st2 = None"
proof -
  have "rd (http_req_dict (event_loop st)) (c_mod (sint r) (int HASH_SLOT_NUM)) = Some (Some p)"
    using dict_index [OF assms(4)] slot_less [of r] assms(2,3) by (simp add: rd_nth del: c_mod_nonneg)
  then show ?thesis using assms(1,5-7)
    by (simp add: c_read_connection_data_def close_cb_def free_http_req_def handle_response_def guard_bind)
qed

theorem late_response_uses_freed_request_witness:
  "\<exists>st1 st2. c_read_connection_data (parse_header [] 0) 7 (- 1) answer_example = Some st1 \<and>
    close_cb 7 st1 = Some st2 \<and> handle_response 0 (enc_frame (6, bytes ''ok'')) 2 6 st2 = None"
proof -
  have "closing answer_example = []" "global_conn_remain_count answer_example = 1"
    by (simp_all add: answer_example_def consumer_example_def)
  then show ?thesis
    by (intro late_response_uses_freed_request [where h = req_example])
       (simp_all add: answer_example_facts slot_example HASH_SLOT_NUM_def int_ok_def)
qed

end
