(* ===== verification/Consumer_Connect.thy ===== *)
theory Consumer_Connect
  imports Consumer_State
begin

text \<open>
  The connections of one event loop of the consumer agent to the provider agents
  (\<open>start_work_event_loop\<close>, \<open>make_connection_to_agent_\<close>,
  \<open>c_after_connect_to_a_agent\<close>, \<open>reconnection_to_agent\<close>, \<open>start_listen\<close>)
  as a state machine. Beside the server the state has what libuv still owes the loop: the connect
  callbacks (\<open>connecting\<close>), the streams read from (\<open>reading\<close>) and the close callbacks
  (\<open>reclosing\<close>), each by the endpoint it belongs to. \<open>open_handles\<close> are the TCP handles
  initialised whose close callback has not run: libuv still has them, and freeing one of them is
  undefined, as is freeing a connect request whose callback is owed. A connect that fails is undefined
  for that reason: its callback connects again, which frees the handle. A result \<open>Inl\<close> is the end of the process with that exit code.
\<close>

record net =
  srv :: tcp_server
  connecting :: "nat list"
  reading :: "nat list"
  reclosing :: "nat list"
  listens :: nat
  next_ptr :: ptr
  open_handles :: "ptr list"

definition put_endpoint :: "nat \<Rightarrow> endpoint_server \<Rightarrow> net \<Rightarrow> net" where
  "put_endpoint i e nt = nt\<lparr>srv := (srv nt)\<lparr>endpoint_servers := (endpoint_servers (srv nt))[i := e]\<rparr>\<rparr>"

text \<open>\<open>free\<close> of a handle, or of the null pointer.\<close>

definition free_handle :: "ptr option \<Rightarrow> net \<Rightarrow> net option" where
  "free_handle h nt = (case h of None \<Rightarrow> Some nt | Some p \<Rightarrow> do { guard (p \<notin> set (open_handles nt)); Some nt })"

definition free_connect_req :: "nat \<Rightarrow> ptr option \<Rightarrow> net \<Rightarrow> net option" where
  "free_connect_req i c nt = (case c of None \<Rightarrow> Some nt | Some p \<Rightarrow> do { guard (i \<notin> set (connecting nt)); Some nt })"

definition make_connection_to_agent :: "nat \<Rightarrow> net \<Rightarrow> net option" where
  "make_connection_to_agent i nt = do {
     e \<leftarrow> rd (endpoint_servers (srv nt)) (int i);
     if conn_status e \<noteq> 0 then do {
       let new_conn = next_ptr nt;
       let nt = nt\<lparr>next_ptr := next_ptr nt + 1\<rparr>;
       nt \<leftarrow> free_connect_req i (conn e) nt;
       let e = e\<lparr>conn := Some new_conn\<rparr>;
       let client = next_ptr nt;
       let nt = nt\<lparr>next_ptr := next_ptr nt + 1\<rparr>;
       nt \<leftarrow> free_handle (tcp_stream e) nt;
       let e = e\<lparr>tcp_stream := Some client\<rparr>;
       let nt = nt\<lparr>open_handles := client # open_handles nt\<rparr>;
       let nt = put_endpoint i e nt;
       Some (nt\<lparr>connecting := connecting nt @ [which e]\<rparr>) }
     else Some nt }"

fun connect_loop :: "nat list \<Rightarrow> net \<Rightarrow> net option" where
  "connect_loop [] nt = Some nt"
| "connect_loop (i # js) nt = do { nt \<leftarrow> make_connection_to_agent i nt; connect_loop js nt }"

definition connect_to_provider_agent_long_live :: "int \<Rightarrow> net \<Rightarrow> net option" where
  "connect_to_provider_agent_long_live num_endpoint_servers nt = connect_loop [0..<nat num_endpoint_servers] nt"

definition start_listen :: "int \<Rightarrow> net \<Rightarrow> int + net" where
  "start_listen r nt = (if r \<noteq> 0 then Inl (- 1) else Inr (nt\<lparr>listens := listens nt + 1\<rparr>))"

text \<open>The connect callback; \<open>r\<close> is what \<open>uv_listen\<close> returns, should it be called.\<close>

definition c_after_connect_to_a_agent :: "int \<Rightarrow> nat \<Rightarrow> int \<Rightarrow> int \<Rightarrow> net \<Rightarrow> (int + net) option" where
  "c_after_connect_to_a_agent num_endpoint_servers i status r nt = do {
     e \<leftarrow> rd (endpoint_servers (srv nt)) (int i);
     if status = 0 then do {
       let nt = put_endpoint i (e\<lparr>conn_status := 0\<rparr>) nt;
       _ \<leftarrow> tcp_stream e;
       let nt = nt\<lparr>reading := reading nt @ [i]\<rparr>;
       let count = endpoint_connection_count (srv nt) + 1;
       guard (int_ok count);
       let nt = nt\<lparr>srv := (srv nt)\<lparr>endpoint_connection_count := count\<rparr>\<rparr>;
       if count = num_endpoint_servers then Some (start_listen r nt) else Some (Inr nt) }
     else map_option Inr (make_connection_to_agent (which e) nt) }"

definition reconnection_to_agent :: "nat \<Rightarrow> net \<Rightarrow> net option" where
  "reconnection_to_agent i nt = do {
     e \<leftarrow> rd (endpoint_servers (srv nt)) (int i);
     make_connection_to_agent (which e) nt }"

text \<open>The end of \<open>c_read_from_provide_agents\<close>, when the stream ends.\<close>

definition agent_closed :: "nat \<Rightarrow> net \<Rightarrow> net option" where
  "agent_closed i nt = do {
     e \<leftarrow> rd (endpoint_servers (srv nt)) (int i);
     let nt = put_endpoint i (e\<lparr>conn_status := - 1\<rparr>) nt;
     Some (nt\<lparr>reading := remove1 i (reading nt), reclosing := reclosing nt @ [i]\<rparr>) }"

text \<open>The loop up to \<open>uv_run\<close>, from the server \<open>init_tcp_server_t\<close> made.\<close>

definition start_work_event_loop :: "(nat \<Rightarrow> byte list) \<Rightarrow> int \<Rightarrow> tcp_server \<Rightarrow> net option" where
  "start_work_event_loop fresh num_endpoint_servers tcp_server = do {
     tcp_server \<leftarrow> init_endpoint_servers fresh num_endpoint_servers tcp_server;
     connect_to_provider_agent_long_live num_endpoint_servers
       \<lparr>srv = tcp_server, connecting = [], reading = [], reclosing = [], listens = 0, next_ptr = 0,
        open_handles = []\<rparr> }"

section \<open>The state machine\<close>

text \<open>What libuv may do next: answer a connect, report the end of a stream, run a close callback.\<close>

datatype net_event = Connect_Done nat int int | Agent_Eof nat | Close_Done nat

fun net_step :: "int \<Rightarrow> net_event \<Rightarrow> net \<Rightarrow> (int + net) option" where
  "net_step num (Connect_Done i status r) nt = do {
     guard (i \<in> set (connecting nt));
     c_after_connect_to_a_agent num i status r (nt\<lparr>connecting := remove1 i (connecting nt)\<rparr>) }"
| "net_step num (Agent_Eof i) nt = do { guard (i \<in> set (reading nt)); map_option Inr (agent_closed i nt) }"
| "net_step num (Close_Done i) nt = do {
     guard (i \<in> set (reclosing nt));
     e \<leftarrow> rd (endpoint_servers (srv nt)) (int i);
     h \<leftarrow> tcp_stream e;
     map_option Inr (reconnection_to_agent i
       (nt\<lparr>reclosing := remove1 i (reclosing nt), open_handles := removeAll h (open_handles nt)\<rparr>)) }"

inductive net_reach :: "int \<Rightarrow> (nat \<Rightarrow> byte list) \<Rightarrow> tcp_server \<Rightarrow> net_event list \<Rightarrow> net \<Rightarrow> bool"
  for num fresh tcp_server where
  start: "start_work_event_loop fresh num tcp_server = Some nt \<Longrightarrow> net_reach num fresh tcp_server [] nt"
| step: "net_reach num fresh tcp_server evs nt \<Longrightarrow> net_step num ev nt = Some (Inr nt') \<Longrightarrow>
    net_reach num fresh tcp_server (evs @ [ev]) nt'"

inductive_cases net_reach_emptyE: "net_reach num fresh tcp_server [] nt"

section \<open>The invariant\<close>

text \<open>The handles libuv has are those of the endpoints, one for each endpoint that has one.\<close>

definition streams_ok :: "net \<Rightarrow> bool" where
  "streams_ok nt \<longleftrightarrow>
     set (open_handles nt) = {h. \<exists>i < length (endpoint_servers (srv nt)). tcp_stream (endpoint_servers (srv nt) ! i) = Some h} \<and>
     (\<forall>h \<in> set (open_handles nt). h < next_ptr nt) \<and>
     (\<forall>i < length (endpoint_servers (srv nt)). \<forall>j < length (endpoint_servers (srv nt)).
        tcp_stream (endpoint_servers (srv nt) ! i) = tcp_stream (endpoint_servers (srv nt) ! j) \<longrightarrow>
        i = j \<or> tcp_stream (endpoint_servers (srv nt) ! i) = None)"

text \<open>
  Each endpoint is in exactly one phase (waiting for its connect callback, being read, or waiting for
  its close callback), its status says whether it is read, and the loop listens once the count of
  successful connects has reached the number of endpoints.
\<close>

definition net_inv :: "nat \<Rightarrow> net \<Rightarrow> bool" where
  "net_inv n nt \<longleftrightarrow> length (endpoint_servers (srv nt)) = n \<and>
     distinct (connecting nt @ reading nt @ reclosing nt) \<and>
     set (connecting nt @ reading nt @ reclosing nt) = {..<n} \<and>
     (\<forall>i < n. which (endpoint_servers (srv nt) ! i) = i \<and> tcp_stream (endpoint_servers (srv nt) ! i) \<noteq> None \<and>
        conn_status (endpoint_servers (srv nt) ! i) = (if i \<in> set (reading nt) then 0 else - 1)) \<and>
     streams_ok nt \<and>
     0 \<le> endpoint_connection_count (srv nt) \<and>
     listens nt = (if int n \<le> endpoint_connection_count (srv nt) then 1 else 0)"

lemma put_endpoint_fields [simp]:
  "endpoint_servers (srv (put_endpoint i e nt)) = (endpoint_servers (srv nt))[i := e]"
  "endpoint_connection_count (srv (put_endpoint i e nt)) = endpoint_connection_count (srv nt)"
  "connecting (put_endpoint i e nt) = connecting nt" "reading (put_endpoint i e nt) = reading nt"
  "reclosing (put_endpoint i e nt) = reclosing nt" "listens (put_endpoint i e nt) = listens nt"
  "next_ptr (put_endpoint i e nt) = next_ptr nt" "open_handles (put_endpoint i e nt) = open_handles nt"
  by (simp_all add: put_endpoint_def)

text \<open>What one call of \<open>make_connection_to_agent_\<close> does.\<close>

lemma make_connection:
  assumes "i < length (endpoint_servers (srv nt))" and "which (endpoint_servers (srv nt) ! i) = i"
    and "conn_status (endpoint_servers (srv nt) ! i) \<noteq> 0"
    and "set_option (tcp_stream (endpoint_servers (srv nt) ! i)) \<inter> set (open_handles nt) = {}" and "i \<notin> set (connecting nt)"
  obtains nt' where "make_connection_to_agent i nt = Some nt'"
    "endpoint_servers (srv nt') = (endpoint_servers (srv nt))
       [i := (endpoint_servers (srv nt) ! i)\<lparr>conn := Some (next_ptr nt), tcp_stream := Some (next_ptr nt + 1)\<rparr>]"
    "endpoint_connection_count (srv nt') = endpoint_connection_count (srv nt)"
    "connecting nt' = connecting nt @ [i]" "reading nt' = reading nt" "reclosing nt' = reclosing nt"
    "listens nt' = listens nt" "next_ptr nt' = next_ptr nt + 2"
    "set (open_handles nt') = insert (next_ptr nt + 1) (set (open_handles nt))"
proof -
  let ?e = "endpoint_servers (srv nt) ! i"
  have "free_handle (tcp_stream ?e) nt1 = Some nt1" if "open_handles nt1 = open_handles nt" for nt1
    using assms(4) that by (auto simp: free_handle_def guard_bind split: option.split)
  moreover have "free_connect_req i (conn ?e) nt1 = Some nt1" if "connecting nt1 = connecting nt" for nt1
    using assms(5) that by (auto simp: free_connect_req_def guard_bind split: option.split)
  ultimately obtain nt' where nt': "make_connection_to_agent i nt = Some nt'" and
    d: "nt' = (put_endpoint i (?e\<lparr>conn := Some (next_ptr nt), tcp_stream := Some (next_ptr nt + 1)\<rparr>)
        (nt\<lparr>next_ptr := next_ptr nt + 2, open_handles := (next_ptr nt + 1) # open_handles nt\<rparr>))
        \<lparr>connecting := connecting nt @ [i]\<rparr>"
    using assms by (simp add: make_connection_to_agent_def rd_nth Let_def)
  show thesis by (rule that [OF nt']) (simp_all add: d)
qed

text \<open>It is undefined when libuv still has the handle.\<close>

lemma make_connection_undefined:
  assumes "i < length (endpoint_servers (srv nt))" and "conn_status (endpoint_servers (srv nt) ! i) \<noteq> 0"
    and "tcp_stream (endpoint_servers (srv nt) ! i) = Some h" and "h \<in> set (open_handles nt)"
  shows "make_connection_to_agent i nt = None"
  using assms by (auto simp: make_connection_to_agent_def rd_nth Let_def free_handle_def free_connect_req_def guard_bind
      split: option.split)

lemma streams_ok_make:
  assumes ok: "streams_ok nt" and i: "i < length (endpoint_servers (srv nt))"
    and es: "endpoint_servers (srv nt') = (endpoint_servers (srv nt))
       [i := (endpoint_servers (srv nt) ! i)\<lparr>conn := Some (next_ptr nt), tcp_stream := Some (next_ptr nt + 1)\<rparr>]"
    and np: "next_ptr nt' = next_ptr nt + 2"
    and op: "set (open_handles nt') = insert (next_ptr nt + 1)
       (set (open_handles nt) - set_option (tcp_stream (endpoint_servers (srv nt) ! i)))"
  shows "streams_ok nt'"
proof -
  let ?es = "endpoint_servers (srv nt)"
  have a: "h \<in> set (open_handles nt) \<and> h < next_ptr nt" if "j < length ?es" "tcp_stream (?es ! j) = Some h" for j h
    using ok that unfolding streams_ok_def by blast
  have b: "tcp_stream (?es ! j) \<noteq> tcp_stream (?es ! i)" if "j < length ?es" "j \<noteq> i" "tcp_stream (?es ! j) \<noteq> None" for j
    using ok that i unfolding streams_ok_def by (metis (no_types))
  have c: "h \<in> set (open_handles nt') \<and> h < next_ptr nt'"
    if "j < length ?es" "j \<noteq> i" "tcp_stream (?es ! j) = Some h" for j h
    using a [OF that(1,3)] b [OF that(1,2)] that(3) by (auto simp: op np)
  let ?l = "?es[i := (?es ! i)\<lparr>conn := Some (next_ptr nt), tcp_stream := Some (next_ptr nt + 1)\<rparr>]"
  have owner: "\<exists>j < length ?es. tcp_stream (?es ! j) = Some h" if "h \<in> set (open_handles nt)" for h
    using ok that unfolding streams_ok_def by blast
  show ?thesis
    unfolding streams_ok_def es
  proof (intro conjI allI impI)
    show "set (open_handles nt') = {h. \<exists>j < length ?l. tcp_stream (?l ! j) = Some h}"
    proof (intro equalityI subsetI)
      fix h
      assume "h \<in> set (open_handles nt')"
      then consider "h = next_ptr nt + 1" | "h \<in> set (open_handles nt)" "tcp_stream (?es ! i) \<noteq> Some h"
        unfolding op by auto
      then show "h \<in> {h. \<exists>j < length ?l. tcp_stream (?l ! j) = Some h}"
      proof cases
        case 1
        then show ?thesis using i by (auto intro!: exI [of _ i])
      next
        case 2
        then obtain j where "j < length ?es" "tcp_stream (?es ! j) = Some h" using owner by blast
        moreover from this 2(2) have "i \<noteq> j" by blast
        ultimately show ?thesis by (intro CollectI exI [of _ j]) simp
      qed
    next
      fix h
      assume "h \<in> {h. \<exists>j < length ?l. tcp_stream (?l ! j) = Some h}"
      then obtain j where "j < length ?l" "tcp_stream (?l ! j) = Some h" by blast
      then show "h \<in> set (open_handles nt')"
        using c [of j h] by (cases "j = i") (simp_all add: op nth_list_update split: if_splits)
    qed
    show "\<forall>h \<in> set (open_handles nt'). h < next_ptr nt'"
    proof -
      have "\<forall>h \<in> set (open_handles nt). h < next_ptr nt" using ok unfolding streams_ok_def by blast
      then show ?thesis unfolding op np by auto
    qed
  next
    fix j k
    let ?l = "?es[i := (?es ! i)\<lparr>conn := Some (next_ptr nt), tcp_stream := Some (next_ptr nt + 1)\<rparr>]"
    assume "j < length ?l" "k < length ?l" and e: "tcp_stream (?l ! j) = tcp_stream (?l ! k)"
    then have jk: "j < length ?es" "k < length ?es" by simp_all
    have new: "tcp_stream (?es ! m) \<noteq> Some (next_ptr nt + 1)" if "m < length ?es" for m
      using a [OF that] by force
    have old: "tcp_stream (?es ! j) = tcp_stream (?es ! k) \<Longrightarrow> j = k \<or> tcp_stream (?es ! j) = None"
      using ok jk by (simp add: streams_ok_def)
    show "j = k \<or> tcp_stream (?l ! j) = None"
      using e old new [OF jk(1)] new [OF jk(2)] jk i
      by (auto simp: nth_list_update split: if_splits)
  qed
qed

text \<open>The start: the first \<open>k\<close> endpoints are waiting for their connect callback.\<close>

definition started :: "nat \<Rightarrow> nat \<Rightarrow> net \<Rightarrow> bool" where
  "started n k nt \<longleftrightarrow> length (endpoint_servers (srv nt)) = n \<and>
     connecting nt = [0..<k] \<and> reading nt = [] \<and> reclosing nt = [] \<and>
     (\<forall>i < n. which (endpoint_servers (srv nt) ! i) = i \<and> conn_status (endpoint_servers (srv nt) ! i) = - 1 \<and>
        (tcp_stream (endpoint_servers (srv nt) ! i) \<noteq> None \<longleftrightarrow> i < k)) \<and>
     streams_ok nt \<and> endpoint_connection_count (srv nt) = 0 \<and> listens nt = 0"

lemma connect_loop_started:
  assumes "started n k nt" and "k \<le> n"
  shows "\<exists>nt'. connect_loop [k..<n] nt = Some nt' \<and> started n n nt'"
  using assms
proof (induction "n - k" arbitrary: k nt)
  case 0
  then show ?case by simp
next
  case (Suc d)
  then have k: "k < n" by simp
  let ?e = "endpoint_servers (srv nt) ! k"
  have e: "k < length (endpoint_servers (srv nt))" "which ?e = k" "conn_status ?e \<noteq> 0" "tcp_stream ?e = None"
    using Suc.prems k by (auto simp: started_def)
  obtain nt1 where m: "make_connection_to_agent k nt = Some nt1"
    "endpoint_servers (srv nt1) = (endpoint_servers (srv nt))
       [k := ?e\<lparr>conn := Some (next_ptr nt), tcp_stream := Some (next_ptr nt + 1)\<rparr>]"
    "endpoint_connection_count (srv nt1) = endpoint_connection_count (srv nt)"
    "connecting nt1 = connecting nt @ [k]" "reading nt1 = reading nt" "reclosing nt1 = reclosing nt"
    "listens nt1 = listens nt" "next_ptr nt1 = next_ptr nt + 2"
    "set (open_handles nt1) = insert (next_ptr nt + 1) (set (open_handles nt))"
    by (rule make_connection [OF e(1-3)]) (use e(4) Suc.prems in \<open>simp_all add: started_def\<close>)
  have s: "streams_ok nt1"
    by (rule streams_ok_make [OF _ e(1) m(2,8)]) (use Suc.prems m(9) e(4) in \<open>simp_all add: started_def\<close>)
  have "started n (Suc k) nt1"
    using Suc.prems s m(3-7) e(4) k unfolding started_def m(2)
    by (auto simp: nth_list_update less_Suc_eq)
  moreover have "d = n - Suc k" using Suc.hyps(2) by simp
  ultimately obtain nt' where "connect_loop [Suc k..<n] nt1 = Some nt'" "started n n nt'"
    using Suc.hyps(1) [of "Suc k" nt1] k by auto
  with m(1) k show ?case by (simp add: upt_conv_Cons)
qed

lemma start_defined:
  assumes "int n \<le> MAXIMUM_ENDPOINT_SERVERS"
  shows "\<exists>nt. start_work_event_loop fresh (int n) ts = Some nt"
proof -
  obtain ts' where ts': "init_endpoint_servers fresh (int n) ts = Some ts'" and
    "endpoint_servers ts' = map (\<lambda>i. init_endpoint_server (fresh i) i) [0..<n]" "endpoint_connection_count ts' = 0"
    using assms by (simp add: init_endpoint_servers_def)
  then have "started n 0 \<lparr>srv = ts', connecting = [], reading = [], reclosing = [], listens = 0, next_ptr = 0,
      open_handles = []\<rparr>"
    by (simp add: started_def streams_ok_def init_endpoint_server_def)
  from connect_loop_started [OF this] ts' show ?thesis
    by (auto simp: start_work_event_loop_def connect_to_provider_agent_long_live_def)
qed

lemma start_started:
  assumes "start_work_event_loop fresh (int n) ts = Some nt"
  shows "started n n nt"
proof -
  obtain ts' where ts': "init_endpoint_servers fresh (int n) ts = Some ts'" and
    c: "connect_to_provider_agent_long_live (int n) \<lparr>srv = ts', connecting = [], reading = [], reclosing = [], listens = 0, next_ptr = 0,
        open_handles = []\<rparr> = Some nt" (is "connect_to_provider_agent_long_live _ ?nt0 = _")
    using assms by (auto simp: start_work_event_loop_def bind_Some_iff)
  have "endpoint_servers ts' = map (\<lambda>i. init_endpoint_server (fresh i) i) [0..<n]" "endpoint_connection_count ts' = 0"
    using ts' by (auto simp: init_endpoint_servers_def guard_bind split: if_splits)
  then have "started n 0 ?nt0"
    by (simp add: started_def streams_ok_def init_endpoint_server_def)
  from connect_loop_started [OF this] c show ?thesis
    by (simp add: connect_to_provider_agent_long_live_def)
qed

lemma started_inv:
  assumes "started n n nt" and "0 < n"
  shows "net_inv n nt"
  using assms by (auto simp: started_def net_inv_def)

lemma net_invD:
  assumes "net_inv n nt" and "i < n"
  shows "which (endpoint_servers (srv nt) ! i) = i" and "i < length (endpoint_servers (srv nt))"
    and "\<exists>h. tcp_stream (endpoint_servers (srv nt) ! i) = Some h"
    and "conn_status (endpoint_servers (srv nt) ! i) = (if i \<in> set (reading nt) then 0 else - 1)"
  using assms by (auto simp: net_inv_def)

lemma net_inv_phase:
  assumes "net_inv n nt"
  shows "i \<in> set (connecting nt) \<Longrightarrow> i < n \<and> i \<notin> set (reading nt) \<and> i \<notin> set (reclosing nt)"
    and "i \<in> set (reading nt) \<Longrightarrow> i < n \<and> i \<notin> set (connecting nt) \<and> i \<notin> set (reclosing nt)"
    and "i \<in> set (reclosing nt) \<Longrightarrow> i < n \<and> i \<notin> set (connecting nt) \<and> i \<notin> set (reading nt)"
  using assms by (auto simp: net_inv_def)

text \<open>Starting a new connect for an endpoint that was taken out of its phase.\<close>

lemma make_connection_inv:
  assumes inv: "net_inv n nt" and nt1: "srv nt1 = srv nt" "reading nt1 = reading nt" "listens nt1 = listens nt"
      "next_ptr nt1 = next_ptr nt"
    and i: "i < n" "i \<notin> set (reading nt)"
    and ph: "distinct (connecting nt1 @ reclosing nt1)" "set (connecting nt1 @ reclosing nt1) = set (connecting nt @ reclosing nt) - {i}"
    and op: "set (open_handles nt1) = set (open_handles nt) - set_option (tcp_stream (endpoint_servers (srv nt) ! i))"
  obtains nt' where "make_connection_to_agent i nt1 = Some nt'" "net_inv n nt'" "connecting nt' = connecting nt1 @ [i]"
    "reading nt' = reading nt1" "endpoint_connection_count (srv nt') = endpoint_connection_count (srv nt)"
proof -
  let ?es = "endpoint_servers (srv nt)"
  note d = net_invD [OF inv i(1)]
  have e: "i < length (endpoint_servers (srv nt1))" "which (endpoint_servers (srv nt1) ! i) = i"
    "conn_status (endpoint_servers (srv nt1) ! i) \<noteq> 0"
    using d i(2) by (simp_all add: nt1)
  obtain nt' where m: "make_connection_to_agent i nt1 = Some nt'"
    "endpoint_servers (srv nt') = (endpoint_servers (srv nt1))
       [i := (endpoint_servers (srv nt1) ! i)\<lparr>conn := Some (next_ptr nt1), tcp_stream := Some (next_ptr nt1 + 1)\<rparr>]"
    "endpoint_connection_count (srv nt') = endpoint_connection_count (srv nt1)"
    "connecting nt' = connecting nt1 @ [i]" "reading nt' = reading nt1" "reclosing nt' = reclosing nt1"
    "listens nt' = listens nt1" "next_ptr nt' = next_ptr nt1 + 2"
    "set (open_handles nt') = insert (next_ptr nt1 + 1) (set (open_handles nt1))"
    by (rule make_connection [OF e]) (use op ph nt1 in auto)
  have s: "streams_ok nt'"
    by (rule streams_ok_make [of nt i]) (use inv m d op nt1 in \<open>simp_all add: net_inv_def\<close>)
  have "set (connecting nt1) \<union> set (reclosing nt1) = set (connecting nt) \<union> set (reclosing nt) - {i}"
    "distinct (connecting nt1)" "distinct (reclosing nt1)" "set (connecting nt1) \<inter> set (reclosing nt1) = {}"
    using ph by auto
  moreover have "set (connecting nt) \<union> set (reading nt) \<union> set (reclosing nt) = {..<n}"
    "set (connecting nt) \<inter> set (reading nt) = {}" "set (reading nt) \<inter> set (reclosing nt) = {}" "distinct (reading nt)"
    using inv by (auto simp: net_inv_def)
  ultimately have "distinct (connecting nt' @ reading nt' @ reclosing nt')"
    "set (connecting nt' @ reading nt' @ reclosing nt') = {..<n}"
    using i unfolding m nt1 by auto
  then have "net_inv n nt'"
    using inv s m i nt1 unfolding net_inv_def m(2) by (auto simp: nth_list_update)
  with m show thesis by (intro that [of nt']) (simp_all add: nt1)
qed

section \<open>The steps\<close>

lemma streams_ok_put:
  assumes "streams_ok nt" and "tcp_stream e = tcp_stream (endpoint_servers (srv nt) ! i)"
    and "endpoint_servers (srv nt') = (endpoint_servers (srv nt))[i := e]"
    and "open_handles nt' = open_handles nt" "next_ptr nt' = next_ptr nt"
  shows "streams_ok nt'"
proof -
  have "tcp_stream ((endpoint_servers (srv nt))[i := e] ! j) = tcp_stream (endpoint_servers (srv nt) ! j)" for j
    using assms(2) by (cases "i < length (endpoint_servers (srv nt))") (auto simp: nth_list_update list_update_beyond)
  then show ?thesis using assms(1) by (simp add: streams_ok_def assms(3-5))
qed

lemma connected_step:
  assumes inv: "net_inv n nt" and i: "i \<in> set (connecting nt)" and c: "int_ok (endpoint_connection_count (srv nt) + 1)"
  obtains nt' where "net_step (int n) (Connect_Done i 0 r) nt =
      Some (if endpoint_connection_count (srv nt) + 1 = int n \<and> r \<noteq> 0 then Inl (- 1) else Inr nt')"
    "net_inv n nt'" "reading nt' = reading nt @ [i]"
    "endpoint_connection_count (srv nt') = endpoint_connection_count (srv nt) + 1"
proof -
  let ?e = "endpoint_servers (srv nt) ! i" and ?count = "endpoint_connection_count (srv nt) + 1"
  note ph = net_inv_phase(1) [OF inv i]
  note d = net_invD [OF inv, of i]
  obtain h where h: "tcp_stream ?e = Some h" using d(3) ph by blast
  define nt1 where "nt1 = put_endpoint i (?e\<lparr>conn_status := 0\<rparr>) (nt\<lparr>connecting := remove1 i (connecting nt)\<rparr>)"
  define nt' where "nt' = nt1\<lparr>reading := reading nt @ [i],
    srv := (srv nt1)\<lparr>endpoint_connection_count := ?count\<rparr>,
    listens := (if ?count = int n then listens nt + 1 else listens nt)\<rparr>"
  have st: "net_step (int n) (Connect_Done i 0 r) nt =
      Some (if ?count = int n \<and> r \<noteq> 0 then Inl (- 1) else Inr nt')"
    using i d(2) ph h c
    by (simp add: c_after_connect_to_a_agent_def rd_nth guard_bind start_listen_def nt'_def nt1_def Let_def)
  have es: "endpoint_servers (srv nt') = (endpoint_servers (srv nt))[i := ?e\<lparr>conn_status := 0\<rparr>]"
    by (simp add: nt'_def nt1_def)
  have s: "streams_ok nt'"
    by (rule streams_ok_put [OF _ _ es]) (use inv in \<open>simp_all add: net_inv_def nt'_def nt1_def\<close>)
  have "connecting nt' = remove1 i (connecting nt)" "reading nt' = reading nt @ [i]" "reclosing nt' = reclosing nt"
    by (simp_all add: nt'_def nt1_def)
  moreover have dd: "distinct (connecting nt)" using inv by (simp add: net_inv_def)
  ultimately have "distinct (connecting nt' @ reading nt' @ reclosing nt')"
    "set (connecting nt' @ reading nt' @ reclosing nt') = {..<n}"
    using inv ph i set_remove1_eq [OF dd, of i] distinct_remove1 [OF dd, of i] by (auto simp: net_inv_def)
  moreover have "listens nt' = (if int n \<le> endpoint_connection_count (srv nt') then 1 else 0)"
    using inv by (auto simp: net_inv_def nt'_def)
  ultimately have "net_inv n nt'"
    using inv s ph unfolding net_inv_def es by (auto simp: nth_list_update nt'_def nt1_def)
  with st show thesis by (rule that) (simp_all add: nt'_def nt1_def)
qed

lemma failed_step:
  assumes inv: "net_inv n nt" and i: "i \<in> set (connecting nt)" and s: "status \<noteq> 0"
  shows "net_step num (Connect_Done i status r) nt = None"
proof -
  note ph = net_inv_phase(1) [OF inv i]
  note d = net_invD [OF inv, of i]
  obtain h where h: "tcp_stream (endpoint_servers (srv nt) ! i) = Some h" using d(3) ph by blast
  then have o: "h \<in> set (open_handles nt)" using inv ph d(2) by (auto simp: net_inv_def streams_ok_def)
  have "make_connection_to_agent i (nt\<lparr>connecting := remove1 i (connecting nt)\<rparr>) = None"
    by (rule make_connection_undefined) (use d ph h o in simp_all)
  then show ?thesis using i d ph s by (simp add: c_after_connect_to_a_agent_def rd_nth guard_bind)
qed

lemma eof_step:
  assumes inv: "net_inv n nt" and i: "i \<in> set (reading nt)"
  obtains nt' where "net_step num (Agent_Eof i) nt = Some (Inr nt')" "net_inv n nt'"
    "i \<in> set (reclosing nt')" "reading nt' = remove1 i (reading nt)"
    "endpoint_connection_count (srv nt') = endpoint_connection_count (srv nt)"
proof -
  let ?e = "endpoint_servers (srv nt) ! i"
  note ph = net_inv_phase(2) [OF inv i]
  note d = net_invD [OF inv, of i]
  define nt' where "nt' = (put_endpoint i (?e\<lparr>conn_status := - 1\<rparr>) nt)\<lparr>reading := remove1 i (reading nt),
    reclosing := reclosing nt @ [i]\<rparr>"
  have st: "net_step num (Agent_Eof i) nt = Some (Inr nt')"
    using i d(2) ph by (simp add: agent_closed_def rd_nth guard_bind nt'_def Let_def)
  have es: "endpoint_servers (srv nt') = (endpoint_servers (srv nt))[i := ?e\<lparr>conn_status := - 1\<rparr>]"
    by (simp add: nt'_def)
  have s: "streams_ok nt'"
    by (rule streams_ok_put [OF _ _ es]) (use inv in \<open>simp_all add: net_inv_def nt'_def\<close>)
  have dd: "distinct (reading nt)" using inv by (simp add: net_inv_def)
  have "connecting nt' = connecting nt" "reading nt' = remove1 i (reading nt)" "reclosing nt' = reclosing nt @ [i]"
    by (simp_all add: nt'_def)
  then have "distinct (connecting nt' @ reading nt' @ reclosing nt')"
    "set (connecting nt' @ reading nt' @ reclosing nt') = {..<n}"
    using inv ph i set_remove1_eq [OF dd, of i] distinct_remove1 [OF dd, of i] by (auto simp: net_inv_def)
  then have "net_inv n nt'"
    using inv s ph set_remove1_eq [OF dd, of i] unfolding net_inv_def es by (auto simp: nth_list_update nt'_def)
  with st show thesis by (rule that) (simp_all add: nt'_def)
qed

lemma close_step:
  assumes inv: "net_inv n nt" and i: "i \<in> set (reclosing nt)"
  obtains nt' where "net_step num (Close_Done i) nt = Some (Inr nt')" "net_inv n nt'"
    "i \<in> set (connecting nt')" "reading nt' = reading nt"
    "endpoint_connection_count (srv nt') = endpoint_connection_count (srv nt)"
proof -
  note ph = net_inv_phase(3) [OF inv i]
  note d = net_invD [OF inv, of i]
  have dd: "distinct (reclosing nt)" using inv by (simp add: net_inv_def)
  obtain h where h: "tcp_stream (endpoint_servers (srv nt) ! i) = Some h" using d(3) ph by blast
  let ?nt1 = "nt\<lparr>reclosing := remove1 i (reclosing nt), open_handles := removeAll h (open_handles nt)\<rparr>"
  have p: "distinct (connecting ?nt1 @ reclosing ?nt1)"
    "set (connecting ?nt1 @ reclosing ?nt1) = set (connecting nt @ reclosing nt) - {i}"
    using ph inv set_remove1_eq [OF dd] distinct_remove1 [OF dd] by (auto simp: net_inv_def)
  have o: "set (open_handles ?nt1) = set (open_handles nt) - set_option (tcp_stream (endpoint_servers (srv nt) ! i))"
    using h by auto
  obtain nt' where m: "make_connection_to_agent i ?nt1 = Some nt'" "net_inv n nt'" "connecting nt' = connecting ?nt1 @ [i]"
    "reading nt' = reading ?nt1" "endpoint_connection_count (srv nt') = endpoint_connection_count (srv nt)"
    by (rule make_connection_inv [OF inv _ _ _ _ _ _ p o])
       (use ph in \<open>simp_all\<close>)
  have st: "net_step num (Close_Done i) nt = Some (Inr nt')"
    using i d ph h m(1) by (simp add: reconnection_to_agent_def rd_nth guard_bind)
  show thesis by (rule that [OF st m(2)]) (simp_all add: m(3-5))
qed

lemma net_step_inv:
  assumes "net_inv n nt" and "net_step (int n) ev nt = Some (Inr nt')"
  shows "net_inv n nt'"
proof (cases ev)
  case (Connect_Done i status r)
  show ?thesis
  proof (cases "status = 0")
    case True
    then have "i \<in> set (connecting nt)" "int_ok (endpoint_connection_count (srv nt) + 1)"
      using assms Connect_Done
      by (auto simp: guard_bind c_after_connect_to_a_agent_def bind_Some_iff Let_def split: if_splits)
    from connected_step [OF assms(1) this] obtain nt1 where "net_step (int n) (Connect_Done i 0 r) nt =
        Some (if endpoint_connection_count (srv nt) + 1 = int n \<and> r \<noteq> 0 then Inl (- 1) else Inr nt1)"
      "net_inv n nt1" by blast
    with assms(2) Connect_Done True show ?thesis by (auto simp del: net_step.simps split: if_splits)
  next
    case False
    have i: "i \<in> set (connecting nt)" using assms(2) Connect_Done by (auto simp: guard_bind split: if_splits)
    from failed_step [OF assms(1) i False, of "int n" r] assms(2) Connect_Done show ?thesis by (simp del: net_step.simps)
  qed
next
  case (Agent_Eof i)
  have i: "i \<in> set (reading nt)" using assms(2) Agent_Eof by (auto simp: guard_bind split: if_splits)
  from eof_step [OF assms(1) i, of "int n"] obtain nt1 where
    "net_step (int n) (Agent_Eof i) nt = Some (Inr nt1)" "net_inv n nt1" by blast
  with assms(2) Agent_Eof show ?thesis by (simp del: net_step.simps)
next
  case (Close_Done i)
  have i: "i \<in> set (reclosing nt)" using assms(2) Close_Done by (auto simp: guard_bind split: if_splits)
  from close_step [OF assms(1) i, of "int n"] obtain nt1 where
    "net_step (int n) (Close_Done i) nt = Some (Inr nt1)" "net_inv n nt1" by blast
  with assms(2) Close_Done show ?thesis by (simp del: net_step.simps)
qed

lemma net_reach_inv:
  assumes "net_reach (int n) fresh ts evs nt" and "0 < n"
  shows "net_inv n nt"
  using assms
proof (induction rule: net_reach.induct)
  case (start nt)
  then show ?case using started_inv [OF start_started] by simp
next
  case (step evs nt ev nt')
  then show ?case using net_step_inv by blast
qed

text \<open>What every event does to a reachable state, in one rule.\<close>

lemma net_event_cases:
  assumes inv: "net_inv n nt" and st: "net_step (int n) ev nt = Some (Inr nt')"
  obtains (connected) i r where "ev = Connect_Done i 0 r" "reading nt' = reading nt @ [i]"
      "endpoint_connection_count (srv nt') = endpoint_connection_count (srv nt) + 1"
    | (eof) i where "ev = Agent_Eof i" "endpoint_connection_count (srv nt') = endpoint_connection_count (srv nt)"
    | (closed) i where "ev = Close_Done i" "reading nt' = reading nt"
      "endpoint_connection_count (srv nt') = endpoint_connection_count (srv nt)"
proof (cases ev)
  case (Connect_Done i status r)
  have i: "i \<in> set (connecting nt)" using st Connect_Done by (auto simp: guard_bind split: if_splits)
  show thesis
  proof (cases "status = 0")
    case True
    then have "int_ok (endpoint_connection_count (srv nt) + 1)"
      using st Connect_Done
      by (auto simp: guard_bind c_after_connect_to_a_agent_def bind_Some_iff Let_def split: if_splits)
    from connected_step [OF inv i this, of r] obtain nt1 where
      "net_step (int n) (Connect_Done i 0 r) nt =
        Some (if endpoint_connection_count (srv nt) + 1 = int n \<and> r \<noteq> 0 then Inl (- 1) else Inr nt1)"
      "reading nt1 = reading nt @ [i]"
      "endpoint_connection_count (srv nt1) = endpoint_connection_count (srv nt) + 1" by blast
    with st Connect_Done True show thesis
      by (intro connected [of i r]) (auto simp del: net_step.simps split: if_splits)
  next
    case False
    from failed_step [OF inv i False, of "int n" r] st Connect_Done show thesis by (simp del: net_step.simps)
  qed
next
  case (Agent_Eof i)
  have i: "i \<in> set (reading nt)" using st Agent_Eof by (auto simp: guard_bind split: if_splits)
  from eof_step [OF inv i, of "int n"] obtain nt1 where
    "net_step (int n) (Agent_Eof i) nt = Some (Inr nt1)"
    "endpoint_connection_count (srv nt1) = endpoint_connection_count (srv nt)" by metis
  with st Agent_Eof show thesis by (intro eof [of i]) (simp_all del: net_step.simps)
next
  case (Close_Done i)
  have i: "i \<in> set (reclosing nt)" using st Close_Done by (auto simp: guard_bind split: if_splits)
  from close_step [OF inv i, of "int n"] obtain nt1 where
    "net_step (int n) (Close_Done i) nt = Some (Inr nt1)" "reading nt1 = reading nt"
    "endpoint_connection_count (srv nt1) = endpoint_connection_count (srv nt)" by metis
  with st Close_Done show thesis by (intro closed [of i]) (simp_all del: net_step.simps)
qed

fun connect_succeeded :: "net_event \<Rightarrow> bool" where
  "connect_succeeded (Connect_Done i status r) = (status = 0)"
| "connect_succeeded ev = False"

fun agent_eof :: "net_event \<Rightarrow> bool" where
  "agent_eof (Agent_Eof i) = True"
| "agent_eof ev = False"

lemma count_connects:
  assumes "net_reach (int n) fresh ts evs nt" and "0 < n"
  shows "endpoint_connection_count (srv nt) = int (length (filter connect_succeeded evs))"
  using assms
proof (induction rule: net_reach.induct)
  case (start nt)
  then show ?case using start_started by (simp add: started_def)
next
  case (step evs nt ev nt')
  from net_reach_inv [OF step.hyps(1) step.prems] step.hyps(2) show ?case
    using step.IH [OF step.prems] by (cases rule: net_event_cases) simp_all
qed

lemma count_without_eof:
  assumes "net_reach (int n) fresh ts evs nt" and "0 < n" and "\<not> list_ex agent_eof evs"
  shows "endpoint_connection_count (srv nt) = int (length (reading nt))"
  using assms
proof (induction rule: net_reach.induct)
  case (start nt)
  then show ?case using start_started by (simp add: started_def)
next
  case (step evs nt ev nt')
  from net_reach_inv [OF step.hyps(1) step.prems(1)] step.hyps(2) show ?case
    using step.IH step.prems by (cases rule: net_event_cases) simp_all
qed

section \<open>Properties\<close>

text \<open>C13. In every reachable state of the connections of a loop each provider agent is in exactly one
  phase (connect callback due, being read, close callback due); its endpoint has its index, status 0
  exactly while it is read, and a handle of its own; the handles libuv has are exactly these, so none
  is leaked by a reconnect; and the loop has listened at most once, namely once the count of successful
  connects has reached the number of agents.\<close>

theorem endpoint_phases:
  assumes "net_reach (int n) fresh tcp_server evs nt" and "0 < n"
  shows "distinct (connecting nt @ reading nt @ reclosing nt) \<and>
    set (connecting nt @ reading nt @ reclosing nt) = {..<n} \<and>
    length (endpoint_servers (srv nt)) = n \<and>
    (\<forall>i < n. which (endpoint_servers (srv nt) ! i) = i \<and>
       conn_status (endpoint_servers (srv nt) ! i) = (if i \<in> set (reading nt) then 0 else - 1) \<and>
       tcp_stream (endpoint_servers (srv nt) ! i) \<in> Some ` set (open_handles nt)) \<and>
    inj_on (\<lambda>i. tcp_stream (endpoint_servers (srv nt) ! i)) {..<n} \<and>
    Some ` set (open_handles nt) = (\<lambda>i. tcp_stream (endpoint_servers (srv nt) ! i)) ` {..<n} \<and>
    listens nt = (if int n \<le> endpoint_connection_count (srv nt) then 1 else 0)"
proof -
  note inv = net_reach_inv [OF assms]
  have l: "length (endpoint_servers (srv nt)) = n" using inv by (simp add: net_inv_def)
  have h: "tcp_stream (endpoint_servers (srv nt) ! i) \<noteq> None" if "i < n" for i
    using inv that by (simp add: net_inv_def)
  have s: "streams_ok nt" using inv by (simp add: net_inv_def)
  have a: "Some ` set (open_handles nt) = (\<lambda>i. tcp_stream (endpoint_servers (srv nt) ! i)) ` {..<n}"
  proof (intro equalityI subsetI)
    fix x
    assume "x \<in> Some ` set (open_handles nt)"
    then obtain k where k: "x = Some k" "k \<in> set (open_handles nt)" by blast
    then have "\<exists>i < n. tcp_stream (endpoint_servers (srv nt) ! i) = Some k" using s l by (simp add: streams_ok_def)
    then show "x \<in> (\<lambda>i. tcp_stream (endpoint_servers (srv nt) ! i)) ` {..<n}" unfolding k(1) by (metis imageI lessThan_iff)
  next
    fix x
    assume "x \<in> (\<lambda>i. tcp_stream (endpoint_servers (srv nt) ! i)) ` {..<n}"
    then obtain i where i: "i < n" "x = tcp_stream (endpoint_servers (srv nt) ! i)" by blast
    then obtain k where k: "tcp_stream (endpoint_servers (srv nt) ! i) = Some k" using h by blast
    then have "k \<in> set (open_handles nt)" using s l i(1) by (auto simp: streams_ok_def)
    then show "x \<in> Some ` set (open_handles nt)" unfolding i(2) k by simp
  qed
  have b: "inj_on (\<lambda>i. tcp_stream (endpoint_servers (srv nt) ! i)) {..<n}"
    using s h l by (auto simp: streams_ok_def inj_on_def)
  have c: "tcp_stream (endpoint_servers (srv nt) ! i) \<in> Some ` set (open_handles nt)" if "i < n" for i
    using that unfolding a by blast
  show ?thesis using inv a b c by (simp add: net_inv_def)
qed

text \<open>C35. Whatever phase a provider agent is in, the callback it waits for is defined and leads to the
  next phase: a connect that succeeds to reading, the end of the stream to a close, the close to another
  connect. A connect that fails is the exception: the callback frees the handle it connects with, which
  libuv still has, and is undefined.\<close>

theorem endpoint_callbacks:
  assumes "net_reach (int n) fresh tcp_server evs nt" and "i < n" and "int_ok (endpoint_connection_count (srv nt) + 1)"
  shows "i \<in> set (connecting nt) \<and>
      (\<exists>nt'. net_step (int n) (Connect_Done i 0 0) nt = Some (Inr nt') \<and> i \<in> set (reading nt')) \<and>
      (\<forall>status r. status \<noteq> 0 \<longrightarrow> net_step (int n) (Connect_Done i status r) nt = None) \<or>
    i \<in> set (reading nt) \<and> (\<exists>nt'. net_step (int n) (Agent_Eof i) nt = Some (Inr nt') \<and> i \<in> set (reclosing nt')) \<or>
    i \<in> set (reclosing nt) \<and> (\<exists>nt'. net_step (int n) (Close_Done i) nt = Some (Inr nt') \<and> i \<in> set (connecting nt'))"
proof -
  have "0 < n" using assms(2) by simp
  note inv = net_reach_inv [OF assms(1) this]
  consider "i \<in> set (connecting nt)" | "i \<in> set (reading nt)" | "i \<in> set (reclosing nt)"
    using inv assms(2) by (auto simp: net_inv_def)
  then show ?thesis
  proof cases
    case 1
    obtain nt1 where s: "net_step (int n) (Connect_Done i 0 0) nt =
        Some (if endpoint_connection_count (srv nt) + 1 = int n \<and> (0 :: int) \<noteq> 0 then Inl (- 1) else Inr nt1)"
      "reading nt1 = reading nt @ [i]"
      by (rule connected_step [OF inv 1 assms(3)])
    from s(1) have "net_step (int n) (Connect_Done i 0 0) nt = Some (Inr nt1)" by (simp del: net_step.simps)
    moreover from s(2) have "i \<in> set (reading nt1)" by simp
    ultimately show ?thesis using 1 failed_step [OF inv 1] by blast
  next
    case 2
    with eof_step [OF inv 2, of "int n"] show ?thesis by blast
  next
    case 3
    with close_step [OF inv 3, of "int n"] show ?thesis by blast
  qed
qed

text \<open>C14. A loop listens once as many connects have succeeded as there are provider agents, and not
  before; and if no provider agent has closed its connection, a loop that listens is reading from every
  one of them.\<close>

theorem listens_when_connected:
  assumes "net_reach (int n) fresh tcp_server evs nt" and "0 < n"
  shows "listens nt = (if n \<le> length (filter connect_succeeded evs) then 1 else 0) \<and>
    (\<not> list_ex agent_eof evs \<and> listens nt = 1 \<longrightarrow> set (reading nt) = {..<n} \<and> connecting nt = [] \<and> reclosing nt = [])"
proof -
  note inv = net_reach_inv [OF assms]
  have d: "distinct (reading nt)" "set (reading nt) \<subseteq> {..<n}"
    "set (connecting nt) \<inter> set (reading nt) = {}" "set (reclosing nt) \<inter> set (reading nt) = {}"
    "set (connecting nt) \<subseteq> {..<n}" "set (reclosing nt) \<subseteq> {..<n}"
    using inv by (auto simp: net_inv_def)
  have l: "listens nt = (if int n \<le> endpoint_connection_count (srv nt) then 1 else 0)"
    using inv by (simp add: net_inv_def)
  have all: "set (reading nt) = {..<n} \<and> connecting nt = [] \<and> reclosing nt = []"
    if e: "\<not> list_ex agent_eof evs" "listens nt = 1"
  proof -
    have "int n \<le> int (length (reading nt))"
      using l e(2) unfolding count_without_eof [OF assms e(1)] by presburger
    then have "card {..<n} \<le> card (set (reading nt))" unfolding distinct_card [OF d(1)] by simp
    then have "set (reading nt) = {..<n}" by (rule card_seteq [OF finite_lessThan d(2)])
    moreover from this have "set (connecting nt) \<subseteq> set (reading nt)" "set (reclosing nt) \<subseteq> set (reading nt)"
      using d(5,6) by simp_all
    then have "set (connecting nt) = {}" "set (reclosing nt) = {}" using d(3,4) by (simp_all only: Int_absorb2)
    ultimately show ?thesis by simp
  qed
  show ?thesis using all l unfolding count_connects [OF assms] by simp
qed

text \<open>The count of successful connects is not taken back when a connection ends: with two provider
  agents a loop can listen although it never was connected to one of them.\<close>

theorem listens_too_early:
  "\<exists>nt. net_reach 2 fresh (init_tcp_server_t block tid)
      [Connect_Done 0 0 0, Agent_Eof 0, Close_Done 0, Connect_Done 0 0 0] nt \<and>
    listens nt = 1 \<and> reading nt = [0] \<and> conn_status (endpoint_servers (srv nt) ! 1) = - 1"
proof -
  let ?ts = "init_tcp_server_t block tid"
  obtain nt0 where nt0: "start_work_event_loop fresh 2 ?ts = Some nt0"
    using start_defined [of 2 fresh ?ts] by (auto simp: MAXIMUM_ENDPOINT_SERVERS_def)
  then have s: "started 2 2 nt0" using start_started [of fresh 2] by simp
  have r0: "net_reach 2 fresh ?ts [] nt0" by (rule net_reach.start [OF nt0])
  have i0: "net_inv 2 nt0" and c0: "connecting nt0 = [0, 1]" "reading nt0 = []" "reclosing nt0 = []"
      "endpoint_connection_count (srv nt0) = 0"
    using s started_inv [OF s] by (simp_all add: started_def upt_rec)
  note step = net_reach.step [where num = 2 and fresh = fresh and tcp_server = ?ts]
  obtain nt1 where n1: "net_step (int 2) (Connect_Done 0 0 0) nt0 =
        Some (if endpoint_connection_count (srv nt0) + 1 = int 2 \<and> (0 :: int) \<noteq> 0 then Inl (- 1) else Inr nt1)"
      "net_inv 2 nt1" "reading nt1 = reading nt0 @ [0]"
      "endpoint_connection_count (srv nt1) = endpoint_connection_count (srv nt0) + 1"
    by (rule connected_step [OF i0, of 0]) (simp_all add: c0 int_ok_def)
  have r1: "net_reach 2 fresh ?ts ([] @ [Connect_Done 0 0 0]) nt1"
    by (rule step [OF r0]) (use n1(1) in \<open>simp del: net_step.simps\<close>)
  obtain nt2 where n2: "net_step 2 (Agent_Eof 0) nt1 = Some (Inr nt2)" "net_inv 2 nt2"
      "0 \<in> set (reclosing nt2)" "reading nt2 = remove1 0 (reading nt1)"
      "endpoint_connection_count (srv nt2) = endpoint_connection_count (srv nt1)"
    by (rule eof_step [OF n1(2), of 0]) (simp add: n1(3))
  note r2 = step [OF r1 n2(1)]
  obtain nt3 where n3: "net_step 2 (Close_Done 0) nt2 = Some (Inr nt3)" "net_inv 2 nt3"
      "0 \<in> set (connecting nt3)" "reading nt3 = reading nt2"
      "endpoint_connection_count (srv nt3) = endpoint_connection_count (srv nt2)"
    by (rule close_step [OF n2(2,3)])
  note r3 = step [OF r2 n3(1)]
  have cnt: "endpoint_connection_count (srv nt3) = 1" "reading nt3 = []"
    using n3(4,5) n2(4,5) n1(3,4) c0 by simp_all
  have ok: "int_ok (endpoint_connection_count (srv nt3) + 1)" by (simp add: cnt int_ok_def)
  obtain nt4 where n4: "net_step (int 2) (Connect_Done 0 0 0) nt3 =
        Some (if endpoint_connection_count (srv nt3) + 1 = int 2 \<and> (0 :: int) \<noteq> 0 then Inl (- 1) else Inr nt4)"
      "net_inv 2 nt4" "reading nt4 = reading nt3 @ [0]"
      "endpoint_connection_count (srv nt4) = endpoint_connection_count (srv nt3) + 1"
    by (rule connected_step [OF n3(2,3) ok])
  have r4: "net_reach 2 fresh ?ts (((([] @ [Connect_Done 0 0 0]) @ [Agent_Eof 0]) @ [Close_Done 0]) @ [Connect_Done 0 0 0]) nt4"
    by (rule step [OF r3]) (use n4(1) in \<open>simp del: net_step.simps\<close>)
  have "listens nt4 = 1 \<and> reading nt4 = [0] \<and> conn_status (endpoint_servers (srv nt4) ! 1) = - 1"
    using n4(2,3,4) cnt by (simp add: net_inv_def)
  with r4 show ?thesis by (intro exI [of _ nt4]) simp
qed

definition block_example :: tcp_server where
  "block_example = \<lparr>endpoint_connection_count = 0, req_id = 0, endpoint_servers = [], http_req_dict = []\<rparr>"

lemma net_example:
  "\<exists>nt. net_reach (int 1) (\<lambda>_. []) (init_tcp_server_t block_example 0) [Connect_Done 0 0 0] nt \<and>
    listens nt = 1 \<and> int_ok (endpoint_connection_count (srv nt) + 1)"
proof -
  let ?ts = "init_tcp_server_t block_example 0"
  obtain nt0 where nt0: "start_work_event_loop (\<lambda>_. []) (int 1) ?ts = Some nt0"
    using start_defined [of 1 "\<lambda>_. []" ?ts] by (auto simp: MAXIMUM_ENDPOINT_SERVERS_def)
  note s = start_started [OF nt0]
  have i0: "net_inv 1 nt0" by (rule started_inv [OF s]) simp
  have c0: "0 \<in> set (connecting nt0)" "endpoint_connection_count (srv nt0) = 0" using s by (simp_all add: started_def)
  then have ok: "int_ok (endpoint_connection_count (srv nt0) + 1)" by (simp add: int_ok_def)
  obtain nt1 where n1: "net_step (int 1) (Connect_Done 0 0 0) nt0 =
        Some (if endpoint_connection_count (srv nt0) + 1 = int 1 \<and> (0 :: int) \<noteq> 0 then Inl (- 1) else Inr nt1)"
      "net_inv 1 nt1" "reading nt1 = reading nt0 @ [0]"
      "endpoint_connection_count (srv nt1) = endpoint_connection_count (srv nt0) + 1"
    by (rule connected_step [OF i0 c0(1) ok])
  have "net_reach (int 1) (\<lambda>_. []) ?ts ([] @ [Connect_Done 0 0 0]) nt1"
    by (rule net_reach.step [OF net_reach.start [OF nt0]]) (use n1(1) in \<open>simp del: net_step.simps\<close>)
  moreover have "listens nt1 = 1" using n1(2,4) c0 by (simp add: net_inv_def)
  ultimately show ?thesis using n1(4) c0 by (intro exI [of _ nt1]) (simp add: int_ok_def)
qed

theorem endpoint_phases_witness:
  "\<exists>nt. net_reach (int 1) (\<lambda>_. []) (init_tcp_server_t block_example 0) [Connect_Done 0 0 0] nt \<and>
    set (connecting nt @ reading nt @ reclosing nt) = {..<1} \<and>
    Some ` set (open_handles nt) = {tcp_stream (endpoint_servers (srv nt) ! 0)}"
proof -
  obtain nt where nt: "net_reach (int 1) (\<lambda>_. []) (init_tcp_server_t block_example 0) [Connect_Done 0 0 0] nt"
    using net_example by blast
  have "0 < (1 :: nat)" by simp
  from endpoint_phases [OF nt this] nt show ?thesis by (intro exI [of _ nt]) (simp add: lessThan_Suc)
qed

theorem endpoint_callbacks_witness:
  "\<exists>nt. net_reach (int 1) (\<lambda>_. []) (init_tcp_server_t block_example 0) [Connect_Done 0 0 0] nt \<and>
    (0 \<in> set (connecting nt) \<or> 0 \<in> set (reading nt) \<or> 0 \<in> set (reclosing nt))"
proof -
  obtain nt where nt: "net_reach (int 1) (\<lambda>_. []) (init_tcp_server_t block_example 0) [Connect_Done 0 0 0] nt"
    "int_ok (endpoint_connection_count (srv nt) + 1)" using net_example by blast
  have "0 < (1 :: nat)" by simp
  from endpoint_callbacks [OF nt(1) this nt(2)] nt(1) show ?thesis by blast
qed

theorem listens_when_connected_witness:
  "\<exists>nt. net_reach (int 1) (\<lambda>_. []) (init_tcp_server_t block_example 0) [Connect_Done 0 0 0] nt \<and>
    listens nt = 1 \<and> set (reading nt) = {..<1} \<and> connecting nt = []"
proof -
  obtain nt where nt: "net_reach (int 1) (\<lambda>_. []) (init_tcp_server_t block_example 0) [Connect_Done 0 0 0] nt"
    using net_example by blast
  have "0 < (1 :: nat)" by simp
  from listens_when_connected [OF nt this] nt show ?thesis by (intro exI [of _ nt]) simp
qed

end
