(* ===== verification/Etcd.thy ===== *)
theory Etcd
  imports C_Str
begin

text \<open>
  The etcd client (\<open>utils/etcd.c\<close>). libcurl is a parameter that takes the URL and the body of a
  POST and gives an error code, with the pieces of the response in the order they arrive; jsmn one
  that takes a string and the room for tokens and gives its return value and the tokens; the base64
  coder a pair of functions. A request is built by \<open>sprintf\<close> in a buffer of 1024 bytes,
  too small a buffer is undefined. A token is its type and the range of the text; tokens the parser
  did not write are uninitialised, using one is undefined.
\<close>

type_synonym curl = "byte list \<Rightarrow> byte list \<Rightarrow> int \<times> byte list list"

datatype jsmntype = JSMN_UNDEFINED | JSMN_OBJECT | JSMN_ARRAY | JSMN_STRING | JSMN_PRIMITIVE

record jsmntok =
  tok_type :: jsmntype
  tok_start :: int
  tok_end :: int

type_synonym jsmn = "byte list \<Rightarrow> nat \<Rightarrow> int \<times> jsmntok list"

definition CURLE_OK :: int where "CURLE_OK = 0"

section \<open>The growing string\<close>

record res_string =
  str_ptr :: "byte list"
  str_len :: nat

definition init_string :: res_string where
  "init_string = \<lparr>str_ptr = [0], str_len = 0\<rparr>"

text \<open>The callback for a piece of the response; memory \<open>realloc\<close> adds is an argument.\<close>

definition writefunc :: "(nat \<Rightarrow> byte list) \<Rightarrow> byte list \<Rightarrow> res_string \<Rightarrow> res_string option" where
  "writefunc fresh chunk s = do {
     let new_len = str_len s + length chunk;
     let p = take (new_len + 1) (str_ptr s) @ fresh (new_len + 1 - length (str_ptr s));
     guard (length p = new_len + 1);
     p \<leftarrow> memcpy p (int (str_len s)) chunk 0 (int (length chunk));
     p \<leftarrow> wr p (int new_len) 0;
     Some \<lparr>str_ptr = p, str_len = new_len\<rparr> }"

text \<open>The callback for a response that is not looked at: what it returns tells libcurl to go on.\<close>

definition dummy_write :: "int \<Rightarrow> int \<Rightarrow> int" where
  "dummy_write sz nmemb = to_size (sz * nmemb)"

fun write_all :: "(nat \<Rightarrow> byte list) \<Rightarrow> byte list list \<Rightarrow> res_string \<Rightarrow> res_string option" where
  "write_all fresh [] s = Some s"
| "write_all fresh (c # cs) s = do { s \<leftarrow> writefunc fresh c s; write_all fresh cs s }"

section \<open>Tokens\<close>

definition jsoneq :: "byte list \<Rightarrow> jsmntok \<Rightarrow> byte list \<Rightarrow> int option" where
  "jsoneq json tok s =
     (if tok_type tok = JSMN_STRING \<and> int (length s) = tok_end tok - tok_start tok
      then do {
        r \<leftarrow> strncmp_at json (tok_start tok) (s @ [0]) 0 (nat (tok_end tok - tok_start tok));
        Some (if r = 0 then 0 else - 1) }
      else Some (- 1))"

definition json_token_to_str :: "byte list \<Rightarrow> jsmntok \<Rightarrow> byte list option" where
  "json_token_to_str json tok = do {
     bs \<leftarrow> load json (tok_start tok) (tok_end tok - tok_start tok);
     Some (takeWhile (\<lambda>b. b \<noteq> 0) bs) }"

section \<open>Requests\<close>

definition full_url :: "byte list \<Rightarrow> byte list option" where
  "full_url s = do { guard (length s < 1024); Some s }"

text \<open>The first token that is the string \<open>ID\<close> gives the token behind it.\<close>

fun find_ID :: "byte list \<Rightarrow> jsmntok list \<Rightarrow> byte list option option" where
  "find_ID json [] = Some None"
| "find_ID json (t # ts) = do {
     e \<leftarrow> (if tok_end t - tok_start t = 2 then jsoneq json t (bytes ''ID'') else Some (- 1));
     if e = 0 then do { v \<leftarrow> rd ts 0; map_option Some (json_token_to_str json v) }
     else find_ID json ts }"

text \<open>Parsing the response: a negative return value of jsmn is logged, and no token is looked at.\<close>

definition parse_response :: "jsmn \<Rightarrow> res_string \<Rightarrow> jsmntok list option" where
  "parse_response jsmn_parse s = do {
     let (r, t) = jsmn_parse (take (str_len s) (str_ptr s)) 1024;
     guard (r \<le> int (length t) \<and> r \<le> 1024);
     Some (take (nat r) t) }"

definition etcd_grant :: "curl \<Rightarrow> jsmn \<Rightarrow> (nat \<Rightarrow> byte list) \<Rightarrow> byte list \<Rightarrow> int \<Rightarrow> byte list option option" where
  "etcd_grant curl_easy_perform jsmn_parse fresh etcd_url ttl = do {
     let s = init_string;
     url \<leftarrow> full_url (etcd_url @ bytes ''/v3alpha/lease/grant'');
     body \<leftarrow> full_url (bytes ''{'' @ [34] @ bytes ''TTL'' @ [34] @ bytes '':'' @ [34] @ dec_int ttl @ [34] @ bytes ''}'');
     let (ret, chunks) = curl_easy_perform url body;
     s \<leftarrow> write_all fresh chunks s;
     if ret = CURLE_OK then do {
       t \<leftarrow> parse_response jsmn_parse s;
       find_ID (str_ptr s) t }
     else Some None }"

text \<open>A null pointer as the lease is undefined.\<close>

definition etcd_put :: "curl \<Rightarrow> (byte list \<Rightarrow> byte list) \<Rightarrow> byte list \<Rightarrow> byte list \<Rightarrow> byte list option \<Rightarrow> int option" where
  "etcd_put curl_easy_perform b64_encode etcd_url key leaseID = do {
     url \<leftarrow> full_url (etcd_url @ bytes ''/v3alpha/kv/put'');
     let encoded_key = b64_encode key;
     lease \<leftarrow> leaseID;
     body \<leftarrow> full_url (bytes ''{'' @ [34] @ bytes ''key'' @ [34] @ bytes '': '' @ [34] @ encoded_key @ [34] @
       bytes '', '' @ [34] @ bytes ''value'' @ [34] @ bytes '': '' @ [34, 34] @
       bytes '', '' @ [34] @ bytes ''lease'' @ [34] @ bytes '':'' @ [34] @ lease @ [34] @ bytes ''}'');
     let (ret, _) = curl_easy_perform url body;
     Some ret }"

definition etcd_keep_alive :: "curl \<Rightarrow> byte list \<Rightarrow> byte list option \<Rightarrow> int option" where
  "etcd_keep_alive curl_easy_perform etcd_url leaseID = do {
     url \<leftarrow> full_url (etcd_url @ bytes ''/v3alpha/lease/keepalive'');
     lease \<leftarrow> leaseID;
     body \<leftarrow> full_url (bytes ''{'' @ [34] @ bytes ''ID'' @ [34] @ bytes '':'' @ [34] @ lease @ [34] @ bytes ''}'');
     let (ret, _) = curl_easy_perform url body;
     Some ret }"

text \<open>
  The loop of \<open>etcd_get\<close>: the token behind each string \<open>key\<close>, decoded, into an array
  of \<open>cap\<close> pointers, and both tokens are skipped.
\<close>

fun collect_keys ::
  "(byte list \<Rightarrow> byte list) \<Rightarrow> nat \<Rightarrow> byte list \<Rightarrow> jsmntok list \<Rightarrow> byte list list \<Rightarrow> byte list list option" where
  "collect_keys b64_decode cap json [] server_addr = Some server_addr"
| "collect_keys b64_decode cap json (t # ts) server_addr = do {
     e \<leftarrow> (if tok_end t - tok_start t = 3 then jsoneq json t (bytes ''key'') else Some (- 1));
     if e = 0 then
       (case ts of [] \<Rightarrow> None
        | v # ts \<Rightarrow> do {
            raw_str \<leftarrow> json_token_to_str json v;
            guard (length server_addr < cap);
            collect_keys b64_decode cap json ts (server_addr @ [b64_decode raw_str]) })
     else collect_keys b64_decode cap json ts server_addr }"

definition etcd_get ::
  "curl \<Rightarrow> jsmn \<Rightarrow> (byte list \<Rightarrow> byte list) \<Rightarrow> (byte list \<Rightarrow> byte list) \<Rightarrow> (nat \<Rightarrow> byte list) \<Rightarrow> nat \<Rightarrow>
   byte list \<Rightarrow> byte list \<Rightarrow> (int \<times> byte list list) option" where
  "etcd_get curl_easy_perform jsmn_parse b64_encode b64_decode fresh cap etcd_url key = do {
     let s = init_string;
     url \<leftarrow> full_url (etcd_url @ bytes ''/v3alpha/kv/range'');
     let encoded_key = b64_encode key;
     body \<leftarrow> full_url (bytes ''{'' @ [34] @ bytes ''key'' @ [34] @ bytes '': '' @ [34] @ encoded_key @ [34] @
       bytes '', '' @ [34] @ bytes ''range_end'' @ [34] @ bytes '':'' @ [34] @ bytes ''eg=='' @ [34] @
       bytes '', '' @ [34] @ bytes ''sort_order'' @ [34] @ bytes '':1}'');
     let (ret, chunks) = curl_easy_perform url body;
     s \<leftarrow> write_all fresh chunks s;
     if ret = CURLE_OK then do {
       t \<leftarrow> parse_response jsmn_parse s;
       server_addr \<leftarrow> collect_keys b64_decode cap (str_ptr s) t [];
       Some (ret, server_addr) }
     else Some (ret, []) }"

lemma full_url_short: "length s < 1024 \<Longrightarrow> full_url s = Some s"
  by (simp add: full_url_def)

section \<open>The response body\<close>

lemma writefunc_appends:
  assumes "\<And>n. length (fresh n) = n"
  shows "writefunc fresh chunk \<lparr>str_ptr = body @ [0], str_len = length body\<rparr> =
    Some \<lparr>str_ptr = (body @ chunk) @ [0], str_len = length (body @ chunk)\<rparr>"
proof (cases chunk)
  case Nil
  then show ?thesis using assms [of 0]
    by (simp add: writefunc_def memcpy_def load_def store_def wr_def guard_bind)
next
  case (Cons b bs)
  let ?p = "body @ 0 # fresh (length chunk)"
  have p: "take (length body + length chunk + 1) (body @ [0]) @
      fresh (length body + length chunk + 1 - length (body @ [0])) = ?p" by simp
  have f: "length ?p = length body + length chunk + 1" using assms by simp
  have m: "memcpy ?p (int (length body)) chunk 0 (int (length chunk)) =
      Some (body @ chunk @ drop (length chunk) (0 # fresh (length chunk)))"
    using assms by (simp add: memcpy_def load_def store_def)
  have l: "length (drop (length chunk) (0 # fresh (length chunk))) = 1" using assms by simp
  then obtain z where z: "drop (length chunk) (0 # fresh (length chunk)) = [z]"
    unfolding One_nat_def length_Suc_conv by blast
  have w: "wr (body @ chunk @ [z]) (int (length body + length chunk)) 0 = Some (body @ chunk @ [0])"
    by (simp add: wr_def store_def nat_add_distrib)
  show ?thesis
    unfolding writefunc_def res_string.select_convs Let_def p
    by (simp only: f guard_True Option.bind.bind_lunit m z w append.assoc) simp
qed

lemma write_all_appends:
  assumes "\<And>n. length (fresh n) = n"
  shows "write_all fresh chunks \<lparr>str_ptr = body @ [0], str_len = length body\<rparr> =
    Some \<lparr>str_ptr = (body @ concat chunks) @ [0], str_len = length (body @ concat chunks)\<rparr>"
proof (induction chunks arbitrary: body)
  case (Cons c cs)
  show ?case
    using Cons.IH [of "body @ c"] by (simp add: writefunc_appends [of fresh, OF assms] del: length_append)
qed simp

lemma write_all_init:
  assumes "\<And>n. length (fresh n) = n"
  shows "write_all fresh chunks init_string =
    Some \<lparr>str_ptr = concat chunks @ [0], str_len = length (concat chunks)\<rparr>"
  using write_all_appends [of fresh chunks "[]", OF assms] by (simp add: init_string_def)

section \<open>Tokens\<close>

definition tok_in :: "byte list \<Rightarrow> jsmntok \<Rightarrow> bool" where
  "tok_in body t \<longleftrightarrow> 0 \<le> tok_start t \<and> tok_start t \<le> tok_end t \<and> tok_end t \<le> int (length body)"

definition tok_text :: "byte list \<Rightarrow> jsmntok \<Rightarrow> byte list" where
  "tok_text body t = take (nat (tok_end t - tok_start t)) (drop (nat (tok_start t)) body)"

definition string_tok :: "byte list \<Rightarrow> byte list \<Rightarrow> jsmntok \<Rightarrow> bool" where
  "string_tok body s t \<longleftrightarrow> tok_type t = JSMN_STRING \<and> tok_text body t = s"

lemma length_tok_text: "tok_in body t \<Longrightarrow> int (length (tok_text body t)) = tok_end t - tok_start t"
  unfolding tok_in_def tok_text_def length_take length_drop by arith

lemma jsoneq_string_tok:
  assumes "tok_in body t" and "0 \<notin> set body"
  shows "jsoneq (body @ [0]) t s = Some (if string_tok body s t then 0 else - 1)"
proof (cases "tok_type t = JSMN_STRING \<and> int (length s) = tok_end t - tok_start t")
  case True
  let ?n = "nat (tok_end t - tok_start t)"
  have n: "?n = length s" using True by (metis nat_int)
  have tk: "take ?n (drop (nat (tok_start t)) (body @ [0])) = tok_text body t"
    using assms(1) unfolding tok_in_def tok_text_def drop_append take_append by (auto simp: nat_le_iff nat_diff_distrib)
  have "0 \<notin> set (tok_text body t)" using assms(2) by (auto simp: tok_text_def dest: in_set_takeD in_set_dropD)
  then have z: "0 \<notin> set (take ?n (drop (nat (tok_start t)) (body @ [0])))" unfolding tk .
  have b: "0 \<le> tok_start t" "nat (tok_start t) + ?n \<le> length (body @ [0])" "nat 0 + ?n \<le> length (s @ [0])"
    using assms(1) n by (auto simp: tok_in_def)
  have "take ?n (drop (nat 0) (s @ [0])) = s" using n by simp
  with strncmp_at_drop [OF b(1) order_refl b(2,3) z]
  have "\<exists>r. strncmp_at (body @ [0]) (tok_start t) (s @ [0]) 0 ?n = Some r \<and> (r = 0 \<longleftrightarrow> tok_text body t = s)"
    unfolding tk by simp
  with True show ?thesis by (auto simp: jsoneq_def string_tok_def)
next
  case False
  then have "\<not> string_tok body s t" using length_tok_text [OF assms(1)] by (auto simp: string_tok_def)
  with False show ?thesis by (auto simp: jsoneq_def)
qed

lemma json_token_to_str_text:
  assumes "tok_in body t" and "0 \<notin> set body"
  shows "json_token_to_str (body @ [0]) t = Some (tok_text body t)"
proof -
  have "load (body @ [0]) (tok_start t) (tok_end t - tok_start t) = Some (tok_text body t)"
    using assms(1) by (auto simp: load_def tok_in_def tok_text_def nat_le_iff nat_diff_distrib)
  moreover have "0 \<notin> set (tok_text body t)" using assms(2) by (auto simp: tok_text_def dest: in_set_takeD in_set_dropD)
  ultimately show ?thesis by (auto simp: json_token_to_str_def takeWhile_eq_all_conv)
qed

text \<open>A list of tokens as the members \<open>key\<close> with their values, and other tokens.\<close>

datatype group = Other jsmntok | Key jsmntok jsmntok

fun group_toks :: "group \<Rightarrow> jsmntok list" where
  "group_toks (Other t) = [t]"
| "group_toks (Key k v) = [k, v]"

fun group_ok :: "byte list \<Rightarrow> group \<Rightarrow> bool" where
  "group_ok body (Other t) = (tok_in body t \<and> \<not> string_tok body (bytes ''key'') t)"
| "group_ok body (Key k v) = (tok_in body k \<and> string_tok body (bytes ''key'') k \<and> tok_in body v)"

fun group_values :: "byte list \<Rightarrow> group \<Rightarrow> byte list list" where
  "group_values body (Other t) = []"
| "group_values body (Key k v) = [tok_text body v]"

lemma three_long: "tok_in body t \<Longrightarrow> string_tok body (bytes ''key'') t \<Longrightarrow> tok_end t - tok_start t = 3"
  using length_tok_text [of body t] by (simp add: string_tok_def)

lemma collect_keys_groups:
  assumes "\<forall>g \<in> set gs. group_ok body g" and "0 \<notin> set body" and "length acc \<le> cap"
  shows "collect_keys dec cap (body @ [0]) (concat (map group_toks gs)) acc =
    (let vs = concat (map (group_values body) gs) in
     if length acc + length vs \<le> cap then Some (acc @ map dec vs) else None)"
  using assms(1,3)
proof (induction gs arbitrary: acc)
  case (Cons g gs)
  note eq = jsoneq_string_tok [OF _ assms(2)]
  show ?case
  proof (cases g)
    case (Other t)
    then have t: "tok_in body t" "\<not> string_tok body (bytes ''key'') t" using Cons.prems by simp_all
    then show ?thesis using Cons.IH [of acc] Cons.prems Other by (simp add: eq)
  next
    case (Key k v)
    then have t: "tok_in body k" "string_tok body (bytes ''key'') k" "tok_in body v" using Cons.prems by simp_all
    show ?thesis
    proof (cases "length acc < cap")
      case True
      with Cons.IH [of "acc @ [dec (tok_text body v)]"] Cons.prems Key t show ?thesis
        by (simp add: eq three_long json_token_to_str_text [OF _ assms(2)] Let_def)
    next
      case False
      with Key t show ?thesis
        by (simp add: eq three_long json_token_to_str_text [OF _ assms(2)] guard_bind Let_def)
    qed
  qed
qed simp

section \<open>Properties\<close>

text \<open>C17. \<open>etcd_get\<close>: from a response of libcurl, in pieces of any size, whose body has no NUL
  and whose tokens are members \<open>key\<close> with their values among others, it returns the decoded
  values, all of them and in order; when they are more than the array of pointers has room for, it
  writes behind the array.\<close>

theorem etcd_get_keys:
  assumes "\<forall>n. length (fresh n) = n"
    and "full_url (etcd_url @ bytes ''/v3alpha/kv/range'') = Some url" and "length (b64_encode key) < 900"
    and "\<forall>body. curl_easy_perform url body = (CURLE_OK, chunks)" and "0 \<notin> set (concat chunks)"
    and "jsmn_parse (concat chunks) 1024 = (int (length (concat (map group_toks gs))), concat (map group_toks gs))"
    and "length (concat (map group_toks gs)) \<le> 1024" and "\<forall>g \<in> set gs. group_ok (concat chunks) g"
    and "vs = concat (map (group_values (concat chunks)) gs)"
  shows "etcd_get curl_easy_perform jsmn_parse b64_encode b64_decode fresh cap etcd_url key =
    (if length vs \<le> cap then Some (CURLE_OK, map b64_decode vs) else None)"
proof -
  have f: "\<And>n. length (fresh n) = n" using assms(1) by blast
  note w = write_all_init [of fresh chunks, OF f]
  have p: "parse_response jsmn_parse \<lparr>str_ptr = concat chunks @ [0], str_len = length (concat chunks)\<rparr> =
      Some (concat (map group_toks gs))"
    using assms(6,7) by (simp add: parse_response_def guard_bind)
  have c: "collect_keys b64_decode cap (concat chunks @ [0]) (concat (map group_toks gs)) [] =
      (if length vs \<le> cap then Some (map b64_decode vs) else None)"
    using collect_keys_groups [OF assms(8,5), of "[]" cap b64_decode] assms(9) by simp
  show ?thesis
    using assms(3)
    by (simp add: etcd_get_def assms(2) full_url_short assms(4) w p c Let_def del: concat.simps)
qed

text \<open>A response with one key, in two pieces.\<close>

definition body_example :: "byte list" where
  "body_example = [123, 34, 107, 101, 121, 34, 58, 34, 81, 81, 34, 125]"

definition toks_example :: "group list" where
  "toks_example =
     [Other \<lparr>tok_type = JSMN_OBJECT, tok_start = 0, tok_end = 12\<rparr>,
      Key \<lparr>tok_type = JSMN_STRING, tok_start = 2, tok_end = 5\<rparr>
        \<lparr>tok_type = JSMN_STRING, tok_start = 8, tok_end = 10\<rparr>]"

theorem etcd_get_keys_witness:
  "etcd_get (\<lambda>url body. (CURLE_OK, [take 4 body_example, drop 4 body_example]))
      (\<lambda>json cap. (3, concat (map group_toks toks_example))) (\<lambda>s. s) rev (\<lambda>n. replicate n 7) 16
      (bytes ''http://etcd'') (bytes ''k'') = Some (CURLE_OK, [[81, 81]])"
proof -
  have c: "concat [take 4 body_example, drop 4 body_example] = body_example" by simp
  have g: "\<forall>g \<in> set toks_example. group_ok body_example g"
    by (simp add: toks_example_def body_example_def tok_in_def string_tok_def tok_text_def bytes_def)
  have v: "concat (map (group_values body_example) toks_example) = [[81, 81]]"
    by (simp add: toks_example_def body_example_def tok_text_def)
  have l: "length (concat (map group_toks toks_example)) = 3" by (simp add: toks_example_def)
  have z: "0 \<notin> set body_example" by (simp add: body_example_def)
  show ?thesis
    by (subst etcd_get_keys [where gs = toks_example and chunks = "[take 4 body_example, drop 4 body_example]"
          and url = "bytes ''http://etcd/v3alpha/kv/range''" and vs = "[[81, 81]]"])
       (use c g v l z in \<open>simp_all add: full_url_def del: append_take_drop_id\<close>, simp_all add: bytes_def)
qed

text \<open>\<open>etcd_grant\<close> returns the text of the token behind the first string \<open>ID\<close> of the
  response, and a null pointer when libcurl fails.\<close>

theorem etcd_grant_lease:
  assumes "\<forall>n. length (fresh n) = n" and "length etcd_url < 900"
    and "\<forall>url body. curl_easy_perform url body = (ret, chunks)" and "0 \<notin> set (concat chunks)"
    and "jsmn_parse (concat chunks) 1024 = (int (length toks), toks)" and "length toks \<le> 1024"
    and "toks = pre @ i # v # post" and "\<forall>t \<in> set toks. tok_in (concat chunks) t"
    and "\<forall>t \<in> set pre. \<not> string_tok (concat chunks) (bytes ''ID'') t" and "string_tok (concat chunks) (bytes ''ID'') i"
    and "length (dec_int ttl) < 100"
  shows "etcd_grant curl_easy_perform jsmn_parse fresh etcd_url ttl =
    Some (if ret = CURLE_OK then Some (tok_text (concat chunks) v) else None)"
proof -
  let ?json = "concat chunks"
  have f: "\<And>n. length (fresh n) = n" using assms(1) by blast
  note w = write_all_init [of fresh chunks, OF f]
  have p: "parse_response jsmn_parse \<lparr>str_ptr = ?json @ [0], str_len = length ?json\<rparr> = Some toks"
    using assms(5,6) by (simp add: parse_response_def guard_bind)
  note eq = jsoneq_string_tok [OF _ assms(4)]
  have "find_ID (?json @ [0]) (pre @ i # v # post) = Some (Some (tok_text ?json v))"
    if "\<forall>t \<in> set (pre @ [i, v]). tok_in ?json t" "\<forall>t \<in> set pre. \<not> string_tok ?json (bytes ''ID'') t" for pre
    using that
  proof (induction pre)
    case Nil
    have "tok_end i - tok_start i = 2"
      using Nil assms(10) length_tok_text [of ?json i] by (simp add: string_tok_def)
    with Nil assms(10) show ?case
      by (simp add: eq json_token_to_str_text [OF _ assms(4)] rd_def)
  qed (simp add: eq)
  then have fi: "find_ID (?json @ [0]) toks = Some (Some (tok_text ?json v))"
    using assms(7-9) by simp
  show ?thesis
    using assms(2,11) by (simp add: etcd_grant_def full_url_short assms(3) w p fi Let_def del: concat.simps)
qed

theorem etcd_grant_lease_witness:
  "etcd_grant (\<lambda>url body. (CURLE_OK, [[34, 73, 68, 34, 58, 34, 55, 34]]))
      (\<lambda>json cap. (2, [\<lparr>tok_type = JSMN_STRING, tok_start = 1, tok_end = 3\<rparr>,
         \<lparr>tok_type = JSMN_STRING, tok_start = 6, tok_end = 7\<rparr>]))
      (\<lambda>n. replicate n 7) (bytes ''http://etcd'') 600 = Some (Some [55])"
proof -
  have d: "length (dec_int 600) < 100" by (simp add: dec_int_def dec_nat.simps)
  show ?thesis
    by (subst etcd_grant_lease [where chunks = "[[34, 73, 68, 34, 58, 34, 55, 34]]" and ret = CURLE_OK and pre = "[]"
          and i = "\<lparr>tok_type = JSMN_STRING, tok_start = 1, tok_end = 3\<rparr>"
          and v = "\<lparr>tok_type = JSMN_STRING, tok_start = 6, tok_end = 7\<rparr>" and post = "[]"
          and toks = "[\<lparr>tok_type = JSMN_STRING, tok_start = 1, tok_end = 3\<rparr>,
            \<lparr>tok_type = JSMN_STRING, tok_start = 6, tok_end = 7\<rparr>]"])
       (use d in \<open>simp_all add: tok_in_def string_tok_def tok_text_def bytes_def\<close>)
qed

end
