(* ===== verification/Server_Uri.thy ===== *)
theory Server_Uri
  imports C_Str
begin

text \<open>
  Registration and discovery. The provider agent registers a key that carries its scale, address and
  port (\<open>init_provider\<close>, \<open>on_resolved\<close> of \<open>provider_agent.c\<close>); the consumer agent takes the keys
  apart with \<open>strtok\<close> (\<open>str_to_server_uri\<close> of \<open>utils/utils.c\<close>). Scales are
  the characters the code compares with. \<open>Inl\<close> is an exit of the process.
\<close>

definition slash :: byte where "slash = 47"
definition colon :: byte where "colon = 58"

section \<open>The provider's key\<close>

definition etcd_prefix :: "byte list" where
  "etcd_prefix = bytes ''/dubbomesh/com.alibaba.dubbo.performance.demo.provider.IHelloService/''"

definition provider_scale :: "byte list \<Rightarrow> int + byte" where
  "provider_scale provider_type =
     (if provider_type = bytes ''provider-small'' then Inr 48
      else if provider_type = bytes ''provider-medium'' then Inr 49
      else if provider_type = bytes ''provider-large'' then Inr 50
      else Inl (- 1))"

text \<open>\<open>sprintf\<close> with \<open>%c:%s:%d\<close> into a buffer of 2048 bytes.\<close>

definition provider_key :: "byte \<Rightarrow> byte list \<Rightarrow> int \<Rightarrow> byte list option" where
  "provider_key scale addr server_port = do {
     let s = etcd_prefix @ [scale] @ [colon] @ addr @ [colon] @ dec_int server_port;
     guard (length s < 2048);
     Some s }"

section \<open>The consumer's parser\<close>

text \<open>The last of the tokens, the loop of \<open>str_to_server_uri\<close>.\<close>

function last_token :: "byte list \<Rightarrow> byte list option \<Rightarrow> byte list option" where
  "last_token s server_uri =
     (case strtok slash s of None \<Rightarrow> server_uri | Some (pch, rest) \<Rightarrow> last_token rest (Some pch))"
  by auto
termination
  by (relation "measure (\<lambda>(s, u). length s)") (auto dest: strtok_shorter)

declare last_token.simps [simp del]

text \<open>The string without its terminator, and the address with its port and scale.\<close>

definition str_to_server_uri :: "byte list \<Rightarrow> (int + byte list \<times> int \<times> int) option" where
  "str_to_server_uri str = do {
     guard (str \<noteq> []);
     server_uri \<leftarrow> last_token (drop 1 str) None;
     (pch, rest) \<leftarrow> strtok colon server_uri;
     c \<leftarrow> rd pch 0;
     if c \<noteq> 48 \<and> c \<noteq> 49 \<and> c \<noteq> 50 then Some (Inl (- 1))
     else do {
       let scale = (if c = 48 then 0 else if c = 49 then 1 else 2);
       (server_addr, rest) \<leftarrow> strtok colon rest;
       guard (length server_addr < 256);
       (port, _) \<leftarrow> strtok colon rest;
       Some (Inr (server_addr, to_int (strtol10 port), scale)) } }"

section \<open>Lemmas\<close>

lemma last_token_step:
  assumes "s \<noteq> []" and "slash \<notin> set s"
  shows "last_token (s @ slash # rest) u = last_token rest (Some s)"
  by (subst last_token.simps) (simp add: strtok_hit [OF assms])

lemma last_token_end:
  assumes "s \<noteq> []" and "slash \<notin> set s"
  shows "last_token s u = Some s"
proof -
  have "last_token [] v = v" for v by (subst last_token.simps) (simp add: strtok_def)
  then show ?thesis by (subst last_token.simps) (simp add: strtok_end [OF assms])
qed

lemma dec_int_nat: "0 \<le> x \<Longrightarrow> dec_int x = dec_nat (nat x)"
  by (simp add: dec_int_def)

lemma not_in_dec_nat: "\<not> is_digit b \<Longrightarrow> b \<notin> set (dec_nat n)"
  using dec_nat_digits by blast

lemma separators_not_digits: "\<not> is_digit slash" "\<not> is_digit colon"
  by (simp_all add: slash_def colon_def is_digit_def word_le_def)

lemma etcd_prefix_tokens:
  "\<exists>a b. etcd_prefix = slash # a @ slash # b @ slash # [] \<and> a \<noteq> [] \<and> b \<noteq> [] \<and> slash \<notin> set a \<and> slash \<notin> set b"
proof (intro exI conjI)
  show "etcd_prefix = slash # bytes ''dubbomesh'' @ slash #
      bytes ''com.alibaba.dubbo.performance.demo.provider.IHelloService'' @ slash # []"
    by (simp add: etcd_prefix_def slash_def bytes_def)
qed (simp_all add: bytes_def slash_def)

lemma str_to_server_uri_key:
  assumes "addr \<noteq> []" "slash \<notin> set addr" "colon \<notin> set addr" "length addr < 256"
    and "0 \<le> port" "port < 2 ^ 31" and "c \<in> {48, 49, 50}"
  shows "str_to_server_uri (etcd_prefix @ [c] @ [colon] @ addr @ [colon] @ dec_int port) =
    Some (Inr (addr, port, uint c - 48))"
proof -
  let ?d = "dec_nat (nat port)" and ?u = "c # colon # addr @ colon # dec_nat (nat port)"
  obtain a b where ab: "etcd_prefix = slash # a @ slash # b @ slash # []" "a \<noteq> []" "b \<noteq> []"
    "slash \<notin> set a" "slash \<notin> set b" using etcd_prefix_tokens by blast
  have c: "c \<noteq> slash" "c \<noteq> colon" and cs: "slash \<noteq> colon"
    using assms(7) by (auto simp: slash_def colon_def)
  have u: "?u \<noteq> []" "slash \<notin> set ?u"
    using assms(2) c cs not_in_dec_nat [OF separators_not_digits(1)] by auto
  have "last_token (a @ slash # b @ slash # ?u) None = Some ?u"
    by (simp only: last_token_step [OF ab(2,4)] last_token_step [OF ab(3,5)] last_token_end [OF u])
  then have l: "last_token (drop 1 (etcd_prefix @ [c] @ [colon] @ addr @ [colon] @ dec_int port)) None = Some ?u"
    using assms(5) by (simp add: ab(1) dec_int_nat)
  have t1: "strtok colon ?u = Some ([c], addr @ colon # ?d)"
    using strtok_hit [of "[c]" colon "addr @ colon # ?d"] c(2) by auto
  have t2: "strtok colon (addr @ colon # ?d) = Some (addr, ?d)" by (rule strtok_hit [OF assms(1,3)])
  have t3: "strtok colon ?d = Some (?d, [])"
    by (rule strtok_end [OF _ not_in_dec_nat [OF separators_not_digits(2)]]) simp
  have p: "to_int (strtol10 ?d) = port"
    using strtol10_dec_nat [of "nat port" "[]"] assms(5,6) by (simp add: int64_max_def)
  have r: "rd [c] 0 = Some c" by (simp add: rd_def)
  show ?thesis
    unfolding str_to_server_uri_def l
    using assms(4,7) by (auto simp: t1 t2 t3 p r Let_def ab(1))
qed

section \<open>Properties\<close>

text \<open>C18. The consumer agent reads from a registered key exactly what the provider agent put there:
  the address, the port and the scale.\<close>

theorem registration_roundtrip:
  assumes "provider_scale provider_type = Inr c" and "provider_key c addr port = Some key"
    and "addr \<noteq> []" "slash \<notin> set addr" "colon \<notin> set addr" "length addr < 256" and "0 \<le> port" "port < 2 ^ 31"
  shows "str_to_server_uri key = Some (Inr (addr, port, uint c - 48))"
proof -
  have "c \<in> {48, 49, 50}" using assms(1) by (auto simp: provider_scale_def split: if_splits)
  moreover have "key = etcd_prefix @ [c] @ [colon] @ addr @ [colon] @ dec_int port"
    using assms(2) by (auto simp: provider_key_def bind_Some_iff)
  ultimately show ?thesis using str_to_server_uri_key assms(3-) by simp
qed

theorem registration_roundtrip_witness:
  "\<exists>key. provider_key 49 (bytes ''10.0.0.7'') 30000 = Some key \<and>
    str_to_server_uri key = Some (Inr (bytes ''10.0.0.7'', 30000, 1))"
proof -
  have s: "provider_scale (bytes ''provider-medium'') = Inr 49" by (simp add: provider_scale_def bytes_def)
  have "length (dec_int 30000) = 5" by (simp add: dec_int_def dec_nat.simps)
  then obtain key where k: "provider_key 49 (bytes ''10.0.0.7'') 30000 = Some key"
    by (simp add: provider_key_def etcd_prefix_def)
  from registration_roundtrip [OF s k] k show ?thesis
    by (simp add: bytes_def slash_def colon_def)
qed

end
