(* ===== verification/Discovery.thy ===== *)
theory Discovery
  imports Etcd Server_Uri Load_Balancer
begin

text \<open>
  The two ends of service discovery: \<open>on_resolved\<close> of \<open>provider_agent.c\<close> registers the
  provider agent with etcd under a lease and keeps the lease alive, \<open>init_consumer\<close> of
  \<open>consumer_agent.c\<close> reads the registered keys and sets up the load balancer. \<open>Inl\<close> is
  an exit of the process with its code.
\<close>

definition P_DEFAULT_LEASE_TTL :: int where "P_DEFAULT_LEASE_TTL = 600"

text \<open>
  What \<open>on_resolved\<close> leaves: the lease and the return value of the put. The address is the text
  \<open>uv_ip4_name\<close> writes to a buffer of 16 bytes.
\<close>

definition on_resolved ::
  "curl \<Rightarrow> jsmn \<Rightarrow> (byte list \<Rightarrow> byte list) \<Rightarrow> (nat \<Rightarrow> byte list) \<Rightarrow> byte list \<Rightarrow> int \<Rightarrow> byte list \<Rightarrow> byte \<Rightarrow> int \<Rightarrow>
   (int + byte list option \<times> int) option" where
  "on_resolved curl_easy_perform jsmn_parse b64_encode fresh etcd_url status addr scale server_port =
     (if status \<noteq> 0 then Some (Inl (- 1))
      else do {
        guard (length addr < 16);
        lease_id \<leftarrow> etcd_grant curl_easy_perform jsmn_parse fresh etcd_url P_DEFAULT_LEASE_TTL;
        buff \<leftarrow> provider_key scale addr server_port;
        r \<leftarrow> etcd_put curl_easy_perform b64_encode etcd_url buff lease_id;
        Some (Inr (lease_id, r)) })"

text \<open>Seconds \<open>keep_alive_thread_work\<close> sleeps between two heartbeats, and one heartbeat.\<close>

definition keep_alive_period :: int where
  "keep_alive_period = (if 3 < P_DEFAULT_LEASE_TTL - 10 then P_DEFAULT_LEASE_TTL - 10 else 3)"

definition keep_alive_thread_work :: "curl \<Rightarrow> byte list \<Rightarrow> byte list option \<Rightarrow> (int \<times> int) option" where
  "keep_alive_thread_work curl_easy_perform etcd_url ID = do {
     r \<leftarrow> etcd_keep_alive curl_easy_perform etcd_url ID;
     Some (keep_alive_period, r) }"

text \<open>\<open>init_consumer\<close>, on what \<open>etcd_get\<close> returned. The arrays have 16 entries.\<close>

type_synonym endpoint = "byte list \<times> int \<times> int"

fun parse_endpoints :: "byte list list \<Rightarrow> (int + endpoint list) option" where
  "parse_endpoints [] = Some (Inr [])"
| "parse_endpoints (s # ss) = do {
     r \<leftarrow> str_to_server_uri s;
     case r of Inl c \<Rightarrow> Some (Inl c)
     | Inr e \<Rightarrow> do {
         r \<leftarrow> parse_endpoints ss;
         case r of Inl c \<Rightarrow> Some (Inl c) | Inr es \<Rightarrow> Some (Inr (e # es)) } }"

definition init_consumer :: "int \<times> byte list list \<Rightarrow> (int + endpoint list \<times> load_balancer) option" where
  "init_consumer etcd_result = (case etcd_result of (r, raw_server_string) \<Rightarrow>
     if r \<noteq> 0 then Some (Inl (- 1))
     else let num_endpoint_servers = int (length raw_server_string) in
       if num_endpoint_servers = 0 then Some (Inl (- 1))
       else do {
         guard (num_endpoint_servers \<le> 16);
         es \<leftarrow> parse_endpoints raw_server_string;
         case es of Inl c \<Rightarrow> Some (Inl c)
         | Inr es \<Rightarrow> do {
             global_lb \<leftarrow> init_load_balancer num_endpoint_servers;
             Some (Inr (es, global_lb)) } })"

section \<open>Lemmas\<close>

text \<open>The only exit code is -1.\<close>

lemma parse_endpoints_exit: "parse_endpoints ss = Some (Inl c) \<Longrightarrow> c = - 1"
proof (induction ss)
  case (Cons s ss)
  obtain r where r: "str_to_server_uri s = Some r" using Cons.prems by (auto simp: bind_Some_iff)
  show ?case
  proof (cases r)
    case (Inl d)
    then have "d = c" using Cons.prems r by simp
    with r Inl show ?thesis by (auto simp: str_to_server_uri_def bind_Some_iff Let_def guard_bind split: if_splits option.splits prod.splits)
  next
    case (Inr e)
    then obtain q where "parse_endpoints ss = Some q" "(case q of Inl c \<Rightarrow> Some (Inl c) | Inr es \<Rightarrow> Some (Inr (e # es))) = Some (Inl c)"
      using Cons.prems r by (auto simp: bind_Some_iff)
    with Cons.IH show ?thesis by (cases q) auto
  qed
qed simp

lemma init_consumer_exit: "init_consumer x = Some (Inl c) \<Longrightarrow> c = - 1"
proof -
  assume i: "init_consumer x = Some (Inl c)"
  obtain r ss where x: "x = (r, ss)" by (cases x)
  show ?thesis
  proof (cases "r \<noteq> 0 \<or> ss = []")
    case True
    then show ?thesis using i by (auto simp: init_consumer_def x Let_def split: if_splits)
  next
    case False
    then obtain q where q: "parse_endpoints ss = Some q" and
      "(case q of Inl c \<Rightarrow> Some (Inl c) | Inr es \<Rightarrow> do { lb \<leftarrow> init_load_balancer (int (length ss)); Some (Inr (es, lb)) }) = Some (Inl c)"
      using i by (auto simp: init_consumer_def x Let_def bind_Some_iff guard_bind split: if_splits)
    then have "q = Inl c" by (cases q) (auto simp: bind_Some_iff)
    with q show ?thesis by (simp add: parse_endpoints_exit)
  qed
qed

text \<open>A provider as it registers: scale, address, port.\<close>

type_synonym provider = "byte \<times> byte list \<times> int"

definition provider_ok :: "provider \<Rightarrow> bool" where
  "provider_ok p = (case p of (c, addr, port) \<Rightarrow> c \<in> {48, 49, 50} \<and> addr \<noteq> [] \<and> slash \<notin> set addr \<and>
     colon \<notin> set addr \<and> length addr < 16 \<and> 0 \<le> port \<and> port < 2 ^ 31)"

definition key_of :: "provider \<Rightarrow> byte list" where
  "key_of p = (case p of (c, addr, port) \<Rightarrow>
     etcd_prefix @ [c] @ [colon] @ addr @ [colon] @ dec_int port)"

definition endpoint_of :: "provider \<Rightarrow> endpoint" where
  "endpoint_of p = (case p of (c, addr, port) \<Rightarrow> (addr, port, uint c - 48))"

lemma parse_key: "provider_ok p \<Longrightarrow> str_to_server_uri (key_of p) = Some (Inr (endpoint_of p))"
  using str_to_server_uri_key by (auto simp: provider_ok_def key_of_def endpoint_of_def split: prod.splits)

lemma parse_keys:
  "\<forall>p \<in> set ps. provider_ok p \<Longrightarrow> parse_endpoints (map key_of ps) = Some (Inr (map endpoint_of ps))"
  by (induction ps) (simp_all add: parse_key)

lemma length_dec_nat_le: "n < 10 ^ k \<Longrightarrow> 0 < k \<Longrightarrow> length (dec_nat n) \<le> k"
proof (induction k arbitrary: n)
  case (Suc k)
  show ?case
  proof (cases "n < 10")
    case True
    then show ?thesis by (subst dec_nat.simps) simp
  next
    case False
    then have "0 < k" using Suc.prems by (cases k) auto
    moreover have "n div 10 < 10 ^ k" using Suc.prems by (simp add: less_mult_imp_div_less mult.commute)
    ultimately show ?thesis using False Suc.IH [of "n div 10"] by (subst dec_nat.simps) simp
  qed
qed simp

lemma provider_key_some:
  assumes "provider_ok p" and "p = (c, addr, port)"
  shows "provider_key c addr port = Some (key_of p)"
proof -
  have "nat port < 10 ^ 10" using assms by (simp add: provider_ok_def nat_less_iff)
  then have "length (dec_nat (nat port)) \<le> 10" by (rule length_dec_nat_le) simp
  then have "length (key_of p) < 2048"
    using assms by (simp add: key_of_def provider_ok_def etcd_prefix_def dec_int_nat)
  then show ?thesis using assms(2) by (simp add: provider_key_def key_of_def guard_bind)
qed

section \<open>Properties\<close>

text \<open>C16. Discovery: when the provider agents registered (scale, address, port) and etcd returns their
  keys, \<open>init_consumer\<close> has exactly their addresses, ports and scales, in the order etcd
  returns them, and a fresh load balancer for that many agents.\<close>

theorem discovery_finds_providers:
  assumes "\<forall>p \<in> set ps. provider_ok p" and "ps \<noteq> []" and "length ps \<le> 16"
    and "\<forall>s. b64_decode (b64_encode s) = s"
  shows "\<exists>lb. init_consumer (0, map b64_decode (map (\<lambda>p. b64_encode (key_of p)) ps)) = Some (Inr (map endpoint_of ps, lb)) \<and>
    init_load_balancer (int (length ps)) = Some lb \<and> ends lb = length ps \<and> (\<forall>i < ends lb. outstanding lb i = 0)"
proof -
  have m: "map b64_decode (map (\<lambda>p. b64_encode (key_of p)) ps) = map key_of ps" using assms(4) by simp
  obtain lb where lb: "init_load_balancer (int (length ps)) = Some lb" "ends lb = length ps"
    "\<forall>i < ends lb. outstanding lb i = 0"
    using assms(3) by (simp add: init_load_balancer_def guard_bind ends_def outstanding_def init_history_time_def)
  then show ?thesis
    unfolding m using assms(2,3) parse_keys [OF assms(1)]
    by (simp add: init_consumer_def Let_def guard_bind)
qed

theorem discovery_finds_providers_witness:
  "\<exists>lb. init_consumer (0, map rev (map (\<lambda>p. rev (key_of p)) [(48, bytes ''10.0.0.7'', 30000)])) =
    Some (Inr ([(bytes ''10.0.0.7'', 30000, 0)], lb))"
proof -
  have "\<forall>p \<in> set [(48, bytes ''10.0.0.7'', 30000)]. provider_ok p"
    by (simp add: provider_ok_def bytes_def slash_def colon_def)
  from discovery_finds_providers [OF this, of rev rev] show ?thesis
    by (auto simp: endpoint_of_def)
qed

text \<open>Registration: a provider agent whose address resolved and whose lease was granted puts
  exactly its key, under its lease; when no lease was granted it formats a null pointer.\<close>

theorem registration_puts_key:
  assumes "provider_ok (c, addr, port)"
    and "etcd_grant curl_easy_perform jsmn_parse fresh etcd_url 600 = Some lease"
  shows "on_resolved curl_easy_perform jsmn_parse b64_encode fresh etcd_url 0 addr c port =
    (case lease of None \<Rightarrow> None
     | Some l \<Rightarrow> map_option (\<lambda>r. Inr (Some l, r))
         (etcd_put curl_easy_perform b64_encode etcd_url (key_of (c, addr, port)) (Some l)))"
proof -
  have n: "etcd_put curl_easy_perform b64_encode etcd_url key None = None" for key
    by (cases "full_url (etcd_url @ bytes ''/v3alpha/kv/put'')") (simp_all add: etcd_put_def)
  show ?thesis
    using assms provider_key_some [OF assms(1) refl] n
    by (simp add: on_resolved_def P_DEFAULT_LEASE_TTL_def provider_ok_def guard_bind map_conv_bind_option comp_def
        split: option.split)
qed

theorem registration_puts_key_witness:
  "on_resolved (\<lambda>url body. (7, [])) (\<lambda>json cap. (0, [])) rev (\<lambda>n. replicate n 0) (bytes ''http://e'') 0
    (bytes ''10.0.0.7'') 48 30000 = None"
proof -
  have ok: "provider_ok (48, bytes ''10.0.0.7'', 30000)"
    by (simp add: provider_ok_def bytes_def slash_def colon_def)
  have "length (dec_int 600) < 100" by (simp add: dec_int_def dec_nat.simps)
  then have g: "etcd_grant (\<lambda>url body. (7, [])) (\<lambda>json cap. (0, [])) (\<lambda>n. replicate n 0) (bytes ''http://e'') 600 = Some None"
    by (simp add: etcd_grant_def full_url_short CURLE_OK_def)
  from registration_puts_key [OF ok g, of rev] show ?thesis by simp
qed

end
