(* ===== verification/Consumer_System.thy ===== *)
theory Consumer_System
  imports Consumer_Responses Consumer_Connect Discovery
begin

text \<open>
  The consumer agent as a whole: its event loops, which share the load balancer, the count of
  connections and the clock, and what happens to them: consumers connect and leave, provider agents
  connect and are lost, requests and responses arrive. A step is one callback of libuv in one loop, on
  that loop's state with the shared parts put in; a read from a provider agent is one step per frame in
  it, the body of the loop of \<open>c_read_from_provide_agents\<close>, on whatever the buffer holds. Steps
  of different loops touch common data in the two critical sections only, so their order is the order of
  these.

  The results are about every reachable state: the count of connections is what it counts and stays
  within its limit, with the connections beyond it left out, each loop's identifiers are its own, and a
  response finds the request that it answers unless the loop has sent 4096 requests since, or the
  connection of the request was freed.
\<close>

section \<open>Callbacks\<close>

datatype c_event =
    New_Connection int bool ptr ptr http_req "byte list" "byte list"
  | Read ptr "byte list"
  | Read_Error ptr int
  | Closed ptr
  | Dummy_Read ptr int
  | Response nat "byte list" int i64

fun c_step :: "(byte list \<Rightarrow> int \<times> int list) \<Rightarrow> i64 \<Rightarrow> c_event \<Rightarrow> consumer \<Rightarrow> consumer option" where
  "c_step phr start_time (New_Connection status accepted p c fresh fresh_raw fresh_package) st = do {
     guard (reqs st p = None);
     (_, st) \<leftarrow> on_new_connection start_time status accepted p c fresh fresh_raw fresh_package st;
     Some st }"
| "c_step phr start_time (Read p bs) st = do { guard (p \<notin> set (closing st)); read_chunk phr p bs st }"
| "c_step phr start_time (Read_Error p nread) st = do {
     guard (nread < 0); c_read_connection_data phr p nread st }"
| "c_step phr start_time (Closed p) st = close_cb p st"
| "c_step phr start_time (Dummy_Read c nread) st = do {
     guard (c \<in> set (ignored st)); Some (c_dummy_read_connection_data c nread st) }"
| "c_step phr start_time (Response w raw len r) st = handle_response (int w) raw len r st"

section \<open>All loops\<close>

record agent =
  loops :: "consumer list"
  nets :: "net list"
  endpoints :: "endpoint list"
  shared_lb :: load_balancer
  shared_conns :: int
  clock :: "nat \<Rightarrow> (int \<times> int) option"

definition with_shared :: "agent \<Rightarrow> nat \<Rightarrow> consumer" where
  "with_shared ag t = (loops ag ! t)\<lparr>global_lb := shared_lb ag,
     global_conn_remain_count := shared_conns ag, times := clock ag\<rparr>"

definition put_loop :: "agent \<Rightarrow> nat \<Rightarrow> consumer \<Rightarrow> agent" where
  "put_loop ag t st = ag\<lparr>loops := (loops ag)[t := st], shared_lb := global_lb st,
     shared_conns := global_conn_remain_count st, clock := times st\<rparr>"

text \<open>
  A callback on behalf of a consumer or a response, or one of the connections to the provider agents,
  on the same server.
\<close>

datatype agent_event = Loop nat c_event | Net nat net_event

fun agent_step ::
  "(byte list \<Rightarrow> int \<times> int list) \<Rightarrow> i64 \<Rightarrow> agent_event \<Rightarrow> agent \<Rightarrow> (int + agent) option" where
  "agent_step phr start_time (Loop t e) ag = do {
     guard (t < length (loops ag));
     st \<leftarrow> c_step phr start_time e (with_shared ag t);
     Some (Inr (put_loop ag t st)) }"
| "agent_step phr start_time (Net t e) ag = do {
     guard (t < length (loops ag) \<and> t < length (nets ag));
     r \<leftarrow> net_step (int (length (endpoints ag))) e ((nets ag ! t)\<lparr>srv := event_loop (loops ag ! t)\<rparr>);
     case r of Inl c \<Rightarrow> Some (Inl c)
     | Inr nt \<Rightarrow> Some (Inr (ag\<lparr>nets := (nets ag)[t := nt],
         loops := (loops ag)[t := (loops ag ! t)\<lparr>event_loop := srv nt\<rparr>]\<rparr>)) }"

text \<open>\<open>consumer\<close> up to the start of the loops, from what \<open>etcd_get\<close> returned.\<close>

definition start_loop ::
  "(nat \<Rightarrow> byte list) \<Rightarrow> tcp_server \<Rightarrow> int \<Rightarrow> load_balancer \<Rightarrow> nat \<Rightarrow> (net \<times> consumer) option" where
  "start_loop fresh_raw fresh num_endpoint_servers lb tid = do {
     nt \<leftarrow> start_work_event_loop fresh_raw num_endpoint_servers (init_tcp_server_t fresh tid);
     Some (nt, \<lparr>event_loop = srv nt, reqs = (\<lambda>_. None), global_lb = lb,
       global_conn_remain_count = 0, times = (\<lambda>_. None), sent = [], closing = [], ignored = [], abandoned = []\<rparr>) }"

fun start_loops ::
  "(nat \<Rightarrow> byte list) \<Rightarrow> (nat \<Rightarrow> tcp_server) \<Rightarrow> int \<Rightarrow> load_balancer \<Rightarrow> nat list \<Rightarrow> (net \<times> consumer) list option" where
  "start_loops fresh_raw fresh num_endpoint_servers lb [] = Some []"
| "start_loops fresh_raw fresh num_endpoint_servers lb (tid # tids) = do {
     l \<leftarrow> start_loop fresh_raw (fresh tid) num_endpoint_servers lb tid;
     ls \<leftarrow> start_loops fresh_raw fresh num_endpoint_servers lb tids;
     Some (l # ls) }"

definition start_agent ::
  "(nat \<Rightarrow> byte list) \<Rightarrow> (nat \<Rightarrow> tcp_server) \<Rightarrow> (nat \<Rightarrow> (int \<times> int) option) \<Rightarrow> int \<times> byte list list \<Rightarrow>
   (int + agent) option" where
  "start_agent fresh_raw fresh gettimeofday etcd_result = do {
     r \<leftarrow> init_consumer etcd_result;
     case r of Inl c \<Rightarrow> Some (Inl c)
     | Inr (es, lb) \<Rightarrow> do {
         ls \<leftarrow> start_loops fresh_raw fresh (int (length es)) lb [0..<EVENT_LOOP_NUM];
         Some (Inr \<lparr>loops = map snd ls, nets = map fst ls, endpoints = es, shared_lb = lb, shared_conns = 0,
           clock = gettimeofday\<rparr>) } }"

text \<open>A run from a given state; after the end of the process nothing more happens.\<close>

fun agent_steps ::
  "(byte list \<Rightarrow> int \<times> int list) \<Rightarrow> i64 \<Rightarrow> agent_event list \<Rightarrow> agent \<Rightarrow> (int + agent) option" where
  "agent_steps phr start_time [] ag = Some (Inr ag)"
| "agent_steps phr start_time (ev # evs) ag = do {
     r \<leftarrow> agent_step phr start_time ev ag;
     case r of Inl c \<Rightarrow> Some (Inl c) | Inr ag \<Rightarrow> agent_steps phr start_time evs ag }"

inductive agent_reach ::
  "(byte list \<Rightarrow> int \<times> int list) \<Rightarrow> i64 \<Rightarrow> agent_event list \<Rightarrow> agent \<Rightarrow> bool"
  for phr start_time where
  start: "start_agent fresh_raw fresh gettimeofday etcd_result = Some (Inr ag) \<Longrightarrow> agent_reach phr start_time [] ag"
| step: "agent_reach phr start_time evs ag \<Longrightarrow> agent_step phr start_time ev ag = Some (Inr ag') \<Longrightarrow>
    agent_reach phr start_time (evs @ [ev]) ag'"

section \<open>What a callback changes\<close>

definition requesters :: "c_out list \<Rightarrow> ptr list" where
  "requesters os = concat (map (\<lambda>o'. case o' of To_Agent _ p _ \<Rightarrow> [p] | To_Client _ _ _ \<Rightarrow> []) os)"

lemma requesters_append [simp]: "requesters (a @ b) = requesters a @ requesters b"
  by (simp add: requesters_def)

lemma requesters_simps [simp]:
  "requesters [] = []" "requesters [To_Agent w p bs] = [p]" "requesters [To_Client c p bs] = []"
  by (simp_all add: requesters_def)

text \<open>The connections a loop has: its requests less those being closed.\<close>

definition open_reqs :: "consumer \<Rightarrow> ptr set" where
  "open_reqs st = dom (reqs st) - set (closing st)"

lemma forward_request_inv:
  assumes "forward_request p h content st = Some st'"
  shows "\<exists>h' lb ts w d bs. select_endpoint_time_based (global_lb st) (get_wall_time (times st 0)) = Some (lb, ts, w) \<and>
    wr (http_req_dict (event_loop st)) (c_mod (sint (req_id (event_loop st))) (int HASH_SLOT_NUM)) (Some p) = Some d \<and>
    client h' = client h \<and> response_package h' = response_package h \<and>
    st' = set_req p h' (st\<lparr>times := (\<lambda>n. times st (Suc n)), global_lb := lb,
      event_loop := (event_loop st)\<lparr>req_id := req_id (event_loop st) + of_nat EVENT_LOOP_NUM, http_req_dict := d\<rparr>,
      sent := sent st @ [To_Agent (nat w) p bs]\<rparr>)"
proof -
  obtain lb ts w raw1 raw2 bs where s: "select_endpoint_time_based (global_lb st) (get_wall_time (times st 0)) = Some (lb, ts, w)"
    "int_to_four_char (word_of_int content) (raw_array h) (request_length h - 12) = Some raw1"
    "long_to_8bytes (req_id (event_loop st)) raw1 (request_length h - 12 + 4) = Some raw2"
    "int_ok (12 + content)" "load raw2 (request_length h - 12) (12 + content) = Some bs"
    using assms by (auto simp: forward_request_def wall_time_def Let_def bind_Some_iff guard_bind split: if_splits)
  show ?thesis
    using assms unfolding forward_request_sends [OF s]
    by (auto simp: send_to_provider_agent_def Let_def bind_Some_iff set_req_def s(1) simp del: c_mod_nonneg
        intro!: exI [of _ "h\<lparr>ts_req_beg := ts, http_req_id := req_id (event_loop st), raw_array := raw2,
          raw_array_size := 0, request_length := - 1\<rparr>"])
qed

text \<open>A read either only fills the request, or also sends it.\<close>

lemma read_chunk_inv:
  assumes "read_chunk phr p bs st = Some st'"
  shows "\<exists>h h'. reqs st p = Some h \<and> client h' = client h \<and> response_package h' = response_package h \<and>
    (st' = set_req p h' st \<or>
     (\<exists>lb ts w d bs. select_endpoint_time_based (global_lb st) (get_wall_time (times st 0)) = Some (lb, ts, w) \<and>
       wr (http_req_dict (event_loop st)) (c_mod (sint (req_id (event_loop st))) (int HASH_SLOT_NUM)) (Some p) = Some d \<and>
       st' = set_req p h' (st\<lparr>times := (\<lambda>n. times st (Suc n)), global_lb := lb,
         event_loop := (event_loop st)\<lparr>req_id := req_id (event_loop st) + of_nat EVENT_LOOP_NUM, http_req_dict := d\<rparr>,
         sent := sent st @ [To_Agent (nat w) p bs]\<rparr>)))"
proof -
  obtain h raw where h: "reqs st p = Some h" "bs \<noteq> []" and
    c: "c_read_connection_data phr p (int (length bs)) (set_req p (h\<lparr>raw_array := raw\<rparr>) st) = Some st'"
    using assms unfolding read_chunk_def
    by (auto simp: bind_Some_iff guard_bind Let_def case_prod_beta simp del: split_paired_All split: if_splits)
  let ?st = "set_req p (h\<lparr>raw_array := raw\<rparr>) st"
  have idem: "set_req p x (?st\<lparr>times := a, global_lb := b, event_loop := e, sent := s\<rparr>) =
      set_req p x (st\<lparr>times := a, global_lb := b, event_loop := e, sent := s\<rparr>)"
    "set_req p x ?st = set_req p x st" for x a b e s
    by (simp_all add: set_req_def)
  consider (fill) h' where "st' = set_req p h' ?st" "client h' = client h" "response_package h' = response_package h"
    | (send) h0 content where "forward_request p h0 content ?st = Some st'" "client h0 = client h"
        "response_package h0 = response_package h"
    using c h(2)
    by (auto simp: c_read_connection_data_def Let_def bind_Some_iff guard_bind split: if_splits prod.splits)
  then show ?thesis
  proof cases
    case fill
    then show ?thesis using h(1) idem(2) by auto
  next
    case send
    from forward_request_inv [OF send(1)] obtain h' lb ts w d bs where
      "select_endpoint_time_based (global_lb st) (get_wall_time (times st 0)) = Some (lb, ts, w)"
      "wr (http_req_dict (event_loop st)) (c_mod (sint (req_id (event_loop st))) (int HASH_SLOT_NUM)) (Some p) = Some d"
      "client h' = client h" "response_package h' = response_package h"
      "st' = set_req p h' (st\<lparr>times := (\<lambda>n. times st (Suc n)), global_lb := lb,
         event_loop := (event_loop st)\<lparr>req_id := req_id (event_loop st) + of_nat EVENT_LOOP_NUM, http_req_dict := d\<rparr>,
         sent := sent st @ [To_Agent (nat w) p bs]\<rparr>)"
      using send(2,3) by (auto simp: idem)
    with h(1) show ?thesis by blast
  qed
qed

lemma read_error_inv:
  assumes "c_read_connection_data phr p nread st = Some st'" and "nread < 0"
  shows "\<exists>h. reqs st p = Some h \<and> p \<notin> set (closing st) \<and>
    st' = st\<lparr>closing := p # closing st, global_conn_remain_count := global_conn_remain_count st - 1\<rparr>"
  using assms by (auto simp: c_read_connection_data_def Let_def bind_Some_iff guard_bind split: if_splits)

lemma init_http_req_length:
  assumes "init_http_req_t fresh fresh_raw fresh_package n = Some h"
  shows "\<exists>h'. h\<lparr>client := Some c\<rparr> = h' \<and> client h' = Some c \<and> length (response_package h') = DEFAULT_PACKAGE_SIZE"
  using assms by (auto simp: init_http_req_t_def bind_Some_iff guard_bind Let_def split: if_splits)

text \<open>The limit at a time, in the first half minute and later.\<close>

definition conn_limit :: "i64 \<Rightarrow> (int \<times> int) option \<Rightarrow> int" where
  "conn_limit start_time now = (if 30000000 < sint (get_wall_time now - start_time) then 1024 else 256)"

lemma conn_limit_le: "conn_limit start_time now \<le> 1024"
  by (simp add: conn_limit_def)

lemma new_connection_inv:
  assumes "on_new_connection start_time status accepted p c fresh fresh_raw fresh_package st = Some (r, st')"
  shows "status \<noteq> 0 \<and> st' = st \<or>
    accepted \<and> conn_limit start_time (times st 0) \<le> global_conn_remain_count st \<and>
      st' = st\<lparr>times := (\<lambda>n. times st (Suc n)), ignored := c # ignored st\<rparr> \<or>
    \<not> accepted \<and> st' = st\<lparr>times := (\<lambda>n. times st (Suc n)), abandoned := c # abandoned st\<rparr> \<or>
    accepted \<and> (\<exists>h. global_conn_remain_count st < conn_limit start_time (times st 0) \<and> client h = Some c \<and> length (response_package h) = DEFAULT_PACKAGE_SIZE \<and>
      st' = set_req p h (st\<lparr>times := (\<lambda>n. times st (Suc n)),
        global_conn_remain_count := global_conn_remain_count st + 1\<rparr>))"
  using assms
  by (auto simp: on_new_connection_def wall_time_def Let_def conn_limit_def MAXIMUM_CONN_COUNT_def MAXIMUM_CONN_WARMUP_COUNT_def
      bind_Some_iff split: if_splits dest!: init_http_req_length)

lemma handle_response_inv:
  assumes "handle_response w raw len r st = Some st'"
  shows "(\<exists>lb. lost_response (global_lb st) w = Some lb \<and> st' = st\<lparr>global_lb := lb\<rparr>) \<or>
    (\<exists>p h h' lb ts now c bs. reqs st p = Some h \<and> client h' = client h \<and>
      finish_endpoint_task_time_based (global_lb st) w ts now = Some lb \<and>
      length (response_package h') = length (response_package h) \<and>
      st' = set_req p h' (st\<lparr>times := (\<lambda>n. times st (Suc n)), global_lb := lb, sent := sent st @ [To_Client c p bs]\<rparr>))"
proof -
  have l: "length package = length (response_package h)"
    if "memcpy (response_package h) 0 raw k len = Some package" for h package k
    using that by (auto simp: memcpy_def bind_Some_iff dest: length_store)
  show ?thesis
    using assms
    by (auto simp: handle_response_def wall_time_def Let_def bind_Some_iff split: option.splits dest!: l)
      (metis (no_types, lifting) http_req.select_convs(1,8) http_req.surjective http_req.update_convs(8))
qed

section \<open>The invariant of a loop\<close>

text \<open>The array of requests, as the requests sent so far leave it in loop \<open>t\<close>.\<close>

definition dict_of :: "nat \<Rightarrow> ptr list \<Rightarrow> ptr option list" where
  "dict_of t ps = foldl (\<lambda>d i. d[slot (of_nat (t + 2 * i)) := Some (ps ! i)])
     (replicate HASH_SLOT_NUM None) [0..<length ps]"

lemma dict_of_Nil: "dict_of t [] = replicate HASH_SLOT_NUM None"
  by (simp add: dict_of_def)

lemma dict_of_snoc: "dict_of t (ps @ [p]) = (dict_of t ps)[slot (of_nat (t + 2 * length ps)) := Some p]"
proof -
  have "foldl (\<lambda>d i. d[slot (of_nat (t + 2 * i)) := Some ((ps @ [p]) ! i)]) d [0..<length ps] =
      foldl (\<lambda>d i. d[slot (of_nat (t + 2 * i)) := Some (ps ! i)]) d [0..<length ps]" for d
    by (rule foldl_cong) (simp_all add: nth_append)
  then show ?thesis by (simp add: dict_of_def)
qed

lemma length_dict_of [simp]: "length (dict_of t ps) = HASH_SLOT_NUM"
  by (induction ps rule: rev_induct) (simp_all add: dict_of_Nil dict_of_snoc)

lemma sint_of_nat_i64: "m < 2 ^ 63 \<Longrightarrow> sint (of_nat m :: i64) = int m"
  using sint_of_int_i64 [of "int m"] by simp

lemma slot_of_nat: "m < 2 ^ 63 \<Longrightarrow> slot (of_nat m) = m mod 8192"
  by (simp add: slot_def sint_of_nat_i64 HASH_SLOT_NUM_def nat_mod_distrib)

text \<open>The last 4096 requests are still in the array.\<close>

lemma dict_of_recent:
  assumes "i < length ps" and "length ps - i \<le> 4096" and "t + 2 * length ps < 2 ^ 63"
  shows "dict_of t ps ! slot (of_nat (t + 2 * i)) = Some (ps ! i)"
  using assms
proof (induction ps rule: rev_induct)
  case (snoc p ps)
  have s: "slot (of_nat (t + 2 * i)) = (t + 2 * i) mod 8192" "slot (of_nat (t + 2 * length ps)) = (t + 2 * length ps) mod 8192"
    using snoc.prems by (simp_all add: slot_of_nat del: of_nat_add of_nat_mult)
  have lt: "slot (of_nat (t + 2 * length ps)) < length (dict_of t ps)" using slot_less by simp
  show ?case
  proof (cases "i = length ps")
    case True
    then show ?thesis using lt by (simp add: dict_of_snoc del: of_nat_add of_nat_mult)
  next
    case False
    then have i: "i < length ps" "length ps - i \<le> 4096" using snoc.prems by simp_all
    have "(t + 2 * i) mod 8192 \<noteq> (t + 2 * length ps) mod 8192"
    proof
      assume "(t + 2 * i) mod 8192 = (t + 2 * length ps) mod 8192"
      then have "8192 dvd (t + 2 * length ps) - (t + 2 * i)" using i(1) by (intro mod_eq_dvd_iff_nat [THEN iffD1]) simp_all
      moreover have "(t + 2 * length ps) - (t + 2 * i) = 2 * (length ps - i)" by arith
      ultimately have "8192 dvd 2 * (length ps - i)" by simp
      then have "8192 \<le> 2 * (length ps - i)" using i(1) by (intro dvd_imp_le) simp_all
      then show False using snoc.prems(2) i(1) by simp
    qed
    then show ?thesis
      using snoc.IH i snoc.prems(3) s by (simp add: dict_of_snoc nth_append del: of_nat_add of_nat_mult)
  qed
qed simp

definition loop_inv :: "nat \<Rightarrow> consumer \<Rightarrow> bool" where
  "loop_inv t st \<longleftrightarrow>
     req_id (event_loop st) = of_nat (t + 2 * length (requesters (sent st))) \<and>
     length (http_req_dict (event_loop st)) = HASH_SLOT_NUM \<and>
     (t + 2 * length (requesters (sent st)) < 2 ^ 63 \<longrightarrow> http_req_dict (event_loop st) = dict_of t (requesters (sent st))) \<and>
     finite (dom (reqs st)) \<and> set (closing st) \<subseteq> dom (reqs st) \<and> distinct (closing st) \<and>
     (\<forall>p h. reqs st p = Some h \<longrightarrow> client h \<noteq> None \<and> length (response_package h) = DEFAULT_PACKAGE_SIZE)"

lemma loop_inv_shared [simp]:
  "loop_inv t (st\<lparr>global_lb := lb\<rparr>) = loop_inv t st"
  "loop_inv t (st\<lparr>times := ts\<rparr>) = loop_inv t st"
  "loop_inv t (st\<lparr>global_conn_remain_count := n\<rparr>) = loop_inv t st"
  "loop_inv t (st\<lparr>ignored := over\<rparr>) = loop_inv t st"
  "loop_inv t (st\<lparr>abandoned := out\<rparr>) = loop_inv t st"
  by (simp_all add: loop_inv_def)

lemma open_reqs_shared [simp]:
  "open_reqs (st\<lparr>global_lb := lb\<rparr>) = open_reqs st"
  "open_reqs (st\<lparr>times := ts\<rparr>) = open_reqs st"
  "open_reqs (st\<lparr>global_conn_remain_count := n\<rparr>) = open_reqs st"
  "open_reqs (st\<lparr>ignored := over\<rparr>) = open_reqs st"
  "open_reqs (st\<lparr>abandoned := out\<rparr>) = open_reqs st"
  by (simp_all add: open_reqs_def)

lemma finite_open_reqs: "loop_inv t st \<Longrightarrow> finite (open_reqs st)"
  by (simp add: loop_inv_def open_reqs_def)

text \<open>Filling in the request of a connection, and sending it.\<close>

lemma loop_inv_set_req:
  assumes "loop_inv t st" and "reqs st p = Some h" and "client h' = client h"
    and "length (response_package h') = length (response_package h)"
  shows "loop_inv t (set_req p h' st) \<and> open_reqs (set_req p h' st) = open_reqs st"
  using assms by (auto simp: loop_inv_def open_reqs_def)

lemma loop_inv_send:
  assumes inv: "loop_inv t st"
    and d: "wr (http_req_dict (event_loop st)) (c_mod (sint (req_id (event_loop st))) (int HASH_SLOT_NUM)) (Some p) = Some d"
  shows "loop_inv t (st\<lparr>event_loop := (event_loop st)\<lparr>req_id := req_id (event_loop st) + of_nat EVENT_LOOP_NUM,
      http_req_dict := d\<rparr>, sent := sent st @ [To_Agent w p bs]\<rparr>)"
proof -
  let ?k = "length (requesters (sent st))"
  have r: "req_id (event_loop st) = of_nat (t + 2 * ?k)" using inv by (simp add: loop_inv_def)
  have "d = dict_of t (requesters (sent st) @ [p])" if s: "t + 2 * Suc ?k < 2 ^ 63"
  proof -
    have "http_req_dict (event_loop st) = dict_of t (requesters (sent st))" using inv s by (simp add: loop_inv_def)
    moreover have "0 \<le> sint (req_id (event_loop st))"
      unfolding r using s by (simp add: sint_of_nat_i64 del: of_nat_add of_nat_mult)
    ultimately show ?thesis
      using d slot_less [of "req_id (event_loop st)"] unfolding dict_of_snoc
      by (simp add: dict_index wr_list_update r del: c_mod_nonneg of_nat_add of_nat_mult)
  qed
  with inv length_wr [OF d] show ?thesis
    by (simp add: loop_inv_def EVENT_LOOP_NUM_def algebra_simps)
qed

text \<open>Every callback keeps the invariant, and the count of connections counts.\<close>

definition counts :: "nat \<Rightarrow> consumer \<Rightarrow> consumer \<Rightarrow> bool" where
  "counts t st st' \<longleftrightarrow> loop_inv t st' \<and>
     global_conn_remain_count st' - int (card (open_reqs st')) =
       global_conn_remain_count st - int (card (open_reqs st)) \<and>
     global_conn_remain_count st' \<le> max 1024 (global_conn_remain_count st)"

lemma counts_same:
  "loop_inv t st' \<Longrightarrow> open_reqs st' = open_reqs st \<Longrightarrow>
   global_conn_remain_count st' = global_conn_remain_count st \<Longrightarrow> counts t st st'"
  by (simp add: counts_def)

lemma loop_inv_closing:
  "loop_inv t st \<Longrightarrow> reqs st p = Some h \<Longrightarrow> p \<notin> set (closing st) \<Longrightarrow> loop_inv t (st\<lparr>closing := p # closing st\<rparr>)"
  by (auto simp: loop_inv_def)

lemma counts_new:
  assumes inv: "loop_inv t st" and "on_new_connection start_time status accepted p c fresh raw package st = Some (r, st')"
    and p: "reqs st p = None"
  shows "counts t st st'"
proof -
  have fin: "finite (open_reqs st)" using inv by (rule finite_open_reqs)
  have "p \<notin> open_reqs st" "p \<notin> set (closing st)" using p inv by (auto simp: open_reqs_def loop_inv_def)
  then have n: "open_reqs (set_req p h st1) = insert p (open_reqs st)" "card (insert p (open_reqs st)) = Suc (card (open_reqs st))"
    if "reqs st1 = reqs st" "closing st1 = closing st" for h st1
    using that fin by (auto simp: open_reqs_def)
  have i: "loop_inv t (set_req p h (st\<lparr>times := ts, global_conn_remain_count := k\<rparr>))"
    if "client h = Some c" "length (response_package h) = DEFAULT_PACKAGE_SIZE" for h ts k
    using inv that by (auto simp: loop_inv_def)
  from new_connection_inv [OF assms(2)] inv show ?thesis
    by (elim disjE exE conjE) (use conn_limit_le [of start_time "times st 0"] in \<open>auto simp: counts_def n i\<close>)
qed

lemma counts_read:
  assumes inv: "loop_inv t st" and "read_chunk phr p bs st = Some st'"
  shows "counts t st st'"
proof -
  obtain h h' where h: "reqs st p = Some h" "client h' = client h" "response_package h' = response_package h" and
    c: "st' = set_req p h' st \<or>
     (\<exists>lb ts w d bs. wr (http_req_dict (event_loop st)) (c_mod (sint (req_id (event_loop st))) (int HASH_SLOT_NUM)) (Some p) = Some d \<and>
       st' = set_req p h' (st\<lparr>times := (\<lambda>n. times st (Suc n)), global_lb := lb,
         event_loop := (event_loop st)\<lparr>req_id := req_id (event_loop st) + of_nat EVENT_LOOP_NUM, http_req_dict := d\<rparr>,
         sent := sent st @ [To_Agent (nat w) p bs]\<rparr>))"
    using read_chunk_inv [OF assms(2)] by blast
  from c show ?thesis
  proof
    assume "st' = set_req p h' st"
    then show ?thesis using loop_inv_set_req [OF inv h(1), of h'] h(2,3) by (simp add: counts_def)
  next
    assume "\<exists>lb ts w d bs. wr (http_req_dict (event_loop st)) (c_mod (sint (req_id (event_loop st))) (int HASH_SLOT_NUM)) (Some p) = Some d \<and>
       st' = set_req p h' (st\<lparr>times := (\<lambda>n. times st (Suc n)), global_lb := lb,
         event_loop := (event_loop st)\<lparr>req_id := req_id (event_loop st) + of_nat EVENT_LOOP_NUM, http_req_dict := d\<rparr>,
         sent := sent st @ [To_Agent (nat w) p bs]\<rparr>)"
    then obtain lb ts w d bs where
      d: "wr (http_req_dict (event_loop st)) (c_mod (sint (req_id (event_loop st))) (int HASH_SLOT_NUM)) (Some p) = Some d" and
      st': "st' = set_req p h' (st\<lparr>times := (\<lambda>n. times st (Suc n)), global_lb := lb,
         event_loop := (event_loop st)\<lparr>req_id := req_id (event_loop st) + of_nat EVENT_LOOP_NUM, http_req_dict := d\<rparr>,
         sent := sent st @ [To_Agent (nat w) p bs]\<rparr>)" by blast
    let ?st = "st\<lparr>times := (\<lambda>n. times st (Suc n)), global_lb := lb\<rparr>"
    let ?sent = "st\<lparr>times := (\<lambda>n. times st (Suc n)), global_lb := lb,
         event_loop := (event_loop st)\<lparr>req_id := req_id (event_loop st) + of_nat EVENT_LOOP_NUM, http_req_dict := d\<rparr>,
         sent := sent st @ [To_Agent (nat w) p bs]\<rparr>"
    have "loop_inv t ?sent" using loop_inv_send [of t ?st p d "nat w" bs] inv d by simp
    from loop_inv_set_req [OF this, of p h h'] h show ?thesis
      unfolding st' by (simp add: counts_def open_reqs_def)
  qed
qed

lemma counts_error:
  assumes inv: "loop_inv t st" and "c_read_connection_data phr p nread st = Some st'" and "nread < 0"
  shows "counts t st st'"
proof -
  obtain h where h: "reqs st p = Some h" "p \<notin> set (closing st)"
    "st' = st\<lparr>closing := p # closing st, global_conn_remain_count := global_conn_remain_count st - 1\<rparr>"
    using read_error_inv [OF assms(2,3)] by blast
  have "p \<in> open_reqs st" using h by (auto simp: open_reqs_def)
  moreover from this have "0 < card (open_reqs st)" using finite_open_reqs [OF inv] by (auto simp: card_gt_0_iff)
  moreover have "open_reqs st' = open_reqs st - {p}" using h(3) by (auto simp: open_reqs_def)
  ultimately show ?thesis using finite_open_reqs [OF inv] loop_inv_closing [OF inv h(1,2)] h(3)
    by (auto simp: counts_def loop_inv_def)
qed

lemma counts_closed:
  assumes inv: "loop_inv t st" and "close_cb p st = Some st'"
  shows "counts t st st'"
proof -
  have p: "p \<in> set (closing st)" "st' = st\<lparr>reqs := (reqs st)(p := None), closing := removeAll p (closing st)\<rparr>"
    using assms(2) by (auto simp: close_cb_def free_http_req_def bind_Some_iff guard_bind split: if_splits)
  then have "open_reqs st' = open_reqs st" by (auto simp: open_reqs_def)
  moreover have "loop_inv t st'" using inv p by (auto simp: loop_inv_def distinct_removeAll)
  ultimately show ?thesis using p(2) by (auto intro!: counts_same)
qed

lemma counts_dummy: "loop_inv t st \<Longrightarrow> counts t st (c_dummy_read_connection_data c nread st)"
  by (rule counts_same) (simp_all add: c_dummy_read_connection_data_def)

lemma counts_answer:
  assumes inv: "loop_inv t st" and "handle_response w raw len r st = Some st'"
  shows "counts t st st'"
proof -
  from handle_response_inv [OF assms(2)] consider (lost) lb where "st' = st\<lparr>global_lb := lb\<rparr>"
    | (reply) p h h' lb c bs where "reqs st p = Some h" "client h' = client h"
        "length (response_package h') = length (response_package h)"
        "st' = set_req p h' (st\<lparr>times := (\<lambda>n. times st (Suc n)), global_lb := lb, sent := sent st @ [To_Client c p bs]\<rparr>)"
    by blast
  then show ?thesis
  proof cases
    case lost
    then show ?thesis using inv by (auto intro!: counts_same)
  next
    case (reply p h h' lb c bs)
    let ?st = "st\<lparr>times := (\<lambda>n. times st (Suc n)), global_lb := lb, sent := sent st @ [To_Client c p bs]\<rparr>"
    have "loop_inv t ?st" using inv by (simp add: loop_inv_def)
    from loop_inv_set_req [OF this, of p h h'] reply show ?thesis by (simp add: counts_def open_reqs_def)
  qed
qed

lemma counts_step:
  assumes "loop_inv t st" and "c_step phr start_time e st = Some st'"
  shows "counts t st st'"
  using assms
  by (cases e) (auto simp: bind_Some_iff guard_bind split: if_splits
      intro: counts_new counts_read counts_error counts_closed counts_dummy counts_answer)

section \<open>Requests in flight\<close>

definition sent_to :: "nat \<Rightarrow> consumer \<Rightarrow> int" where
  "sent_to i st = int (count_list (map (\<lambda>o'. case o' of To_Agent w _ _ \<Rightarrow> Some w | To_Client _ _ _ \<Rightarrow> None) (sent st)) (Some i))"

fun answer_of :: "nat \<Rightarrow> c_event \<Rightarrow> int" where
  "answer_of i (Response w raw len r) = (if w = i then 1 else 0)"
| "answer_of i _ = 0"

lemma sent_to_simps [simp]:
  "sent_to i (st\<lparr>sent := sent st @ [To_Agent w p bs]\<rparr>) = sent_to i st + (if w = i then 1 else 0)"
  "sent_to i (st\<lparr>sent := sent st @ [To_Client c p bs]\<rparr>) = sent_to i st"
  "sent_to i (set_req p h st) = sent_to i st"
  by (simp_all add: sent_to_def)

lemma sent_to_sent: "sent st' = sent st \<Longrightarrow> sent_to i st' = sent_to i st"
  by (simp add: sent_to_def)

lemma ends_moves:
  "select_endpoint_time_based lb now = Some (lb', ts, w) \<Longrightarrow> ends lb' = ends lb"
  "finish_endpoint_task_time_based lb w' ts now = Some lb' \<Longrightarrow> ends lb' = ends lb \<and> 0 \<le> w' \<and> nat w' < ends lb"
  "lost_response lb w' = Some lb' \<Longrightarrow> ends lb' = ends lb \<and> 0 \<le> w' \<and> nat w' < ends lb"
  by (auto simp: select_endpoint_time_based_def finish_endpoint_task_time_based_def lost_response_def add_remain_def
      ends_def bind_Some_iff guard_bind Let_def rd_def dest!: length_wr split: if_splits)

definition room :: "load_balancer \<Rightarrow> bool" where
  "room lb \<longleftrightarrow> lb_ok lb \<and> (\<forall>i < ends lb. int_ok (outstanding lb i + 1) \<and> int_ok (outstanding lb i - 1))"

definition accounts :: "c_event \<Rightarrow> consumer \<Rightarrow> consumer \<Rightarrow> bool" where
  "accounts e st st' \<longleftrightarrow> ends (global_lb st') = ends (global_lb st) \<and>
     (\<forall>i. \<bar>sent_to i st' - answer_of i e - sent_to i st\<bar> \<le> 1) \<and>
     (room (global_lb st) \<longrightarrow> lb_ok (global_lb st') \<and>
        (\<forall>i < ends (global_lb st). outstanding (global_lb st') i - sent_to i st' + answer_of i e =
           outstanding (global_lb st) i - sent_to i st))"

lemma accounts_same:
  "global_lb st' = global_lb st \<Longrightarrow> sent st' = sent st \<Longrightarrow> (\<forall>i. answer_of i e = 0) \<Longrightarrow> accounts e st st'"
  by (simp add: accounts_def room_def sent_to_sent [of st' st])

lemma accounts_send:
  assumes "select_endpoint_time_based (global_lb st) now = Some (lb, ts, w)"
    and "global_lb st' = lb" and "sent st' = sent st @ [To_Agent (nat w) p bs]" and "\<forall>i. answer_of i e = 0"
  shows "accounts e st st'"
proof -
  have n: "sent_to i st' = sent_to i st + (if nat w = i then 1 else 0)" for i
    using assms(3) by (simp add: sent_to_def)
  have "lb_ok lb \<and> (\<forall>i < ends lb. outstanding lb i - sent_to i st' = outstanding (global_lb st) i - sent_to i st)"
    if "room (global_lb st)"
    using lb.sel_some [of "global_lb st" now] that assms(1) by (auto simp: room_def n)
  with assms(2,4) ends_moves(1) [OF assms(1)] show ?thesis by (simp add: accounts_def n)
qed

lemma accounts_answer:
  assumes "handle_response (int w) raw len r st = Some st'"
  shows "accounts (Response w raw len r) st st'"
proof -
  from handle_response_inv [OF assms] consider
      (lost) lb where "lost_response (global_lb st) (int w) = Some lb" "global_lb st' = lb" "sent st' = sent st"
    | (reply) lb ts now c p bs where "finish_endpoint_task_time_based (global_lb st) (int w) ts now = Some lb"
        "global_lb st' = lb" "sent st' = sent st @ [To_Client c p bs]"
    by fastforce
  then show ?thesis
  proof cases
    case lost
    then have "w < ends (global_lb st)" "ends lb = ends (global_lb st)" using ends_moves(3) by fastforce+
    with lost show ?thesis using lb.lost_some [of "global_lb st" w] sent_to_sent [of st' st]
      by (auto simp: accounts_def room_def)
  next
    case reply
    then have "w < ends (global_lb st)" "ends lb = ends (global_lb st)" using ends_moves(2) by fastforce+
    moreover have "sent_to i st' = sent_to i st" for i using reply(3) by (simp add: sent_to_def)
    ultimately show ?thesis using reply lb.fin_some [of "global_lb st" w ts now]
      by (auto simp: accounts_def room_def)
  qed
qed

lemma accounts_step:
  assumes "c_step phr start_time e st = Some st'"
  shows "accounts e st st'"
proof (cases e)
  case (New_Connection status accepted p c fresh fresh_raw fresh_package)
  then obtain r where "on_new_connection start_time status accepted p c fresh fresh_raw fresh_package st = Some (r, st')"
    using assms by (auto simp: bind_Some_iff guard_bind split: if_splits)
  from new_connection_inv [OF this] show ?thesis using New_Connection by (auto intro!: accounts_same)
next
  case (Read p bs)
  then have "read_chunk phr p bs st = Some st'" using assms by (auto simp: guard_bind split: if_splits)
  from read_chunk_inv [OF this] show ?thesis using Read
    by (elim exE conjE disjE) (auto intro: accounts_same accounts_send)
next
  case (Read_Error p nread)
  then have "c_read_connection_data phr p nread st = Some st'" "nread < 0"
    using assms by (auto simp: guard_bind split: if_splits)
  from read_error_inv [OF this] show ?thesis using Read_Error by (auto intro!: accounts_same)
next
  case (Closed p)
  then show ?thesis using assms
    by (auto simp: close_cb_def free_http_req_def bind_Some_iff guard_bind split: if_splits intro!: accounts_same)
next
  case (Dummy_Read c nread)
  then show ?thesis using assms
    by (auto simp: c_dummy_read_connection_data_def guard_bind split: if_splits intro!: accounts_same)
next
  case (Response w raw len r)
  then show ?thesis using assms by (simp add: accounts_answer)
qed

section \<open>The invariant of the agent\<close>

definition connections :: "agent \<Rightarrow> int" where
  "connections ag = (\<Sum>st\<leftarrow>loops ag. int (card (open_reqs st)))"

definition sent_to_all :: "nat \<Rightarrow> agent \<Rightarrow> int" where
  "sent_to_all i ag = (\<Sum>st\<leftarrow>loops ag. sent_to i st)"

fun answer_in :: "nat \<Rightarrow> agent_event \<Rightarrow> int" where
  "answer_in i (Loop t e) = answer_of i e"
| "answer_in i (Net t e) = 0"

definition answers_of :: "nat \<Rightarrow> agent_event list \<Rightarrow> int" where
  "answers_of i evs = (\<Sum>ev\<leftarrow>evs. answer_in i ev)"

definition agent_inv :: "agent_event list \<Rightarrow> agent \<Rightarrow> bool" where
  "agent_inv evs ag \<longleftrightarrow> length (loops ag) = EVENT_LOOP_NUM \<and>
     (\<forall>t < EVENT_LOOP_NUM. loop_inv t (loops ag ! t)) \<and>
     shared_conns ag = connections ag \<and> shared_conns ag \<le> 1024 \<and>
     (ends (shared_lb ag) \<le> 3 \<and> length evs < 2 ^ 31 \<longrightarrow> lb_ok (shared_lb ag) \<and>
       (\<forall>i < ends (shared_lb ag). outstanding (shared_lb ag) i = sent_to_all i ag - answers_of i evs \<and>
          \<bar>outstanding (shared_lb ag) i\<bar> \<le> int (length evs)))"

lemma sum_list_update_group:
  "i < length xs \<Longrightarrow> (\<Sum>x\<leftarrow>xs[i := y]. f x) = (\<Sum>x\<leftarrow>xs. f x) - f (xs ! i) + (f y :: int)"
  by (induction xs arbitrary: i) (auto split: nat.split)

text \<open>The connections to the agents do not touch the identifiers and the array.\<close>

definition same_ids :: "tcp_server \<Rightarrow> tcp_server \<Rightarrow> bool" where
  "same_ids s s' \<longleftrightarrow> req_id s' = req_id s \<and> http_req_dict s' = http_req_dict s"

lemma same_ids_make:
  assumes "make_connection_to_agent i nt = Some nt'"
  shows "same_ids (srv nt) (srv nt')"
  using assms
  by (auto simp: make_connection_to_agent_def free_handle_def free_connect_req_def same_ids_def bind_Some_iff guard_bind Let_def
      put_endpoint_def split: if_splits option.splits)

lemma same_ids_connect: "connect_loop is nt = Some nt' \<Longrightarrow> same_ids (srv nt) (srv nt')"
proof (induction "is" arbitrary: nt)
  case (Cons i js)
  then obtain nt1 where "make_connection_to_agent i nt = Some nt1" "connect_loop js nt1 = Some nt'"
    by (auto simp: bind_Some_iff)
  with Cons.IH [of nt1] same_ids_make [of i nt nt1] show ?case by (simp add: same_ids_def)
qed (simp add: same_ids_def)

lemma same_ids_net_step:
  assumes "net_step num e nt = Some (Inr nt')"
  shows "same_ids (srv nt) (srv nt')"
proof (cases e)
  case (Connect_Done i status r)
  then have c: "c_after_connect_to_a_agent num i status r (nt\<lparr>connecting := remove1 i (connecting nt)\<rparr>) = Some (Inr nt')"
    using assms by (simp add: guard_bind split: if_splits)
  show ?thesis
  proof (cases "status = 0")
    case True
    then show ?thesis using c
      by (auto simp: c_after_connect_to_a_agent_def same_ids_def bind_Some_iff guard_bind Let_def put_endpoint_def
          start_listen_def split: if_splits)
  next
    case False
    then obtain j where "make_connection_to_agent j (nt\<lparr>connecting := remove1 i (connecting nt)\<rparr>) = Some nt'"
      using c by (auto simp: c_after_connect_to_a_agent_def bind_Some_iff)
    from same_ids_make [OF this] show ?thesis by simp
  qed
next
  case (Agent_Eof i)
  then show ?thesis using assms
    by (auto simp: agent_closed_def same_ids_def bind_Some_iff guard_bind Let_def put_endpoint_def split: if_splits)
next
  case (Close_Done i)
  then obtain j h where "make_connection_to_agent j
      (nt\<lparr>reclosing := remove1 i (reclosing nt), open_handles := removeAll h (open_handles nt)\<rparr>) = Some nt'"
    using assms by (auto simp: reconnection_to_agent_def bind_Some_iff guard_bind split: if_splits)
  from same_ids_make [OF this] show ?thesis by simp
qed

lemma loop_inv_same_ids:
  "same_ids (event_loop st) s \<Longrightarrow> loop_inv t (st\<lparr>event_loop := s\<rparr>) = loop_inv t st"
  by (simp add: loop_inv_def same_ids_def)

lemma start_loop_inv:
  assumes "start_loop fresh_raw fresh num lb t = Some (nt, st)"
  shows "loop_inv t st \<and> open_reqs st = {} \<and> sent_to i st = 0"
proof -
  obtain s where s: "init_endpoint_servers fresh_raw num (init_tcp_server_t fresh t) = Some s" "same_ids s (srv nt)" and
    st: "event_loop st = srv nt" "reqs st = (\<lambda>_. None)" "sent st = []" "closing st = []"
    using assms
    by (auto simp: start_loop_def start_work_event_loop_def connect_to_provider_agent_long_live_def bind_Some_iff
        dest!: same_ids_connect)
  then have "req_id (event_loop st) = of_nat t" "http_req_dict (event_loop st) = replicate HASH_SLOT_NUM None"
    by (auto simp: init_endpoint_servers_def init_tcp_server_t_def same_ids_def guard_bind split: if_splits)
  with st show ?thesis by (simp add: loop_inv_def dict_of_Nil open_reqs_def sent_to_def)
qed

lemma agent_inv_start:
  assumes "start_agent fresh_raw fresh gettimeofday etcd_result = Some (Inr ag)"
  shows "agent_inv [] ag"
proof -
  obtain es lb ls where lb: "init_consumer etcd_result = Some (Inr (es, lb))" and
    ls: "start_loops fresh_raw fresh (int (length es)) lb [0..<EVENT_LOOP_NUM] = Some ls" and
    ag: "ag = \<lparr>loops = map snd ls, nets = map fst ls, endpoints = es, shared_lb = lb, shared_conns = 0, clock = gettimeofday\<rparr>"
  proof -
    obtain x where "init_consumer etcd_result = Some x" using assms by (auto simp: start_agent_def bind_Some_iff)
    with assms that show ?thesis by (cases x) (auto simp: start_agent_def bind_Some_iff)
  qed
  obtain n where n: "n > 0" "init_load_balancer n = Some lb"
  proof -
    obtain r x where x: "etcd_result = (r, x)" by (cases etcd_result)
    then obtain y where "x \<noteq> []" and "parse_endpoints x = Some y" and
      "(case y of Inl c \<Rightarrow> Some (Inl c) | Inr es \<Rightarrow> do { lb \<leftarrow> init_load_balancer (int (length x)); Some (Inr (es, lb)) }) =
        Some (Inr (es, lb))"
      using lb by (auto simp: init_consumer_def Let_def bind_Some_iff guard_bind split: if_splits)
    with that [of "int (length x)"] show ?thesis by (cases y) (auto simp: bind_Some_iff)
  qed
  then have "lb = \<lparr>num_of_ends = n, history_diff_time_lst = replicate (nat n) init_history_time\<rparr>"
    by (simp add: init_load_balancer_def guard_bind split: if_splits)
  then have e: "ends lb = nat n" "\<forall>i < ends lb. outstanding lb i = 0"
    by (simp_all add: ends_def outstanding_def init_history_time_def)
  have ok: "ends lb \<le> 3 \<longrightarrow> lb_ok lb" using n e(1) lb_ok_init [of n] by auto
  obtain nt0 st0 nt1 st1 where l: "ls = [(nt0, st0), (nt1, st1)]" and
    i: "start_loop fresh_raw (fresh 0) (int (length es)) lb 0 = Some (nt0, st0)"
       "start_loop fresh_raw (fresh 1) (int (length es)) lb 1 = Some (nt1, st1)"
    using ls by (auto simp: EVENT_LOOP_NUM_def upt_rec bind_Some_iff)
  from start_loop_inv [OF i(1)] start_loop_inv [OF i(2)] ok e show ?thesis
    by (auto simp: agent_inv_def ag l EVENT_LOOP_NUM_def connections_def sent_to_all_def answers_of_def less_2_cases_iff)
qed

lemma agent_inv_loop_step:
  assumes inv: "agent_inv evs ag" and "agent_step phr start_time ev ag = Some (Inr ag')" and ev: "ev = Loop t e"
  shows "agent_inv (evs @ [ev]) ag'"
proof -
  let ?st = "with_shared ag t"
  obtain st' where t: "t < length (loops ag)" and s: "c_step phr start_time e ?st = Some st'" and ag': "ag' = put_loop ag t st'"
    using assms(2) by (auto simp: ev bind_Some_iff guard_bind split: if_splits)
  have t2: "t < EVENT_LOOP_NUM" using t inv by (simp add: agent_inv_def)
  have "loop_inv t ?st" using inv t2 by (simp add: agent_inv_def with_shared_def)
  from counts_step [OF this s] have c: "loop_inv t st'"
    "global_conn_remain_count st' - int (card (open_reqs st')) = shared_conns ag - int (card (open_reqs (loops ag ! t)))"
    "global_conn_remain_count st' \<le> max 1024 (shared_conns ag)"
    by (simp_all add: counts_def with_shared_def)
  have "sent_to i ?st = sent_to i (loops ag ! t)" for i by (rule sent_to_sent) (simp add: with_shared_def)
  with accounts_step [OF s] have a: "ends (global_lb st') = ends (shared_lb ag)"
    "room (shared_lb ag) \<longrightarrow> lb_ok (global_lb st') \<and> (\<forall>i < ends (shared_lb ag).
       outstanding (global_lb st') i - sent_to i st' + answer_of i e = outstanding (shared_lb ag) i - sent_to i (loops ag ! t))"
    "\<bar>sent_to i st' - answer_of i e - sent_to i (loops ag ! t)\<bar> \<le> 1" for i
    by (simp_all add: accounts_def with_shared_def)
  have l: "length (loops ag') = EVENT_LOOP_NUM" "\<forall>t < EVENT_LOOP_NUM. loop_inv t (loops ag' ! t)"
    using inv c(1) t by (auto simp: agent_inv_def ag' put_loop_def nth_list_update split: if_splits)
  have n: "shared_conns ag' = connections ag'" "shared_conns ag' \<le> 1024"
    using inv c(2,3) t by (simp_all add: agent_inv_def ag' put_loop_def connections_def sum_list_update_group)
  have "lb_ok (shared_lb ag') \<and> (\<forall>i < ends (shared_lb ag').
      outstanding (shared_lb ag') i = sent_to_all i ag' - answers_of i (evs @ [ev]) \<and>
      \<bar>outstanding (shared_lb ag') i\<bar> \<le> int (length (evs @ [ev])))"
    if "ends (shared_lb ag') \<le> 3" "length (evs @ [ev]) < 2 ^ 31"
  proof -
    have i: "lb_ok (shared_lb ag)" "\<forall>i < ends (shared_lb ag). outstanding (shared_lb ag) i = sent_to_all i ag - answers_of i evs \<and>
          \<bar>outstanding (shared_lb ag) i\<bar> \<le> int (length evs)"
      using inv that a(1) unfolding agent_inv_def ag' put_loop_def by auto
    have "room (shared_lb ag)" unfolding room_def
    proof (intro conjI allI impI)
      fix k assume "k < ends (shared_lb ag)"
      with i(2) have "\<bar>outstanding (shared_lb ag) k\<bar> \<le> int (length evs)" by blast
      then show "int_ok (outstanding (shared_lb ag) k + 1)" "int_ok (outstanding (shared_lb ag) k - 1)"
        using that(2) by (auto simp: int_ok_def)
    qed (rule i(1))
    with a(2) have b: "lb_ok (global_lb st')" "\<forall>i < ends (shared_lb ag).
       outstanding (global_lb st') i - sent_to i st' + answer_of i e = outstanding (shared_lb ag) i - sent_to i (loops ag ! t)"
      by simp_all
    have d: "sent_to_all k ag' = sent_to_all k ag - sent_to k (loops ag ! t) + sent_to k st'"
      "answers_of k (evs @ [ev]) = answers_of k evs + answer_of k e" for k
      using t by (simp_all add: ag' put_loop_def sent_to_all_def answers_of_def sum_list_update_group ev)
    have "outstanding (shared_lb ag') k = sent_to_all k ag' - answers_of k (evs @ [ev]) \<and>
        \<bar>outstanding (shared_lb ag') k\<bar> \<le> int (length (evs @ [ev]))" if k: "k < ends (shared_lb ag')" for k
    proof -
      have k': "k < ends (shared_lb ag)" using k a(1) by (simp add: ag' put_loop_def)
      have "outstanding (shared_lb ag') k = outstanding (global_lb st') k" by (simp add: ag' put_loop_def)
      moreover from b(2) k' have "outstanding (global_lb st') k - sent_to k st' + answer_of k e =
          outstanding (shared_lb ag) k - sent_to k (loops ag ! t)" by blast
      moreover from i(2) k' have "outstanding (shared_lb ag) k = sent_to_all k ag - answers_of k evs"
        "\<bar>outstanding (shared_lb ag) k\<bar> \<le> int (length evs)" by blast+
      ultimately show ?thesis using a(3) [of k] unfolding d by simp
    qed
    moreover have "lb_ok (shared_lb ag')" using b(1) by (simp add: ag' put_loop_def)
    ultimately show ?thesis by blast
  qed
  then show ?thesis using l n unfolding agent_inv_def by blast
qed

lemma agent_inv_net_step:
  assumes inv: "agent_inv evs ag" and "agent_step phr start_time ev ag = Some (Inr ag')" and ev: "ev = Net t e"
  shows "agent_inv (evs @ [ev]) ag'"
proof -
  let ?nt = "(nets ag ! t)\<lparr>srv := event_loop (loops ag ! t)\<rparr>"
  obtain nt' where t: "t < length (loops ag)" and s: "net_step (int (length (endpoints ag))) e ?nt = Some (Inr nt')" and
    ag': "ag' = ag\<lparr>nets := (nets ag)[t := nt'], loops := (loops ag)[t := (loops ag ! t)\<lparr>event_loop := srv nt'\<rparr>]\<rparr>"
  proof -
    obtain x where "net_step (int (length (endpoints ag))) e ?nt = Some x"
      using assms(2) by (auto simp: ev bind_Some_iff guard_bind split: if_splits simp del: net_step.simps)
    with assms(2) that show ?thesis
      by (cases x) (auto simp: ev bind_Some_iff guard_bind split: if_splits simp del: net_step.simps)
  qed
  let ?st = "(loops ag ! t)\<lparr>event_loop := srv nt'\<rparr>"
  have "same_ids (event_loop (loops ag ! t)) (srv nt')" using same_ids_net_step [OF s] by simp
  then have l: "loop_inv k ?st = loop_inv k (loops ag ! t)" "open_reqs ?st = open_reqs (loops ag ! t)"
    "sent_to i ?st = sent_to i (loops ag ! t)" for k i
    by (simp_all add: loop_inv_same_ids open_reqs_def sent_to_def)
  have "connections ag' = connections ag" "sent_to_all i ag' = sent_to_all i ag"
    "answers_of i (evs @ [ev]) = answers_of i evs" for i
    using t l(2,3) by (simp_all add: ag' connections_def sent_to_all_def answers_of_def sum_list_update_group ev)
  moreover have "\<forall>k < EVENT_LOOP_NUM. loop_inv k (loops ag' ! k)"
    using inv t l(1) by (auto simp: agent_inv_def ag' nth_list_update)
  moreover have "length (loops ag') = length (loops ag)" "shared_conns ag' = shared_conns ag" "shared_lb ag' = shared_lb ag"
    by (simp_all add: ag')
  ultimately show ?thesis using inv unfolding agent_inv_def by fastforce
qed

lemma agent_inv_step:
  "agent_inv evs ag \<Longrightarrow> agent_step phr start_time ev ag = Some (Inr ag') \<Longrightarrow> agent_inv (evs @ [ev]) ag'"
  by (cases ev) (blast intro: agent_inv_loop_step agent_inv_net_step)+

lemma reach_inv: "agent_reach phr start_time evs ag \<Longrightarrow> agent_inv evs ag"
  by (induction rule: agent_reach.induct) (auto intro: agent_inv_start agent_inv_step)

lemma response_finds_requester:
  assumes inv: "agent_inv evs ag" and t: "t < EVENT_LOOP_NUM" and ps: "ps = requesters (sent (loops ag ! t))"
    and k: "k < length ps" "length ps - k \<le> 4096" "t + 2 * length ps < 2 ^ 63"
    and h: "reqs (loops ag ! t) (ps ! k) = Some h"
    and lb: "w < ends (shared_lb ag)" "ends (shared_lb ag) \<le> 3" "length evs < 2 ^ 31 - 1"
    and body: "load raw 12 (int (length body)) = Some body" "length body \<le> DEFAULT_PACKAGE_SIZE"
  shows "\<exists>c ag'. client h = Some c \<and>
    agent_step phr start_time (Loop t (Response w raw (int (length body)) (of_nat (t + 2 * k)))) ag = Some (Inr ag') \<and>
    sent (loops ag' ! t) = sent (loops ag ! t) @ [To_Client c (ps ! k) body]"
proof -
  let ?st = "with_shared ag t" and ?r = "of_nat (t + 2 * k) :: i64"
  have l: "loop_inv t (loops ag ! t)" "length (loops ag) = EVENT_LOOP_NUM" using inv t by (simp_all add: agent_inv_def)
  then have d: "http_req_dict (event_loop ?st) = dict_of t ps" "length (http_req_dict (event_loop ?st)) = HASH_SLOT_NUM"
    using k(3) ps by (simp_all add: loop_inv_def with_shared_def)
  have "0 \<le> sint ?r" using k by (simp add: sint_of_nat_i64 del: of_nat_add of_nat_mult)
  then have idx: "rd (http_req_dict (event_loop ?st)) (c_mod (sint ?r) (int HASH_SLOT_NUM)) = Some (Some (ps ! k))"
    using dict_index [of ?r] slot_less [of ?r] d(1) dict_of_recent [OF k] by (simp add: rd_nth del: c_mod_nonneg of_nat_add of_nat_mult)
  obtain c where c: "client h = Some c" "length (response_package h) = DEFAULT_PACKAGE_SIZE"
    using l(1) h unfolding loop_inv_def by blast
  have o: "lb_ok (shared_lb ag)" "\<bar>outstanding (shared_lb ag) w\<bar> \<le> int (length evs)"
    using inv lb unfolding agent_inv_def by (auto simp del: abs_le_iff)
  then have "int_ok (outstanding (shared_lb ag) w - 1)" using lb(3) by (auto simp: int_ok_def abs_le_iff)
  then obtain lb' where "finish_endpoint_task_time_based (global_lb ?st) (int w) (ts_req_beg h) (get_wall_time (times ?st 0)) = Some lb'"
    using lb.fin_some [OF o(1) lb(1), of "ts_req_beg h" "get_wall_time (times ?st 0)"] by (auto simp: with_shared_def)
  moreover have "reqs ?st (ps ! k) = Some h" using h by (simp add: with_shared_def)
  ultimately have "\<exists>st'. c_step phr start_time (Response w raw (int (length body)) ?r) ?st = Some st' \<and>
      sent st' = sent ?st @ [To_Client c (ps ! k) body]"
    using handle_response_known [OF idx _ c, of "int w" lb' body raw] body by auto
  then show ?thesis using c(1) l(2) t
    by (auto simp: put_loop_def with_shared_def guard_bind simp del: of_nat_add of_nat_mult)
qed

section \<open>New connections\<close>

text \<open>The connections over the limit.\<close>

definition over_limit :: "agent \<Rightarrow> int" where
  "over_limit ag = (\<Sum>st\<leftarrow>loops ag. int (length (ignored st)))"

lemma loop_step_E:
  assumes "agent_step phr start_time (Loop t e) ag = Some (Inr ag')"
  obtains st' where "t < length (loops ag)" "c_step phr start_time e (with_shared ag t) = Some st'" "ag' = put_loop ag t st'"
  using assms by (auto simp: bind_Some_iff guard_bind simp del: c_step.simps split: if_splits)

lemma connections_put:
  "t < length (loops ag) \<Longrightarrow>
   connections (put_loop ag t st) = connections ag - int (card (open_reqs (loops ag ! t))) + int (card (open_reqs st)) \<and>
   over_limit (put_loop ag t st) = over_limit ag - int (length (ignored (loops ag ! t))) + int (length (ignored st))"
  by (simp add: connections_def over_limit_def put_loop_def sum_list_update_group)

lemma with_shared_fields:
  "open_reqs (with_shared ag t) = open_reqs (loops ag ! t)" "ignored (with_shared ag t) = ignored (loops ag ! t)"
  "reqs (with_shared ag t) = reqs (loops ag ! t)" "closing (with_shared ag t) = closing (loops ag ! t)"
  "sent (with_shared ag t) = sent (loops ag ! t)" "event_loop (with_shared ag t) = event_loop (loops ag ! t)"
  "global_conn_remain_count (with_shared ag t) = shared_conns ag" "times (with_shared ag t) = clock ag"
  "global_lb (with_shared ag t) = shared_lb ag"
  by (simp_all add: with_shared_def open_reqs_def)

lemma accepted_connection:
  assumes inv: "agent_inv evs ag"
    and "agent_step phr start_time (Loop t (New_Connection 0 True p c fresh raw package)) ag = Some (Inr ag')"
  shows "if shared_conns ag < conn_limit start_time (clock ag 0)
    then connections ag' = connections ag + 1 \<and> over_limit ag' = over_limit ag
    else connections ag' = connections ag \<and> over_limit ag' = over_limit ag + 1"
proof -
  obtain st' where t: "t < length (loops ag)" and
    c: "c_step phr start_time (New_Connection 0 True p c fresh raw package) (with_shared ag t) = Some st'" and
    ag': "ag' = put_loop ag t st'"
    by (rule loop_step_E [OF assms(2)])
  obtain r where p: "reqs (loops ag ! t) p = None" and
    n: "on_new_connection start_time 0 True p c fresh raw package (with_shared ag t) = Some (r, st')"
    using c by (auto simp: bind_Some_iff guard_bind with_shared_fields split: if_splits)
  have "loop_inv t (loops ag ! t)" using inv t by (simp add: agent_inv_def)
  then have f: "finite (open_reqs (loops ag ! t))" "p \<notin> open_reqs (loops ag ! t)" "p \<notin> set (closing (loops ag ! t))"
    using p by (auto simp: loop_inv_def open_reqs_def)
  have "open_reqs (set_req p h st1) = insert p (open_reqs (loops ag ! t))"
    if "reqs st1 = reqs (loops ag ! t)" "closing st1 = closing (loops ag ! t)" for h st1
    using that f(3) by (auto simp: open_reqs_def)
  with new_connection_inv [OF n] f(1,2) connections_put [OF t, of st'] show ?thesis
    by (auto simp: ag' with_shared_fields)
qed

lemma dummy_read_step:
  assumes "agent_step phr start_time (Loop t (Dummy_Read c nread)) ag = Some (Inr ag')"
  shows "connections ag' = connections ag \<and> shared_conns ag' = shared_conns ag \<and>
    over_limit ag' = over_limit ag - (if nread < 0 then 1 else 0)"
proof -
  obtain st' where t: "t < length (loops ag)" and
    c: "c_step phr start_time (Dummy_Read c nread) (with_shared ag t) = Some st'" and ag': "ag' = put_loop ag t st'"
    by (rule loop_step_E [OF assms])
  then have i: "c \<in> set (ignored (loops ag ! t))" and st': "st' = c_dummy_read_connection_data c nread (with_shared ag t)"
    by (auto simp: guard_bind with_shared_fields split: if_splits)
  have "int (length (remove1 c (ignored (loops ag ! t)))) = int (length (ignored (loops ag ! t))) - 1"
    using i length_pos_if_in_set [OF i] by (simp add: length_remove1 of_nat_diff Suc_leI del: length_greater_0_conv)
  then show ?thesis using connections_put [OF t, of st'] 
    by (auto simp: ag' st' c_dummy_read_connection_data_def put_loop_def with_shared_fields)
qed

section \<open>Runs\<close>

text \<open>
  While the connection of a request is not freed, its request keeps its client, and what a loop has
  sent only grows.
\<close>

definition keeps :: "ptr \<Rightarrow> consumer \<Rightarrow> consumer \<Rightarrow> bool" where
  "keeps p st st' \<longleftrightarrow> (\<exists>os. sent st' = sent st @ os) \<and>
     (\<forall>h. reqs st p = Some h \<longrightarrow> (\<exists>h'. reqs st' p = Some h' \<and> client h' = client h))"

lemma keeps_refl: "sent st' = sent st \<Longrightarrow> reqs st' = reqs st \<Longrightarrow> keeps p st st'"
  by (simp add: keeps_def)

lemma keeps_trans: "keeps p st1 st2 \<Longrightarrow> keeps p st2 st3 \<Longrightarrow> keeps p st1 st3"
  by (fastforce simp: keeps_def)

lemma keeps_set_req:
  assumes "reqs st q = Some h" and "client h' = client h" and "st' = set_req q h' st1" and "reqs st1 = reqs st"
    and "sent st1 = sent st @ os"
  shows "keeps p st st'"
  using assms by (auto simp: keeps_def)

lemma keeps_step:
  assumes "c_step phr start_time e st = Some st'" and "e \<noteq> Closed p"
  shows "keeps p st st'"
proof (cases e)
  case (New_Connection status accepted q c fresh fresh_raw fresh_package)
  then obtain r where q: "reqs st q = None" and
    n: "on_new_connection start_time status accepted q c fresh fresh_raw fresh_package st = Some (r, st')"
    using assms by (auto simp: bind_Some_iff guard_bind split: if_splits)
  from new_connection_inv [OF n] q show ?thesis by (auto simp: keeps_def)
next
  case (Read q bs)
  then have "read_chunk phr q bs st = Some st'" using assms by (auto simp: guard_bind split: if_splits)
  from read_chunk_inv [OF this] obtain h h' where h: "reqs st q = Some h" "client h' = client h" and
    "st' = set_req q h' st \<or>
     (\<exists>lb w d bs. st' = set_req q h' (st\<lparr>times := (\<lambda>n. times st (Suc n)), global_lb := lb,
         event_loop := (event_loop st)\<lparr>req_id := req_id (event_loop st) + of_nat EVENT_LOOP_NUM, http_req_dict := d\<rparr>,
         sent := sent st @ [To_Agent (nat w) q bs]\<rparr>))"
    by blast
  from this(3) show ?thesis
  proof (elim disjE exE)
    assume "st' = set_req q h' st"
    then show ?thesis by (rule keeps_set_req [OF h, where os = "[]"]) simp_all
  next
    fix lb w d bs
    assume "st' = set_req q h' (st\<lparr>times := (\<lambda>n. times st (Suc n)), global_lb := lb,
         event_loop := (event_loop st)\<lparr>req_id := req_id (event_loop st) + of_nat EVENT_LOOP_NUM, http_req_dict := d\<rparr>,
         sent := sent st @ [To_Agent (nat w) q bs]\<rparr>)"
    then show ?thesis by (rule keeps_set_req [OF h]) simp_all
  qed
next
  case (Read_Error q nread)
  then have "c_read_connection_data phr q nread st = Some st'" "nread < 0"
    using assms by (auto simp: guard_bind split: if_splits)
  from read_error_inv [OF this] show ?thesis by (auto intro!: keeps_refl)
next
  case (Closed q)
  then show ?thesis using assms
    by (auto simp: close_cb_def free_http_req_def bind_Some_iff guard_bind keeps_def split: if_splits)
next
  case (Dummy_Read c nread)
  then show ?thesis using assms
    by (auto simp: c_dummy_read_connection_data_def guard_bind split: if_splits intro!: keeps_refl)
next
  case (Response w raw len r)
  then have "handle_response (int w) raw len r st = Some st'" using assms by simp
  from handle_response_inv [OF this] show ?thesis
    by (elim disjE exE conjE) (auto intro: keeps_refl keeps_set_req)
qed

lemma keeps_agent_step:
  assumes "agent_step phr start_time ev ag = Some (Inr ag')" and "ev \<noteq> Loop t (Closed p)"
  shows "keeps p (loops ag ! t) (loops ag' ! t)"
proof (cases ev)
  case (Loop u e)
  obtain st' where u: "u < length (loops ag)" and c: "c_step phr start_time e (with_shared ag u) = Some st'" and
    ag': "ag' = put_loop ag u st'"
    by (rule loop_step_E [OF assms(1) [unfolded Loop]])
  show ?thesis
  proof (cases "u = t")
    case True
    then have "keeps p (with_shared ag t) st'" using keeps_step [OF c, of p] assms(2) Loop by auto
    then show ?thesis using u True by (simp add: ag' put_loop_def keeps_def with_shared_fields)
  next
    case False
    then show ?thesis by (simp add: ag' put_loop_def keeps_refl)
  qed
next
  case (Net u e)
  obtain r :: "int + net" where r: "(case r of Inl c \<Rightarrow> Some (Inl c) | Inr nt \<Rightarrow> Some (Inr (ag\<lparr>nets := (nets ag)[u := nt],
         loops := (loops ag)[u := (loops ag ! u)\<lparr>event_loop := srv nt\<rparr>]\<rparr>))) = Some (Inr ag')"
    using assms(1) by (auto simp: Net bind_Some_iff guard_bind simp del: net_step.simps split: if_splits)
  then obtain nt :: net where "loops ag' = (loops ag)[u := (loops ag ! u)\<lparr>event_loop := srv nt\<rparr>]"
  proof (cases r)
    case (Inr nt)
    with r have "loops ag' = (loops ag)[u := (loops ag ! u)\<lparr>event_loop := srv nt\<rparr>]" by auto
    then show ?thesis by (rule that)
  qed simp
  then show ?thesis
    by (cases "u = t"; cases "u < length (loops ag)") (auto simp: list_update_beyond intro!: keeps_refl)
qed

lemma keeps_steps:
  assumes "agent_steps phr start_time evs ag = Some (Inr ag')" and "Loop t (Closed p) \<notin> set evs"
  shows "keeps p (loops ag ! t) (loops ag' ! t)"
  using assms
proof (induction evs arbitrary: ag)
  case Nil
  then show ?case by (simp add: keeps_refl)
next
  case (Cons ev evs)
  obtain r :: "int + agent" where r: "agent_step phr start_time ev ag = Some r"
    "(case r of Inl c \<Rightarrow> Some (Inl c) | Inr ag \<Rightarrow> agent_steps phr start_time evs ag) = Some (Inr ag')"
    using Cons.prems(1) by (auto simp: bind_Some_iff)
  then obtain ag1 where s: "agent_step phr start_time ev ag = Some (Inr ag1)" "agent_steps phr start_time evs ag1 = Some (Inr ag')"
    by (cases r) auto
  from keeps_agent_step [OF s(1), of t p] Cons.IH [OF s(2)] Cons.prems(2) show ?case by (auto intro: keeps_trans)
qed

lemma reach_steps:
  assumes "agent_reach phr start_time evs0 ag" and "agent_steps phr start_time evs ag = Some (Inr ag')"
  shows "agent_reach phr start_time (evs0 @ evs) ag'"
  using assms
proof (induction evs arbitrary: evs0 ag)
  case (Cons ev evs)
  obtain r :: "int + agent" where r: "agent_step phr start_time ev ag = Some r"
    "(case r of Inl c \<Rightarrow> Some (Inl c) | Inr ag \<Rightarrow> agent_steps phr start_time evs ag) = Some (Inr ag')"
    using Cons.prems(2) by (auto simp: bind_Some_iff)
  then obtain ag1 where s: "agent_step phr start_time ev ag = Some (Inr ag1)" "agent_steps phr start_time evs ag1 = Some (Inr ag')"
    by (cases r) auto
  from Cons.IH [OF agent_reach.step [OF Cons.prems(1) s(1)] s(2)] show ?case by simp
qed simp

text \<open>A frame carries the identifier the request has in its loop.\<close>

lemma load_load:
  assumes "load m s n = Some bs" and "0 \<le> a" and "0 \<le> k" and "a + k \<le> n"
  shows "load bs a k = load m (s + a) k"
  using assms by (auto simp: load_def nat_add_distrib drop_take add.commute min_def split: if_splits)

lemma forward_identifier:
  assumes "forward_request p h content st = Some st'"
  shows "\<exists>w frame. sent st' = sent st @ [To_Agent w p frame] \<and>
    (12 \<le> length frame \<longrightarrow> bytes8_to_long frame 4 = Some (req_id (event_loop st)))"
proof -
  obtain lb ts w raw1 raw2 bs where s: "select_endpoint_time_based (global_lb st) (get_wall_time (times st 0)) = Some (lb, ts, w)"
    "int_to_four_char (word_of_int content) (raw_array h) (request_length h - 12) = Some raw1"
    "long_to_8bytes (req_id (event_loop st)) raw1 (request_length h - 12 + 4) = Some raw2"
    "int_ok (12 + content)" "load raw2 (request_length h - 12) (12 + content) = Some bs"
    using assms by (auto simp: forward_request_def wall_time_def Let_def bind_Some_iff guard_bind split: if_splits)
  have o: "sent st' = sent st @ [To_Agent (nat w) p bs]"
    using assms unfolding forward_request_sends [OF s]
    by (auto simp: send_to_provider_agent_def Let_def bind_Some_iff)
  have "load raw2 (request_length h - 12 + 4) 8 = Some (le_bytes 8 (req_id (event_loop st)))"
    using s(3) load_store_same [of raw1 "request_length h - 12 + 4" "le_bytes 8 (req_id (event_loop st))" raw2]
    by (simp add: long_to_8bytes_store)
  moreover have "int (length bs) = 12 + content" using s(5) by (auto simp: load_def split: if_splits)
  ultimately have "bytes8_to_long bs 4 = Some (req_id (event_loop st))" if "12 \<le> length bs"
    using load_load [OF s(5), of 4 8] that by (intro le64_header) simp
  with o show ?thesis by blast
qed

lemma read_identifier:
  assumes "read_chunk phr p bs st = Some st'" and "sent st' = sent st @ [To_Agent w q frame]"
  shows "q = p \<and> (12 \<le> length frame \<longrightarrow> bytes8_to_long frame 4 = Some (req_id (event_loop st)))"
proof -
  obtain h raw where h: "bs \<noteq> []" and
    c: "c_read_connection_data phr p (int (length bs)) (set_req p (h\<lparr>raw_array := raw\<rparr>) st) = Some st'"
    using assms(1) unfolding read_chunk_def
    by (auto simp: bind_Some_iff guard_bind Let_def case_prod_beta simp del: split_paired_All split: if_splits)
  then consider "sent st' = sent st" | h0 content where "forward_request p h0 content (set_req p (h\<lparr>raw_array := raw\<rparr>) st) = Some st'"
    by (auto simp: c_read_connection_data_def Let_def bind_Some_iff guard_bind split: if_splits prod.splits)
  then show ?thesis
  proof cases
    case 2
    from forward_identifier [OF 2] assms(2) show ?thesis by auto
  qed (use assms(2) in simp)
qed

lemma response_to_requester:
  assumes reach: "agent_reach phr start_time evs0 ag0" and t: "t < EVENT_LOOP_NUM"
    and read: "agent_step phr start_time (Loop t (Read p bs)) ag0 = Some (Inr ag1)"
    and frame: "sent (loops ag1 ! t) = sent (loops ag0 ! t) @ [To_Agent i p frame]"
    and h: "reqs (loops ag0 ! t) p = Some h" "client h = Some c"
    and run: "agent_steps phr start_time evs ag1 = Some (Inr ag)" "Loop t (Closed p) \<notin> set evs"
    and since: "length (requesters (sent (loops ag ! t))) \<le> length (requesters (sent (loops ag0 ! t))) + 4096"
    and small: "t + 2 * length (requesters (sent (loops ag ! t))) < 2 ^ 63"
    and lb: "w < ends (shared_lb ag)" "ends (shared_lb ag) \<le> 3" "length evs0 + length evs < 2 ^ 31 - 2"
    and body: "load raw 12 (int (length body)) = Some body" "length body \<le> DEFAULT_PACKAGE_SIZE"
  shows "(12 \<le> length frame \<longrightarrow> bytes8_to_long frame 4 = Some (req_id (event_loop (loops ag0 ! t)))) \<and>
    (\<exists>ag'. agent_step phr start_time
        (Loop t (Response w raw (int (length body)) (req_id (event_loop (loops ag0 ! t))))) ag = Some (Inr ag') \<and>
      sent (loops ag' ! t) = sent (loops ag ! t) @ [To_Client c p body])"
proof -
  let ?ps = "requesters (sent (loops ag ! t))" and ?k = "length (requesters (sent (loops ag0 ! t)))"
  note reach1 = agent_reach.step [OF reach read]
  have inv: "agent_inv ((evs0 @ [Loop t (Read p bs)]) @ evs) ag" by (rule reach_inv [OF reach_steps [OF reach1 run(1)]])
  have r: "req_id (event_loop (loops ag0 ! t)) = of_nat (t + 2 * ?k)"
    using reach_inv [OF reach] t by (simp add: agent_inv_def loop_inv_def)
  obtain st' where st': "t < length (loops ag0)" "c_step phr start_time (Read p bs) (with_shared ag0 t) = Some st'"
    "ag1 = put_loop ag0 t st'" by (rule loop_step_E [OF read])
  then have "read_chunk phr p bs (with_shared ag0 t) = Some st'" "sent st' = sent (with_shared ag0 t) @ [To_Agent i p frame]"
    using frame by (auto simp: guard_bind put_loop_def with_shared_fields split: if_splits)
  from read_identifier [OF this] have id: "12 \<le> length frame \<longrightarrow> bytes8_to_long frame 4 = Some (req_id (event_loop (loops ag0 ! t)))"
    by (simp add: with_shared_fields)
  have k1: "keeps p (loops ag0 ! t) (loops ag1 ! t)" by (rule keeps_agent_step [OF read]) simp
  have k2: "keeps p (loops ag1 ! t) (loops ag ! t)" by (rule keeps_steps [OF run])
  obtain os where "sent (loops ag ! t) = (sent (loops ag0 ! t) @ [To_Agent i p frame]) @ os"
    using k2 frame by (auto simp: keeps_def)
  then have "?ps = requesters (sent (loops ag0 ! t)) @ [p] @ requesters os"
    by (simp only: requesters_append requesters_simps append_assoc)
  then have ps: "?k < length ?ps" "?ps ! ?k = p" by (simp_all add: nth_append)
  obtain h' where h': "reqs (loops ag ! t) p = Some h'" "client h' = Some c"
    using keeps_trans [OF k1 k2] h by (auto simp: keeps_def)
  have n: "length ?ps - ?k \<le> 4096" "length ((evs0 @ [Loop t (Read p bs)]) @ evs) < 2 ^ 31 - 1"
    using since lb(3) by simp_all
  from response_finds_requester [OF inv t refl ps(1) n(1) small _ lb(1,2) n(2) body, of h'] ps(2) h' id show ?thesis
    unfolding r by auto
qed

section \<open>Example\<close>

text \<open>One provider agent; it connects, then a consumer does, and sends a request.\<close>

definition start_example :: agent where
  "start_example = (let e = (init_endpoint_server (replicate 4096 0) 0)\<lparr>conn := Some 0, tcp_stream := Some 1\<rparr>;
      s = (\<lambda>t. \<lparr>endpoint_connection_count = 0, req_id = of_nat t, endpoint_servers = [e], http_req_dict = replicate HASH_SLOT_NUM None\<rparr>);
      nt = (\<lambda>t. \<lparr>srv = s t, connecting = [0], reading = [], reclosing = [], listens = 0, next_ptr = 2, open_handles = [1]\<rparr>);
      lb = \<lparr>num_of_ends = 1, history_diff_time_lst = [init_history_time]\<rparr>
    in \<lparr>loops = map (\<lambda>t. \<lparr>event_loop = s t, reqs = (\<lambda>_. None), global_lb = lb, global_conn_remain_count = 0,
           times = (\<lambda>_. None), sent = [], closing = [], ignored = [], abandoned = []\<rparr>) [0, 1],
         nets = map nt [0, 1], endpoints = [(bytes ''10.0.0.7'', 30000, 0)], shared_lb = lb, shared_conns = 0,
         clock = (\<lambda>n. Some (17, int n))\<rparr>)"

lemma start_example_starts:
  "start_agent (\<lambda>_. replicate 4096 0) (\<lambda>_. event_loop consumer_example) (\<lambda>n. Some (17, int n))
     (0, [key_of (48, bytes ''10.0.0.7'', 30000)]) = Some (Inr start_example)"
proof -
  have "provider_ok (48, bytes ''10.0.0.7'', 30000)"
    by (simp add: provider_ok_def bytes_def slash_def colon_def)
  from parse_key [OF this] have i: "init_consumer (0, [key_of (48, bytes ''10.0.0.7'', 30000)]) =
      Some (Inr ([(bytes ''10.0.0.7'', 30000, 0)], \<lparr>num_of_ends = 1, history_diff_time_lst = [init_history_time]\<rparr>))"
    by (simp add: init_consumer_def endpoint_of_def guard_bind init_load_balancer_def)
  have l: "start_loop (\<lambda>_. replicate 4096 0) (event_loop consumer_example) 1 lb t =
      Some (nets start_example ! t, (loops start_example ! t)\<lparr>global_lb := lb\<rparr>)" if "t = 0 \<or> t = 1" for lb t
    using that
    by (auto simp: start_loop_def start_work_event_loop_def connect_to_provider_agent_long_live_def init_tcp_server_t_def
        init_endpoint_servers_def guard_bind make_connection_to_agent_def free_handle_def free_connect_req_def put_endpoint_def rd_def consumer_example_def
        start_example_def MAXIMUM_ENDPOINT_SERVERS_def init_endpoint_server_def Let_def)
  have "[0..<EVENT_LOOP_NUM] = [0, 1]" by (simp add: EVENT_LOOP_NUM_def upt_rec)
  then show ?thesis using l [of 0] l [of 1] by (simp add: start_agent_def i) (simp add: start_example_def Let_def)
qed

definition connected_example :: agent where
  "connected_example = start_example\<lparr>
     nets := [(nets start_example ! 0)\<lparr>srv := (srv (nets start_example ! 0))\<lparr>endpoint_connection_count := 1,
        endpoint_servers := [endpoint_example 0\<lparr>conn := Some 0, tcp_stream := Some 1\<rparr>]\<rparr>,
        connecting := [], reading := [0], listens := 1\<rparr>, nets start_example ! 1],
     loops := [(loops start_example ! 0)\<lparr>event_loop := (event_loop (loops start_example ! 0))\<lparr>endpoint_connection_count := 1,
        endpoint_servers := [endpoint_example 0\<lparr>conn := Some 0, tcp_stream := Some 1\<rparr>]\<rparr>,
        reqs := [7 \<mapsto> req_example], global_conn_remain_count := 1, times := (\<lambda>n. Some (17, 1 + int n))\<rparr>, loops start_example ! 1],
     shared_conns := 1, clock := (\<lambda>n. Some (17, 1 + int n))\<rparr>"

lemma connected_example_reached:
  "agent_reach phr 0 [Net 0 (Connect_Done 0 0 0),
     Loop 0 (New_Connection 0 True 7 70 req_example (replicate 8192 0) (replicate 4096 0))] connected_example"
proof -
  let ?ag = "start_example\<lparr>nets := nets connected_example,
      loops := [(loops connected_example ! 0)\<lparr>reqs := \<lambda>_. None, global_conn_remain_count := 0,
        times := \<lambda>_. None\<rparr>, loops start_example ! 1]\<rparr>"
  have c: "agent_step phr 0 (Net 0 (Connect_Done 0 0 0)) start_example = Some (Inr ?ag)"
    by (simp add: start_example_def connected_example_def guard_bind c_after_connect_to_a_agent_def put_endpoint_def rd_def
        start_listen_def int_ok_def endpoint_example_def init_endpoint_server_def Let_def)
  have n: "agent_step phr 0 (Loop 0 (New_Connection 0 True 7 70 req_example (replicate 8192 0) (replicate 4096 0))) ?ag =
      Some (Inr connected_example)"
    by (simp add: connected_example_def start_example_def guard_bind with_shared_def put_loop_def on_new_connection_def
        wall_time_def MAXIMUM_CONN_WARMUP_COUNT_def MAXIMUM_CONN_COUNT_def init_http_req_t_def DEFAULT_PACKAGE_SIZE_def
        set_req_def req_example_def Let_def)
  show ?thesis
    using agent_reach.step [OF agent_reach.step [OF agent_reach.start [OF start_example_starts] c] n] by simp
qed

definition example_request :: "byte list" where
  "example_request = head_example @ bytes ''a=b''"

lemma sent_example:
  "\<exists>ag. agent_step (parse_header head_example 33) 0 (Loop 0 (Read 7 example_request)) connected_example = Some (Inr ag) \<and>
    (\<exists>bs. sent (loops ag ! 0) = [To_Agent 0 7 bs]) \<and> ends (shared_lb ag) = 1 \<and> length (loops ag) = 2 \<and> sent (loops ag ! 1) = []"
proof -
  let ?st = "with_shared connected_example 0"
  have st: "reqs ?st 7 = Some req_example" "receiving req_example r 0" "loop_ok ?st" "closing ?st = []" "sent ?st = []"
    "global_lb ?st = \<lparr>num_of_ends = 1, history_diff_time_lst = [init_history_time]\<rparr>" "req_id (event_loop ?st) = 0" for r
    by (simp_all add: with_shared_def connected_example_def start_example_def Let_def req_example_def receiving_def
        loop_ok_def endpoint_example_def ends_def)
  have lb: "lb_ok (global_lb ?st)" "ends (global_lb ?st) = 1" "\<forall>i < ends (global_lb ?st). int_ok (outstanding (global_lb ?st) i + 1)"
    using lb_ok_init [of 1] by (auto simp: st(6) init_load_balancer_def guard_bind ends_def outstanding_def init_history_time_def int_ok_def)
  from read_chunks_request [OF head_example_parses st(1,2), of "[]" example_request] st lb
  obtain st' where r: "read_chunk (parse_header head_example 33) 7 example_request ?st = Some st'"
    "request_sent 7 (bytes ''a=b'') ?st st'"
    by (auto simp: length_head_example example_request_def bind_Some_iff)
  have step: "agent_step (parse_header head_example 33) 0 (Loop 0 (Read 7 example_request)) connected_example =
      Some (Inr (put_loop connected_example 0 st'))"
    using r(1) st(4) by (simp add: guard_bind connected_example_def)
  from r(2) obtain i bs where s: "sent st' = [To_Agent i 7 bs]" "i = 0" "ends (global_lb st') = 1"
    using st(5) lb(2) ends_moves(1) [of "global_lb ?st"] unfolding request_sent_def by force
  show ?thesis
    using step s by (intro exI [of _ "put_loop connected_example 0 st'"])
      (simp add: put_loop_def connected_example_def start_example_def Let_def)
qed

section \<open>Properties\<close>

text \<open>C9. The limit of connections (\<open>on_new_connection\<close>, \<open>c_read_connection_data\<close>): in every
  state the consumer agent can reach, the count its loops share is exactly the number of their
  connections that have a request and are not being closed, and never exceeds 1024. A new connection
  is one more of them below the limit (256 in the first half minute, 1024 later); at the limit it is
  accepted and stays open too, is read and thrown away and is not counted, until it ends, which does
  not change the count either.\<close>

theorem connection_count:
  assumes "agent_reach phr_parse_request start_time evs ag"
  shows "shared_conns ag = connections ag \<and> 0 \<le> shared_conns ag \<and> shared_conns ag \<le> MAXIMUM_CONN_COUNT \<and>
    (\<forall>t p c fresh raw package ag'.
       agent_step phr_parse_request start_time (Loop t (New_Connection 0 True p c fresh raw package)) ag = Some (Inr ag') \<longrightarrow>
       (if shared_conns ag < conn_limit start_time (clock ag 0)
        then connections ag' = connections ag + 1 \<and> over_limit ag' = over_limit ag
        else connections ag' = connections ag \<and> over_limit ag' = over_limit ag + 1)) \<and>
    (\<forall>t c nread ag'. agent_step phr_parse_request start_time (Loop t (Dummy_Read c nread)) ag = Some (Inr ag') \<longrightarrow>
       connections ag' = connections ag \<and> over_limit ag' = over_limit ag - (if nread < 0 then 1 else 0))"
proof -
  note inv = reach_inv [OF assms]
  have "0 \<le> connections ag" by (auto simp: connections_def intro!: sum_list_nonneg)
  then have "shared_conns ag = connections ag \<and> 0 \<le> shared_conns ag \<and> shared_conns ag \<le> MAXIMUM_CONN_COUNT"
    using inv by (simp add: agent_inv_def MAXIMUM_CONN_COUNT_def)
  then show ?thesis using accepted_connection [OF inv] dummy_read_step by blast
qed

theorem connection_count_witness:
  "shared_conns connected_example = connections connected_example \<and>
   (\<exists>ag'. agent_step (parse_header head_example 33) 0 (Loop 0 (New_Connection 0 True 8 80 req_example (replicate 8192 0) (replicate 4096 0))) connected_example =
        Some (Inr ag') \<and> connections ag' = 2)"
proof -
  note k = connection_count [OF connected_example_reached, of "parse_header head_example 33"]
  have l: "shared_conns connected_example = 1" "conn_limit 0 (clock connected_example 0) = 256"
    by (simp_all add: connected_example_def conn_limit_def get_wall_time_def)
  have "\<exists>ag'. agent_step (parse_header head_example 33) 0 (Loop 0 (New_Connection 0 True 8 80 req_example (replicate 8192 0) (replicate 4096 0))) connected_example =
      Some (Inr ag')"
    by (simp add: connected_example_def start_example_def guard_bind with_shared_def on_new_connection_def wall_time_def
        MAXIMUM_CONN_WARMUP_COUNT_def MAXIMUM_CONN_COUNT_def init_http_req_t_def DEFAULT_PACKAGE_SIZE_def Let_def)
  then obtain ag' where s: "agent_step (parse_header head_example 33) 0 (Loop 0 (New_Connection 0 True 8 80 req_example (replicate 8192 0) (replicate 4096 0))) connected_example =
      Some (Inr ag')" by blast
  from k have "if shared_conns connected_example < conn_limit 0 (clock connected_example 0)
      then connections ag' = connections connected_example + 1 \<and> over_limit ag' = over_limit connected_example
      else connections ag' = connections connected_example \<and> over_limit ag' = over_limit connected_example + 1"
    using s by blast
  moreover from k have c: "shared_conns connected_example = connections connected_example" by (rule conjunct1)
  ultimately have "connections ag' = 2" using l by simp
  with s c show ?thesis by blast
qed

text \<open>C10. The requests in flight: in every state the consumer agent can reach with at most three
  provider agents, what the load balancer has for an agent is exactly the number of frames all loops
  have sent to it less the responses read from it, each counted once.\<close>

theorem in_flight_exact:
  assumes "agent_reach phr_parse_request start_time evs ag" and "ends (shared_lb ag) \<le> 3" and "length evs < 2 ^ 31"
    and "i < ends (shared_lb ag)"
  shows "outstanding (shared_lb ag) i = sent_to_all i ag - answers_of i evs"
  using reach_inv [OF assms(1)] assms(2-4) unfolding agent_inv_def by blast

theorem in_flight_exact_witness:
  "\<exists>evs ag. agent_reach (parse_header head_example 33) 0 evs ag \<and> outstanding (shared_lb ag) 0 = 1"
proof -
  obtain ag bs where a: "agent_step (parse_header head_example 33) 0 (Loop 0 (Read 7 example_request)) connected_example = Some (Inr ag)" and
    r: "sent (loops ag ! 0) = [To_Agent 0 7 bs]" "ends (shared_lb ag) = 1" "length (loops ag) = 2" "sent (loops ag ! 1) = []"
    using sent_example by blast
  note reach = agent_reach.step [OF connected_example_reached a]
  from r have "loops ag = [loops ag ! 0, loops ag ! 1]"
    by (intro nth_equalityI) (auto simp: less_2_cases_iff)
  then have "sent_to_all 0 ag = sent_to 0 (loops ag ! 0) + sent_to 0 (loops ag ! 1)"
    unfolding sent_to_all_def by (metis (no_types) add.right_neutral sum_list.Cons sum_list.Nil list.map)
  with in_flight_exact [OF reach, of 0] r have "outstanding (shared_lb ag) 0 = 1"
    by (simp add: sent_to_def answers_of_def)
  with reach show ?thesis by blast
qed

text \<open>C8. A response finds its requester. Let the consumer agent be in any state it can reach, and let
  a read of connection p in loop t send a frame; the frame carries the identifier r the loop has then.
  Let anything happen after that (other connections, requests, responses, lost provider agents, reads
  and even the end of p), as long as p is not freed and the loop sends no 4096 further requests: a
  response with identifier r, from whichever provider agent, is then written to the client that p had
  when it made the request, and to no other.\<close>

theorem response_routed:
  assumes "agent_reach phr_parse_request start_time evs0 ag0" and "t < EVENT_LOOP_NUM"
    and "agent_step phr_parse_request start_time (Loop t (Read p bs)) ag0 = Some (Inr ag1)"
    and "sent (loops ag1 ! t) = sent (loops ag0 ! t) @ [To_Agent i p frame]"
    and "reqs (loops ag0 ! t) p = Some h" and "client h = Some c"
    and "agent_steps phr_parse_request start_time evs ag1 = Some (Inr ag)" and "Loop t (Closed p) \<notin> set evs"
    and "length (requesters (sent (loops ag ! t))) \<le> length (requesters (sent (loops ag0 ! t))) + 4096"
    and "t + 2 * length (requesters (sent (loops ag ! t))) < 2 ^ 63"
    and "w < ends (shared_lb ag)" and "ends (shared_lb ag) \<le> 3" and "length evs0 + length evs < 2 ^ 31 - 2"
    and "load raw 12 (int (length body)) = Some body" and "length body \<le> DEFAULT_PACKAGE_SIZE"
  shows "(12 \<le> length frame \<longrightarrow> bytes8_to_long frame 4 = Some (req_id (event_loop (loops ag0 ! t)))) \<and>
    (\<exists>ag'. agent_step phr_parse_request start_time
        (Loop t (Response w raw (int (length body)) (req_id (event_loop (loops ag0 ! t))))) ag = Some (Inr ag') \<and>
      sent (loops ag' ! t) = sent (loops ag ! t) @ [To_Client c p body])"
  by (rule response_to_requester [OF assms])

theorem response_routed_witness:
  "\<exists>ag ag'. agent_step (parse_header head_example 33) 0 (Loop 0 (Read 7 example_request)) connected_example = Some (Inr ag) \<and>
    agent_step (parse_header head_example 33) 0 (Loop 0 (Response 0 (replicate 12 0 @ bytes ''ok'') 2 0)) ag = Some (Inr ag') \<and>
    sent (loops ag' ! 0) = sent (loops ag ! 0) @ [To_Client 70 7 (bytes ''ok'')]"
proof -
  obtain ag bs where a: "agent_step (parse_header head_example 33) 0 (Loop 0 (Read 7 example_request)) connected_example = Some (Inr ag)" and
    r: "sent (loops ag ! 0) = [To_Agent 0 7 bs]" "ends (shared_lb ag) = 1"
    using sent_example by blast
  have c: "reqs (loops connected_example ! 0) 7 = Some req_example" "client req_example = Some 70"
    "sent (loops connected_example ! 0) = []" "req_id (event_loop (loops connected_example ! 0)) = 0"
    by (simp_all add: connected_example_def start_example_def Let_def req_example_def)
  from response_routed [OF connected_example_reached _ a _ c(1,2), of 0 bs "[]" ag 0 "replicate 12 0 @ bytes ''ok''" "bytes ''ok''"] r c(3,4)
  obtain ag' where "agent_step (parse_header head_example 33) 0
      (Loop 0 (Response 0 (replicate 12 0 @ bytes ''ok'') 2 0)) ag = Some (Inr ag')"
    "sent (loops ag' ! 0) = sent (loops ag ! 0) @ [To_Client 70 7 (bytes ''ok'')]"
    by (auto simp: EVENT_LOOP_NUM_def load_def DEFAULT_PACKAGE_SIZE_def simp del: agent_step.simps)
  with a show ?thesis by blast
qed

end
