(* ===== verification/Simd.thy ===== *)
theory Simd
  imports Byte_Codec
begin

text \<open>
  The SSE and BMI instructions \<open>tokenizer.c\<close> uses, on a 128-bit register as the list of its
  16 bytes (least significant first) or of its eight 16-bit lanes, and the routine that counts
  trailing zeros with \<open>popcnt\<close> where \<open>tzcnt\<close> is not available. The lemmas: that
  routine agrees with \<open>tzcnt\<close> on every non-zero 16-bit mask, and comparing a chunk of 16
  bytes with a pivot gives a mask whose trailing zeros are the distance to the pivot.
\<close>

definition set1_epi8 :: "byte \<Rightarrow> byte list" where "set1_epi8 c = replicate 16 c"

definition loadu_si128 :: "byte list \<Rightarrow> int \<Rightarrow> byte list option" where
  "loadu_si128 m p = load m p 16"

definition cmpeq_epi8 :: "byte list \<Rightarrow> byte list \<Rightarrow> byte list" where
  "cmpeq_epi8 a b = map2 (\<lambda>x y. if x = y then 0xFF else 0) a b"

fun movemask_epi8 :: "byte list \<Rightarrow> i32" where
  "movemask_epi8 [] = 0"
| "movemask_epi8 (b # bs) = (if bit b 7 then 1 else 0) OR push_bit 1 (movemask_epi8 bs)"

definition popcnt_u32 :: "i32 \<Rightarrow> int" where
  "popcnt_u32 x = int (length (filter (bit x) [0..<32]))"

definition tzcnt_u32 :: "i32 \<Rightarrow> int" where
  "tzcnt_u32 x = int (length (takeWhile (\<lambda>k. \<not> bit x k) [0..<32]))"

definition set1_epi16 :: "i16 \<Rightarrow> i16 list" where "set1_epi16 w = replicate 8 w"

text \<open>The arguments of \<open>_mm_set_epi16\<close> run from the highest lane to the lowest.\<close>

definition set_epi16 :: "i16 list \<Rightarrow> i16 list" where "set_epi16 ws = rev ws"

definition and_si128 :: "i16 list \<Rightarrow> i16 list \<Rightarrow> i16 list" where "and_si128 a b = map2 (AND) a b"

definition cmpeq_epi16 :: "i16 list \<Rightarrow> i16 list \<Rightarrow> i16 list" where
  "cmpeq_epi16 a b = map2 (\<lambda>x y. if x = y then 0xFFFF else 0) a b"

definition bytes_of_epi16 :: "i16 list \<Rightarrow> byte list" where
  "bytes_of_epi16 v = concat (map (le_bytes 2) v)"

definition tzcnt_u32_using_popcnt_cmpgt :: "i32 \<Rightarrow> int" where
  "tzcnt_u32_using_popcnt_cmpgt x =
     (let half_bits = x AND 0xff;
          (half_bits, ret_cnt) =
            (if half_bits = 0 then (drop_bit 8 x AND 0xff, 8) else (half_bits, 0));
          pivot_u = set1_epi16 (ucast half_bits);
          inspected_ele = set_epi16 [0xff, 0x7f, 0x3f, 0x1f, 0xf, 0x7, 0x3, 0x1];
          trunc_pivot_u = and_si128 pivot_u inspected_ele;
          pivot_new = set1_epi16 0;
          cmp_res = cmpeq_epi16 trunc_pivot_u pivot_new;
          mask = movemask_epi8 (bytes_of_epi16 cmp_res)
      in ret_cnt + popcnt_u32 mask div 2)"

section \<open>Masks\<close>

lemma bit_movemask_Cons:
  "bit ((if p then 1 else 0) OR push_bit 1 (m :: i32)) k \<longleftrightarrow>
     (if k = 0 then p else k < 32 \<and> bit m (k - 1))"
  by (cases p)
     (simp_all only: bit_or_iff bit_push_bit_iff if_True if_False bit_1_iff bit_0_eq possible_bit_def,
      auto)

lemma bit_movemask:
  "bit (movemask_epi8 bs) k \<longleftrightarrow> k < 32 \<and> k < length bs \<and> bit (bs ! k) 7"
proof (induction bs arbitrary: k)
  case (Cons b bs)
  show ?case
    unfolding movemask_epi8.simps bit_movemask_Cons Cons.IH by (cases k) (simp_all, linarith)
qed simp

definition trailing :: "(nat \<Rightarrow> bool) \<Rightarrow> nat \<Rightarrow> nat" where
  "trailing P n = length (takeWhile (\<lambda>k. \<not> P k) [0..<n])"

lemma trailing_least:
  assumes "P t" and "\<forall>j < t. \<not> P j" and "t < n"
  shows "trailing P n = t"
proof -
  from assms(3) have "[0..<n] = [0..<t] @ t # [Suc t..<n]"
    using upt_add_eq_append [of 0 t "n - t"] upt_conv_Cons [of t n] by simp
  moreover have "takeWhile (\<lambda>k. \<not> P k) ([0..<t] @ t # [Suc t..<n]) = [0..<t]"
    using assms by (subst takeWhile_append2) auto
  ultimately show ?thesis by (simp add: trailing_def)
qed

lemma tzcnt_trailing: "tzcnt_u32 x = int (trailing (bit x) 32)"
  by (simp add: tzcnt_u32_def trailing_def)

text \<open>A mask that is not zero has a lowest set bit.\<close>

lemma lowest_bit:
  assumes "(x :: i32) \<noteq> 0" and hi: "\<And>k. bit x k \<Longrightarrow> k < n" and "n \<le> 32"
  obtains t where "bit x t" "\<forall>j < t. \<not> bit x j" "t < n" "tzcnt_u32 x = int t"
proof -
  define t where "t = (LEAST k. bit x k)"
  from assms(1) have "\<exists>k. bit x k" by (metis bit_eqI bit_0_eq bot_apply bot_bool_def)
  then have t: "bit x t" and least: "\<forall>j < t. \<not> bit x j"
    unfolding t_def by (auto intro: LeastI_ex dest: not_less_Least)
  from t hi have "t < n" by blast
  then have "trailing (bit x) 32 = t"
    using trailing_least [OF t least, of 32] assms(3) by simp
  with t least \<open>t < n\<close> that show thesis by (simp add: tzcnt_trailing)
qed

section \<open>Trailing zeros by counting\<close>

lemma bit_low_mask: "bit ((2 :: i16) ^ Suc k - 1) j \<longleftrightarrow> j < 16 \<and> j \<le> k"
  by (simp add: bit_mask_iff less_Suc_eq_le flip: mask_eq_exp_minus_1 del: power_Suc)

lemma lane_zero:
  assumes "k < 8"
  shows "(ucast (h :: i32) :: i16) AND (2 ^ Suc k - 1) = 0 \<longleftrightarrow> (\<forall>j \<le> k. \<not> bit h j)"
proof
  assume z: "(ucast h :: i16) AND (2 ^ Suc k - 1) = 0"
  show "\<forall>j \<le> k. \<not> bit h j"
  proof (intro allI impI)
    fix j assume "j \<le> k"
    moreover have "\<not> bit ((ucast h :: i16) AND (2 ^ Suc k - 1)) j" by (simp only: z bit_0_eq) simp
    ultimately show "\<not> bit h j" using assms
      by (simp add: bit_and_iff bit_low_mask bit_simps del: power_Suc)
  qed
next
  assume "\<forall>j \<le> k. \<not> bit h j"
  then show "(ucast h :: i16) AND (2 ^ Suc k - 1) = 0"
    by (intro bit_word_eqI) (auto simp: bit_and_iff bit_low_mask bit_simps simp del: power_Suc)
qed

lemma upt_8: "[0..<8] = [0, 1, 2, 3, 4, 5, 6, 7 :: nat]"
  by (simp add: upt_rec)

lemma map2_replicate_map:
  "map2 f (replicate (length ks) w) (map g ks) = map (\<lambda>k. f w (g k)) ks"
  by (induction ks) simp_all

lemma lanes:
  "and_si128 (set1_epi16 w) (set_epi16 [0xff, 0x7f, 0x3f, 0x1f, 0xf, 0x7, 0x3, 0x1]) =
     map (\<lambda>k. w AND (2 ^ Suc k - 1)) [0..<8]"
proof -
  have "set_epi16 [0xff, 0x7f, 0x3f, 0x1f, 0xf, 0x7, 0x3, 0x1] = map (\<lambda>k. 2 ^ Suc k - 1) [0..<8]"
    by (simp add: set_epi16_def upt_8)
  then show ?thesis
    using map2_replicate_map [of "(AND)" "[0..<8]" w]
    unfolding and_si128_def set1_epi16_def by (simp only: length_upt diff_zero)
qed

lemma lane_bytes:
  "bytes_of_epi16 (map (\<lambda>k. if P k then 0xFFFF else 0) ks) =
     map (\<lambda>n. if P (ks ! (n div 2)) then 0xFF else 0) [0..<2 * length ks]"
proof (induction ks rule: rev_induct)
  case (snoc k ks)
  have l: "le_bytes 2 (0xFFFF :: i16) = [0xFF, 0xFF]" "le_bytes 2 (0 :: i16) = [0, 0]"
    by (simp_all add: le_bytes_def upt_rec)
  have "map (\<lambda>n. if P ((ks @ [k]) ! (n div 2)) then 0xFF else 0) [0..<2 * length ks] =
      map (\<lambda>n. if P (ks ! (n div 2)) then 0xFF else (0 :: byte)) [0..<2 * length ks]"
    by (rule map_cong [OF refl]) (auto simp: nth_append)
  with snoc show ?case by (simp add: bytes_of_epi16_def l)
qed (simp add: bytes_of_epi16_def)

lemma bit_movemask_epi16:
  "bit (movemask_epi8 (bytes_of_epi16 (map (\<lambda>k. if P k then 0xFFFF else 0) [0..<8]))) n \<longleftrightarrow>
     n < 16 \<and> P (n div 2)"
proof (cases "n < 16")
  case True
  then have "n div 2 < 8" by simp
  with True show ?thesis by (simp add: bit_movemask lane_bytes del: upt_Suc)
qed (simp add: bit_movemask lane_bytes del: upt_Suc)

lemma popcnt_pairs:
  "(\<And>n. bit x n \<longleftrightarrow> n < 16 \<and> P (n div 2)) \<Longrightarrow>
   popcnt_u32 x = 2 * int (length (filter P [0..<8]))"
proof -
  assume b: "\<And>n. bit x n \<longleftrightarrow> n < 16 \<and> P (n div 2)"
  have "length (filter (\<lambda>n. P (n div 2)) [0..<2 * k]) = 2 * length (filter P [0..<k])" for k
    by (induction k) simp_all
  from this [of 8] have "length (filter (\<lambda>n. P (n div 2)) [0..<16]) = 2 * length (filter P [0..<8])"
    by simp
  moreover have "[0..<32] = [0..<16] @ [16..<32 :: nat]"
    using upt_add_eq_append [of 0 16 16] by simp
  moreover have "filter (bit x) [0..<16] = filter (\<lambda>n. P (n div 2)) [0..<16]"
    by (rule filter_cong [OF refl]) (simp add: b)
  moreover have "filter (bit x) [16..<32] = []"
    by (simp add: filter_empty_conv b)
  ultimately show ?thesis by (simp only: popcnt_u32_def filter_append append_Nil2)
qed

lemma length_filter_less: "t \<le> n \<Longrightarrow> length (filter (\<lambda>k. k < t) [0..<n]) = t"
proof (induction n)
  case (Suc n)
  then show ?case by (cases "t = Suc n") (auto simp: filter_empty_conv le_Suc_eq)
qed simp

lemma cmpeq_lanes:
  "cmpeq_epi16 (map g [0..<8]) (set1_epi16 0) = map (\<lambda>k. if g k = 0 then 0xFFFF else 0) [0..<8]"
proof -
  have "map2 f (map g ks) (replicate (length ks) 0) = map (\<lambda>k. f (g k) 0) ks" for f ks
    by (induction ks) simp_all
  from this [of _ "[0..<8]"] show ?thesis
    unfolding cmpeq_epi16_def set1_epi16_def by (simp only: length_upt diff_zero)
qed

text \<open>One byte: the lanes below the lowest set bit are the ones that compare equal to zero.\<close>

lemma count_lanes:
  assumes "bit (h :: i32) t" and "\<forall>j < t. \<not> bit h j" and "t < 8"
  shows "popcnt_u32 (movemask_epi8 (bytes_of_epi16 (cmpeq_epi16
      (and_si128 (set1_epi16 (ucast h)) (set_epi16 [0xff, 0x7f, 0x3f, 0x1f, 0xf, 0x7, 0x3, 0x1]))
      (set1_epi16 0)))) div 2 = int t"
proof -
  let ?P = "\<lambda>k. \<forall>j \<le> k. \<not> bit h j"
  have "cmpeq_epi16 (and_si128 (set1_epi16 (ucast h))
      (set_epi16 [0xff, 0x7f, 0x3f, 0x1f, 0xf, 0x7, 0x3, 0x1])) (set1_epi16 0) =
      map (\<lambda>k. if ?P k then 0xFFFF else 0) [0..<8]"
    unfolding lanes cmpeq_lanes by (rule map_cong [OF refl]) (simp only: lane_zero set_upt atLeastLessThan_iff)
  moreover have "filter ?P [0..<8] = filter (\<lambda>k. k < t) [0..<8]"
  proof (rule filter_cong [OF refl])
    fix k
    show "?P k = (k < t)"
    proof
      assume "?P k"
      with assms(1) have "\<not> t \<le> k" by blast
      then show "k < t" by simp
    next
      assume "k < t"
      then show "?P k" using assms(2) order_le_less_trans by blast
    qed
  qed
  moreover have "popcnt_u32 (movemask_epi8 (bytes_of_epi16
      (map (\<lambda>k. if ?P k then 0xFFFF else 0) [0..<8]))) = 2 * int (length (filter ?P [0..<8]))"
    by (rule popcnt_pairs) (rule bit_movemask_epi16)
  moreover have "length (filter (\<lambda>k. k < t) [0..<8]) = t"
    using assms(3) by (intro length_filter_less) simp
  ultimately show ?thesis by simp
qed

text \<open>The routine agrees with \<open>tzcnt\<close> on the masks it is given.\<close>

lemma bit_and_255: "bit (x AND 0xff) k \<longleftrightarrow> k < 8 \<and> bit (x :: i32) k"
  by (auto simp: and_255 bit_simps)

lemma tzcnt_using_popcnt:
  assumes "(x :: i32) \<noteq> 0" and "\<And>k. bit x k \<Longrightarrow> k < 16"
  shows "tzcnt_u32_using_popcnt_cmpgt x = tzcnt_u32 x"
proof -
  obtain t where t: "bit x t" "\<forall>j < t. \<not> bit x j" "t < 16" "tzcnt_u32 x = int t"
    using lowest_bit [OF assms] by auto
  show ?thesis
  proof (cases "t < 8")
    case True
    then have b: "bit (x AND 0xff) t" "\<forall>j < t. \<not> bit (x AND 0xff) j"
      using t by (simp_all add: bit_and_255)
    then have "x AND 0xff \<noteq> 0" by (metis bit_0_eq bot_apply bot_bool_def)
    then show ?thesis
      unfolding tzcnt_u32_using_popcnt_cmpgt_def Let_def t(4) using count_lanes [OF b True] by simp
  next
    case False
    have "x AND 0xff = 0"
      using t False by (intro bit_word_eqI) (simp add: bit_and_255)
    moreover have b: "bit (drop_bit 8 x AND 0xff) (t - 8)"
        "\<forall>j < t - 8. \<not> bit (drop_bit 8 x AND 0xff) j" "t - 8 < 8"
      using t False by (auto simp: bit_and_255 bit_drop_bit_eq)
    ultimately show ?thesis
      unfolding tzcnt_u32_using_popcnt_cmpgt_def Let_def t(4) using count_lanes [OF b] False by simp
  qed
qed

section \<open>Chunks\<close>

text \<open>The distance to the first \<open>c\<close> in a list, its length when there is none.\<close>

definition idx :: "byte \<Rightarrow> byte list \<Rightarrow> nat" where
  "idx c xs = length (takeWhile (\<lambda>b. b \<noteq> c) xs)"

lemma idx_Nil [simp]: "idx c [] = 0"
  by (simp add: idx_def)

lemma idx_Cons: "idx c (x # xs) = (if x = c then 0 else Suc (idx c xs))"
  by (simp add: idx_def)

lemma idx_mem: "c \<in> set xs \<Longrightarrow> idx c xs < length xs \<and> xs ! idx c xs = c"
  by (induction xs) (auto simp: idx_Cons)

lemma idx_before: "j < idx c xs \<Longrightarrow> j < length xs \<and> xs ! j \<noteq> c"
  by (induction xs arbitrary: j) (auto simp: idx_Cons nth_Cons split: if_splits nat.splits)

lemma idx_notin: "c \<notin> set xs \<Longrightarrow> idx c xs = length xs"
  by (induction xs) (auto simp: idx_Cons)

lemma idx_append_in: "c \<in> set xs \<Longrightarrow> idx c (xs @ ys) = idx c xs"
  by (induction xs) (auto simp: idx_Cons)

lemma idx_append_notin: "c \<notin> set xs \<Longrightarrow> idx c (xs @ ys) = length xs + idx c ys"
  by (induction xs) (auto simp: idx_Cons)

definition chunk_mask :: "byte \<Rightarrow> byte list \<Rightarrow> i32" where
  "chunk_mask c xs = movemask_epi8 (cmpeq_epi8 (set1_epi8 c) xs)"

lemma bit_chunk_mask:
  assumes "length xs = 16"
  shows "bit (chunk_mask c xs) k \<longleftrightarrow> k < 16 \<and> xs ! k = c"
proof -
  have "bit (0xFF :: byte) 7" "\<not> bit (0 :: byte) 7" by simp_all
  with assms show ?thesis
    by (auto simp: chunk_mask_def bit_movemask cmpeq_epi8_def set1_epi8_def split: if_splits)
qed

lemma chunk_mask_zero:
  assumes "length xs = 16"
  shows "chunk_mask c xs = 0 \<longleftrightarrow> c \<notin> set xs"
proof -
  have "chunk_mask c xs = 0 \<longleftrightarrow> (\<forall>k. \<not> bit (chunk_mask c xs) k)"
    by (metis bit_0_eq bit_eqI bot_apply bot_bool_def)
  with assms show ?thesis by (auto simp: bit_chunk_mask in_set_conv_nth)
qed

lemma chunk_tzcnt:
  assumes "length xs = 16" and "c \<in> set xs"
  shows "tzcnt_u32 (chunk_mask c xs) = int (idx c xs)"
    and "tzcnt_u32_using_popcnt_cmpgt (chunk_mask c xs) = int (idx c xs)"
proof -
  have nz: "chunk_mask c xs \<noteq> 0" using assms by (simp add: chunk_mask_zero)
  have lt: "bit (chunk_mask c xs) k \<Longrightarrow> k < 16" for k using assms by (simp add: bit_chunk_mask)
  obtain t where t: "bit (chunk_mask c xs) t" "\<forall>j < t. \<not> bit (chunk_mask c xs) j"
      "tzcnt_u32 (chunk_mask c xs) = int t"
    using lowest_bit [OF nz lt] by auto
  have "bit (chunk_mask c xs) (idx c xs)" "\<forall>j < idx c xs. \<not> bit (chunk_mask c xs) j"
    using idx_mem [OF assms(2)] idx_before [of _ c xs] assms(1) by (auto simp: bit_chunk_mask)
  with t have "t = idx c xs" by (meson linorder_neqE_nat)
  with t show tz: "tzcnt_u32 (chunk_mask c xs) = int (idx c xs)" by simp
  then show "tzcnt_u32_using_popcnt_cmpgt (chunk_mask c xs) = int (idx c xs)"
    using tzcnt_using_popcnt [OF nz lt] by simp
qed

section \<open>Properties\<close>

text \<open>\<open>__tzcnt_u32_using_popcnt_cmpgt\<close> computes what the \<open>tzcnt\<close>
  instruction computes, the number of the lowest set bit, for every non-zero mask of 16 bits.\<close>

theorem popcnt_is_tzcnt:
  assumes "x \<noteq> 0" and "take_bit 16 x = x"
  shows "\<exists>t < 16. tzcnt_u32_using_popcnt_cmpgt x = int t \<and> tzcnt_u32 x = int t \<and>
    bit x t \<and> (\<forall>j < t. \<not> bit x j)"
proof -
  have lt: "bit x k \<Longrightarrow> k < 16" for k using assms(2) by (metis bit_take_bit_iff)
  obtain t where "bit x t" "\<forall>j < t. \<not> bit x j" "t < 16" "tzcnt_u32 x = int t"
    using lowest_bit [OF assms(1) lt] by auto
  with tzcnt_using_popcnt [OF assms(1) lt] show ?thesis by auto
qed

theorem popcnt_is_tzcnt_witness:
  "\<exists>t < 16. tzcnt_u32_using_popcnt_cmpgt 0x8400 = int t \<and> tzcnt_u32 0x8400 = int t \<and>
    bit (0x8400 :: i32) t"
  using popcnt_is_tzcnt [of "0x8400"] by auto

end
