(* ===== verification/Tokenizer_Split.thy ===== *)
theory Tokenizer_Split
  imports Simd
begin

text \<open>
  The splitter of \<open>utils/tokenizer.c\<close>: it finds the \<open>=\<close> and \<open>&\<close> of a
  form body \<open>k=v&k=v\<close> and records where they are in the array \<open>off\<close>. There are
  three of it, one per instruction set the code is compiled for. \<open>str\<close> is the offset of the
  body in its block, indices and counts are \<open>short\<close>s, and the loops are partial functions:
  \<open>None\<close> is an access outside a block or a search that never ends.

  The three meet one contract, the step of a search loop (locale \<open>splitter\<close>), and the lemma of
  the locale gives what the loop does on every form body: all three write the same offsets, the
  specification \<open>split_offs\<close>, or overrun \<open>off\<close>.
\<close>

section \<open>The code\<close>

text \<open>The macro the code is compiled with: \<open>__BMI__\<close>, \<open>__SSE4_2__\<close> or neither.\<close>

datatype target = BMI | SSE42 | Plain

partial_function (option) serial_find_eq :: "byte list \<Rightarrow> int \<Rightarrow> int \<Rightarrow> int option" where
  "serial_find_eq m str i = do {
     c \<leftarrow> rd m (str + i);
     if c \<noteq> 61 then serial_find_eq m str (to_short (i + 1)) else Some i }"

partial_function (option) serial_find_amp :: "byte list \<Rightarrow> int \<Rightarrow> int \<Rightarrow> int \<Rightarrow> int option" where
  "serial_find_amp m str len i =
     (if i < len then do {
        c \<leftarrow> rd m (str + i);
        if c \<noteq> 38 then serial_find_amp m str len (to_short (i + 1)) else Some i }
      else Some i)"

partial_function (option) serial_loop ::
  "byte list \<Rightarrow> int \<Rightarrow> int \<Rightarrow> int list \<Rightarrow> int \<Rightarrow> int \<Rightarrow> (int \<times> int list) option" where
  "serial_loop m str len off i next = do {
     i \<leftarrow> serial_find_eq m str i;
     off \<leftarrow> wr off next i;
     let next = to_short (next + 1);
     i \<leftarrow> serial_find_amp m str len i;
     off \<leftarrow> wr off next i;
     let next = to_short (next + 1);
     if i = len then Some (next, off) else serial_loop m str len off i next }"

definition serial_split ::
  "byte list \<Rightarrow> int \<Rightarrow> int \<Rightarrow> int list \<Rightarrow> (int \<times> int list) option" where
  "serial_split m str len off = do {
     off \<leftarrow> wr off 0 (- 1);
     serial_loop m str len off 0 1 }"

text \<open>The two SIMD variants differ in the routine that counts trailing zeros.\<close>

partial_function (option) simd_find_eq ::
  "(i32 \<Rightarrow> int) \<Rightarrow> byte list \<Rightarrow> int \<Rightarrow> int \<Rightarrow> int option" where
  "simd_find_eq tz m str i = do {
     let pivot_u = set1_epi8 61;
     inspected_ele \<leftarrow> loadu_si128 m (str + i);
     let cmp_res = cmpeq_epi8 pivot_u inspected_ele;
     let mask = movemask_epi8 cmp_res;
     let advance = (if mask = 0 then 16 else tz mask);
     let i = to_short (i + advance);
     if advance < 16 then Some i else simd_find_eq tz m str i }"

partial_function (option) simd_find_amp ::
  "(i32 \<Rightarrow> int) \<Rightarrow> byte list \<Rightarrow> int \<Rightarrow> int \<Rightarrow> int \<Rightarrow> int option" where
  "simd_find_amp tz m str len i = do {
     let pivot_u = set1_epi8 38;
     inspected_ele \<leftarrow> loadu_si128 m (str + i);
     let cmp_res = cmpeq_epi8 pivot_u inspected_ele;
     let mask = movemask_epi8 cmp_res;
     let advance = (if mask = 0 then 16 else tz mask);
     let i = to_short (i + advance);
     if advance < 16 \<or> len \<le> i then Some i else simd_find_amp tz m str len i }"

partial_function (option) simd_loop ::
  "(i32 \<Rightarrow> int) \<Rightarrow> byte list \<Rightarrow> int \<Rightarrow> int \<Rightarrow> int list \<Rightarrow> int \<Rightarrow> int \<Rightarrow> (int \<times> int list) option"
where
  "simd_loop tz m str len off i next = do {
     i \<leftarrow> simd_find_eq tz m str i;
     off \<leftarrow> wr off next i;
     let next = to_short (next + 1);
     i \<leftarrow> simd_find_amp tz m str len i;
     off \<leftarrow> wr off next (if i < len then i else len);
     let next = to_short (next + 1);
     if len \<le> i then Some (next, off) else simd_loop tz m str len off i next }"

definition sse4_split_efficient ::
  "byte list \<Rightarrow> int \<Rightarrow> int \<Rightarrow> int list \<Rightarrow> (int \<times> int list \<times> byte list) option" where
  "sse4_split_efficient m str len off = do {
     restore_buf \<leftarrow> memcpy (replicate 16 0) 0 m (str + len) 16;
     m \<leftarrow> memset m (str + len) 0 16;
     off \<leftarrow> wr off 0 (- 1);
     (next, off) \<leftarrow> simd_loop tzcnt_u32_using_popcnt_cmpgt m str len off 0 1;
     m \<leftarrow> memcpy m (str + len) restore_buf 0 16;
     Some (next, off, m) }"

definition avx_split_efficient ::
  "byte list \<Rightarrow> int \<Rightarrow> int \<Rightarrow> int list \<Rightarrow> (int \<times> int list \<times> byte list) option" where
  "avx_split_efficient m str len off = do {
     m \<leftarrow> memset m (str + len) 0 16;
     off \<leftarrow> wr off 0 (- 1);
     (next, off) \<leftarrow> simd_loop tzcnt_u32 m str len off 0 1;
     Some (next, off, m) }"

text \<open>The block is returned too: the SIMD variants write to it.\<close>

fun simd_split_efficient ::
  "target \<Rightarrow> byte list \<Rightarrow> int \<Rightarrow> int \<Rightarrow> int list \<Rightarrow> (int \<times> int list \<times> byte list) option" where
  "simd_split_efficient BMI m str len off = avx_split_efficient m str len off"
| "simd_split_efficient SSE42 m str len off = sse4_split_efficient m str len off"
| "simd_split_efficient Plain m str len off = do {
     (next, off) \<leftarrow> serial_split m str len off;
     Some (next, off, m) }"

section \<open>Form bodies and their offsets\<close>

type_synonym kv = "byte list \<times> byte list"

fun form_body :: "kv list \<Rightarrow> byte list" where
  "form_body [] = []"
| "form_body [(k, v)] = k @ 61 # v"
| "form_body ((k, v) # kv # kvs) = k @ 61 # v @ 38 # form_body (kv # kvs)"

definition form_ok :: "kv list \<Rightarrow> bool" where
  "form_ok kvs \<longleftrightarrow> kvs \<noteq> [] \<and> (\<forall>(k, v) \<in> set kvs. 61 \<notin> set k \<and> 38 \<notin> set v)"

fun form_offs :: "int \<Rightarrow> kv list \<Rightarrow> int list" where
  "form_offs b [] = []"
| "form_offs b ((k, v) # kvs) =
     (b + int (length k)) # (b + int (length k) + 1 + int (length v)) #
     form_offs (b + int (length k) + int (length v) + 2) kvs"

definition split_offs :: "kv list \<Rightarrow> int list" where
  "split_offs kvs = - 1 # form_offs 0 kvs"

text \<open>A segment after the first starts at its \<open>&\<close>.\<close>

lemma form_body_amp: "form_body ((38 # k, v) # kvs) = 38 # form_body ((k, v) # kvs)"
  by (cases kvs) simp_all

lemma form_offs_amp: "form_offs b ((38 # k, v) # kvs) = form_offs (b + 1) ((k, v) # kvs)"
  by (simp add: algebra_simps)

lemma form_ok_amp:
  "form_ok ((k, v) # (k', v') # kvs) \<Longrightarrow> form_ok ((38 # k', v') # kvs)"
  by (auto simp: form_ok_def)

lemma length_form_offs [simp]: "length (form_offs b kvs) = 2 * length kvs"
  by (induction kvs arbitrary: b) auto

lemma length_form_body:
  "kvs \<noteq> [] \<Longrightarrow> 2 * length kvs \<le> Suc (length (form_body kvs))"
  by (induction kvs rule: form_body.induct) auto

text \<open>The bytes of the body from index \<open>i\<close> on.\<close>

definition body_from :: "byte list \<Rightarrow> int \<Rightarrow> int \<Rightarrow> int \<Rightarrow> byte list" where
  "body_from m str len i = take (nat (len - i)) (drop (nat (str + i)) m)"

text \<open>Where the first \<open>c\<close> from index \<open>i\<close> on is in the block.\<close>

definition first_at :: "byte list \<Rightarrow> int \<Rightarrow> byte \<Rightarrow> int \<Rightarrow> int" where
  "first_at m str c i = i + int (idx c (drop (nat (str + i)) m))"

locale splitter =
  fixes run :: "byte list \<Rightarrow> int \<Rightarrow> int \<Rightarrow> int list \<Rightarrow> int \<Rightarrow> int \<Rightarrow> (int \<times> int list) option"
    and slack :: int
  assumes run_step: "0 \<le> str \<Longrightarrow> 0 \<le> i \<Longrightarrow> first_at m str 61 i = j \<Longrightarrow> j < len \<Longrightarrow>
      min (first_at m str 38 j) len = e \<Longrightarrow> str + len + slack \<le> int (length m) \<Longrightarrow>
      len + slack < 32768 \<Longrightarrow> 0 \<le> next \<Longrightarrow> next + 2 < 32768 \<Longrightarrow>
      run m str len off i next =
        do { off \<leftarrow> store off next [j, e];
             if e = len then Some (next + 2, off) else run m str len off e (next + 2) }"
    and slack_nonneg: "0 \<le> slack"
begin

lemma body_seek:
  assumes b: "body_from m str len i = form_body ((k, v) # kvs)" and ok: "form_ok ((k, v) # kvs)"
    and i: "0 \<le> str" "0 \<le> i" "i \<le> len" "str + len \<le> int (length m)"
  shows "first_at m str 61 i = i + int (length k)" and "i + int (length k) < len"
    and "min (first_at m str 38 (i + int (length k))) len = i + int (length k) + 1 + int (length v)"
    and "kvs = [] \<longleftrightarrow> i + int (length k) + 1 + int (length v) = len"
    and "kvs = (k', v') # kvs' \<Longrightarrow>
      body_from m str len (i + int (length k) + 1 + int (length v)) = form_body ((38 # k', v') # kvs')"
proof -
  let ?j = "i + int (length k)" and ?e = "i + int (length k) + 1 + int (length v)"
  obtain r where r: "form_body ((k, v) # kvs) = k @ 61 # v @ r"
    and rk: "kvs = [] \<longleftrightarrow> r = []" "kvs = (k', v') # kvs' \<Longrightarrow> r = form_body ((38 # k', v') # kvs')"
    and hd: "r \<noteq> [] \<Longrightarrow> r = 38 # tl r"
    by (cases kvs) (auto simp: form_body_amp)
  define rest where "rest = drop (nat (str + len)) m"
  have len: "nat (len - i) \<le> length (drop (nat (str + i)) m)" using i by auto
  have d: "drop (nat (str + i)) m = k @ 61 # v @ r @ rest"
  proof -
    have "nat (str + len) = nat (len - i) + nat (str + i)" using i by linarith
    then have "drop (nat (str + i)) m = body_from m str len i @ rest"
      unfolding body_from_def rest_def by (simp add: append_take_drop_id flip: drop_drop)
    then show ?thesis by (simp add: b r)
  qed
  have "length (body_from m str len i) = nat (len - i)" using len by (simp add: body_from_def)
  then have l: "len = ?e + int (length r)" using i by (simp add: b r)
  show "?j < len" using l by linarith
  have k: "61 \<notin> set k" and v: "38 \<notin> set v" using ok by (simp_all add: form_ok_def)
  show "first_at m str 61 i = ?j" using k by (simp add: first_at_def d idx_append_notin idx_Cons)
  have "nat (str + ?j) = length k + nat (str + i)" using i by linarith
  then have dj: "drop (nat (str + ?j)) m = 61 # v @ r @ rest"
    using d by (metis append_eq_conv_conj drop_drop)
  show "min (first_at m str 38 ?j) len = ?e"
  proof (cases "r = []")
    case True
    then show ?thesis using l v by (simp add: first_at_def dj idx_Cons idx_append_notin)
  next
    case False
    from hd [OF False] have "idx 38 (r @ rest) = 0" by (metis append_Cons idx_Cons)
    then show ?thesis using l v by (simp add: first_at_def dj idx_Cons idx_append_notin)
  qed
  show "kvs = [] \<longleftrightarrow> ?e = len" using l rk(1) by simp
  show "body_from m str len ?e = form_body ((38 # k', v') # kvs')" if "kvs = (k', v') # kvs'"
  proof -
    have "nat (str + ?e) = Suc (length v) + nat (str + ?j)" using i by linarith
    then have "drop (nat (str + ?e)) m = r @ rest"
      using dj by (metis append.assoc append_Cons append_eq_conv_conj drop_drop length_Cons)
    moreover have "nat (len - ?e) = length r" using l by simp
    ultimately have "body_from m str len ?e = r" by (simp add: body_from_def)
    with rk(2) that show ?thesis by simp
  qed
qed

text \<open>On a form body the loop stores the offsets of its pairs, if they fit.\<close>

lemma run_form:
  assumes "body_from m str len i = form_body ((k, v) # kvs)" and "form_ok ((k, v) # kvs)"
    and "0 \<le> str" "0 \<le> i" "i \<le> len" "str + len + slack \<le> int (length m)" "len + slack < 32768"
    and "0 \<le> next" and "next + 2 + 2 * int (length kvs) < 32768"
  shows "run m str len off i next =
    map_option (Pair (next + 2 + 2 * int (length kvs))) (store off next (form_offs i ((k, v) # kvs)))"
  using assms
proof (induction kvs arbitrary: k v i off "next")
  case Nil
  have "str + len \<le> int (length m)" using Nil.prems(6) slack_nonneg by simp
  note s = body_seek [OF Nil.prems(1,2,3,4,5) this]
  show ?case
    using run_step [OF Nil.prems(3,4) s(1,2,3) Nil.prems(6,7,8), of off] Nil.prems(9) s(4)
    by (cases "store off next [i + int (length k), i + int (length k) + 1 + int (length v)]") simp_all
next
  case (Cons kv kvs)
  obtain k' v' where kv: "kv = (k', v')" by (cases kv)
  let ?j = "i + int (length k)" and ?e = "i + int (length k) + 1 + int (length v)"
  have le: "str + len \<le> int (length m)" using Cons.prems(6) slack_nonneg by simp
  note s = body_seek [OF Cons.prems(1,2,3,4,5) le]
  have b: "body_from m str len ?e = form_body ((38 # k', v') # kvs)" by (rule s(5)) (simp add: kv)
  have e: "?e \<noteq> len" using s(4) by simp
  have "?e \<le> len" using s(3) by linarith
  have "form_ok ((38 # k', v') # kvs)" using Cons.prems(2) by (simp add: kv form_ok_amp)
  then have IH: "run m str len off' ?e (next + 2) =
      map_option (Pair (next + 2 + 2 + 2 * int (length kvs)))
        (store off' (next + 2) (form_offs ?e ((38 # k', v') # kvs)))" for off'
    using Cons.prems \<open>?e \<le> len\<close> by (intro Cons.IH [OF b]) simp_all
  have n4: "next + 2 + 2 = next + 4" by simp
  have "run m str len off i next =
      Option.bind (store off next [?j, ?e]) (\<lambda>off'. run m str len off' ?e (next + 2))"
    using run_step [OF Cons.prems(3,4) s(1,2,3) Cons.prems(6,7,8), of off] Cons.prems(9) e by simp
  also have "\<dots> = Option.bind (store off next [?j, ?e])
      (\<lambda>off'. map_option (Pair (next + 4 + 2 * int (length kvs)))
        (store off' (next + 2) (form_offs ?e ((38 # k', v') # kvs))))"
    unfolding IH n4 ..
  also have "\<dots> = map_option (Pair (next + 4 + 2 * int (length kvs)))
      (store off next ([?j, ?e] @ form_offs ?e ((38 # k', v') # kvs)))"
    using store_bind [of "next" "next + 2" "[?j, ?e]" off "form_offs ?e ((38 # k', v') # kvs)"]
      Cons.prems(8)
    by (cases "store off next [?j, ?e]") simp_all
  also have "[?j, ?e] @ form_offs ?e ((38 # k', v') # kvs) = form_offs i ((k, v) # kv # kvs)"
    unfolding form_offs_amp by (simp add: kv algebra_simps)
  finally show ?case by (simp add: algebra_simps)
qed

end

section \<open>The three searches\<close>

definition tz_ok :: "(i32 \<Rightarrow> int) \<Rightarrow> bool" where
  "tz_ok tz \<longleftrightarrow> (\<forall>c xs. length xs = 16 \<longrightarrow> c \<in> set xs \<longrightarrow> tz (chunk_mask c xs) = int (idx c xs))"

lemma tz_ok_both: "tz_ok tzcnt_u32" "tz_ok tzcnt_u32_using_popcnt_cmpgt"
  by (simp_all add: tz_ok_def chunk_tzcnt)

lemma idx_take: "idx c (take n xs) = min (idx c xs) n" if "n \<le> length xs"
  using that by (induction xs arbitrary: n) (auto simp: idx_Cons take_Cons split: nat.splits)

text \<open>One chunk: it advances to the byte sought or by 16.\<close>

lemma chunk_advance:
  assumes "tz_ok tz" and "0 \<le> str" "0 \<le> i" "str + i + 16 \<le> int (length m)"
  shows "\<exists>xs. loadu_si128 m (str + i) = Some xs \<and>
    (if chunk_mask c xs = 0 then 16 else tz (chunk_mask c xs)) = min (first_at m str c i - i) 16"
proof -
  let ?E = "drop (nat (str + i)) m"
  have n: "16 \<le> length ?E" using assms by auto
  then have l: "length (take 16 ?E) = 16" by simp
  have "loadu_si128 m (str + i) = Some (take 16 ?E)"
    using assms by (simp add: loadu_si128_def load_def)
  moreover have "(if chunk_mask c (take 16 ?E) = 0 then 16 else tz (chunk_mask c (take 16 ?E))) =
      int (idx c (take 16 ?E))"
    using assms(1) l idx_notin [of c "take 16 ?E"] by (auto simp: chunk_mask_zero tz_ok_def)
  ultimately show ?thesis using n by (simp add: idx_take first_at_def of_nat_min)
qed

lemma idx_drop: "n \<le> idx c xs \<Longrightarrow> idx c (drop n xs) = idx c xs - n"
  by (induction xs arbitrary: n) (auto simp: idx_Cons drop_Cons split: if_splits nat.splits)

lemma seek_add:
  assumes "0 \<le> str" "0 \<le> i" "0 \<le> d" "i + d \<le> first_at m str c i"
  shows "first_at m str c (i + d) = first_at m str c i"
proof -
  let ?E = "drop (nat (str + i)) m"
  have d: "nat d \<le> idx c ?E" using assms by (simp add: first_at_def)
  have "nat (str + (i + d)) = nat d + nat (str + i)" using assms by linarith
  then have "drop (nat (str + (i + d))) m = drop (nat d) ?E" by simp
  then have "idx c (drop (nat (str + (i + d))) m) = idx c ?E - nat d"
    by (simp only: idx_drop [OF d])
  then show ?thesis using d assms unfolding first_at_def by simp
qed

lemma seek_ge: "i \<le> first_at m str c i"
  by (simp add: first_at_def)

lemma simd_find_eq_chunk:
  assumes "loadu_si128 m (str + i) = Some xs"
    and "(if chunk_mask 61 xs = 0 then 16 else tz (chunk_mask 61 xs)) = adv"
  shows "simd_find_eq tz m str i =
    (if adv < 16 then Some (to_short (i + adv)) else simd_find_eq tz m str (to_short (i + adv)))"
  by (subst simd_find_eq.simps)
     (simp add: assms(1) Let_def flip: assms(2), simp add: chunk_mask_def)

lemma simd_find_amp_chunk:
  assumes "loadu_si128 m (str + i) = Some xs"
    and "(if chunk_mask 38 xs = 0 then 16 else tz (chunk_mask 38 xs)) = adv"
  shows "simd_find_amp tz m str len i =
    (if adv < 16 \<or> len \<le> to_short (i + adv) then Some (to_short (i + adv))
     else simd_find_amp tz m str len (to_short (i + adv)))"
  by (subst simd_find_amp.simps)
     (simp add: assms(1) Let_def flip: assms(2), simp add: chunk_mask_def)

lemma simd_find_eq_seek:
  assumes tz: "tz_ok tz" and "0 \<le> str" "0 \<le> i"
    and "str + first_at m str 61 i + 16 \<le> int (length m)" "first_at m str 61 i + 16 < 32768"
  shows "simd_find_eq tz m str i = Some (first_at m str 61 i)"
  using assms(2-)
proof (induction "nat (first_at m str 61 i - i)" arbitrary: i rule: less_induct)
  case less
  let ?s = "first_at m str 61 i"
  have "i \<le> ?s" by (rule seek_ge)
  with less.prems have "str + i + 16 \<le> int (length m)" by simp
  then obtain xs where xs: "loadu_si128 m (str + i) = Some xs"
      "(if chunk_mask 61 xs = 0 then 16 else tz (chunk_mask 61 xs)) = min (?s - i) 16"
    using chunk_advance [OF tz less.prems(1,2)] by blast
  have eq: "simd_find_eq tz m str i =
      (if min (?s - i) 16 < 16 then Some (i + min (?s - i) 16)
       else simd_find_eq tz m str (i + min (?s - i) 16))"
    unfolding simd_find_eq_chunk [where tz = tz, OF xs] using less.prems \<open>i \<le> ?s\<close> by simp
  show ?case
  proof (cases "?s - i < 16")
    case True
    then show ?thesis unfolding eq by simp
  next
    case False
    have s: "first_at m str 61 (i + 16) = ?s"
      using False by (intro seek_add less.prems) simp_all
    have "simd_find_eq tz m str (i + 16) = Some (first_at m str 61 (i + 16))"
      by (rule less.hyps) (use s less.prems False in simp_all)
    then show ?thesis unfolding eq using False by (simp add: s)
  qed
qed

lemma simd_find_amp_seek:
  assumes tz: "tz_ok tz" and "0 \<le> str" "0 \<le> i" "i < len"
    and "str + len + 16 \<le> int (length m)" "len + 16 < 32768"
  shows "\<exists>r. simd_find_amp tz m str len i = Some r \<and> min r len = min (first_at m str 38 i) len"
  using assms(2-)
proof (induction "nat (len - i)" arbitrary: i rule: less_induct)
  case less
  let ?s = "first_at m str 38 i"
  have "i \<le> ?s" by (rule seek_ge)
  from less.prems have "str + i + 16 \<le> int (length m)" by simp
  then obtain xs where xs: "loadu_si128 m (str + i) = Some xs"
      "(if chunk_mask 38 xs = 0 then 16 else tz (chunk_mask 38 xs)) = min (?s - i) 16"
    using chunk_advance [OF tz less.prems(1,2)] by blast
  have eq: "simd_find_amp tz m str len i =
      (if min (?s - i) 16 < 16 \<or> len \<le> i + min (?s - i) 16 then Some (i + min (?s - i) 16)
       else simd_find_amp tz m str len (i + min (?s - i) 16))"
    unfolding simd_find_amp_chunk [where tz = tz, OF xs] using less.prems \<open>i \<le> ?s\<close> by simp
  show ?case
  proof (cases "?s - i < 16 \<or> len \<le> i + 16")
    case True
    then show ?thesis unfolding eq using \<open>i \<le> ?s\<close> by auto
  next
    case False
    have s: "first_at m str 38 (i + 16) = ?s"
      using False by (intro seek_add less.prems) simp_all
    have "\<exists>r. simd_find_amp tz m str len (i + 16) = Some r \<and>
        min r len = min (first_at m str 38 (i + 16)) len"
      by (rule less.hyps) (use less.prems False in simp_all)
    then show ?thesis unfolding eq using False by (auto simp: s)
  qed
qed

lemma serial_find_eq_seek:
  assumes "0 \<le> str" "0 \<le> i" "str + first_at m str 61 i < int (length m)" "first_at m str 61 i < 32767"
  shows "serial_find_eq m str i = Some (first_at m str 61 i)"
  using assms
proof (induction "nat (first_at m str 61 i - i)" arbitrary: i)
  case 0
  then have "first_at m str 61 i = i" using seek_ge [of i m str 61] by simp
  moreover from this have "rd m (str + i) = Some 61"
    using 0 by (auto simp: first_at_def rd_def idx_def drop_eq_Cons_nth split: if_splits)
  ultimately show ?case by (subst serial_find_eq.simps) simp
next
  case (Suc d)
  have s: "first_at m str 61 (i + 1) = first_at m str 61 i"
    using Suc by (intro seek_add) simp_all
  have "nat (str + i) < length m" using Suc by (simp add: first_at_def)
  then have "rd m (str + i) = Some (m ! nat (str + i))" "m ! nat (str + i) \<noteq> 61"
    using Suc by (auto simp: first_at_def rd_def idx_def drop_eq_Cons_nth)
  moreover have "serial_find_eq m str (i + 1) = Some (first_at m str 61 (i + 1))"
    by (rule Suc.hyps(1)) (use Suc s in simp_all)
  ultimately show ?case using Suc s by (subst serial_find_eq.simps) simp
qed

lemma serial_find_amp_seek:
  assumes "0 \<le> str" "0 \<le> i" "i \<le> len" "str + len \<le> int (length m)" "len < 32768"
  shows "serial_find_amp m str len i = Some (min (first_at m str 38 i) len)"
  using assms
proof (induction "nat (len - i)" arbitrary: i)
  case 0
  then show ?case using seek_ge [of i m str 38] by (subst serial_find_amp.simps) simp
next
  case (Suc d)
  then have r: "rd m (str + i) = Some (m ! nat (str + i))" and lt: "nat (str + i) < length m"
    and il: "i < len"
    by (auto simp: rd_def)
  show ?case
  proof (cases "m ! nat (str + i) = 38")
    case True
    then have "first_at m str 38 i = i" using lt by (simp add: first_at_def idx_def drop_eq_Cons_nth)
    with True r Suc il show ?thesis by (subst serial_find_amp.simps) simp
  next
    case False
    then have "i + 1 \<le> first_at m str 38 i" using lt by (simp add: first_at_def idx_def drop_eq_Cons_nth)
    then have s: "first_at m str 38 (i + 1) = first_at m str 38 i"
      using Suc by (intro seek_add) simp_all
    have "serial_find_amp m str len (i + 1) = Some (min (first_at m str 38 (i + 1)) len)"
      by (rule Suc.hyps(1)) (use Suc in simp_all)
    with False r s Suc il show ?thesis by (subst serial_find_amp.simps) simp
  qed
qed

section \<open>The three loops meet the contract\<close>

lemma simd_splitter:
  assumes tz: "tz_ok tz"
  shows "splitter (simd_loop tz) 16"
proof
  fix str i j len e "next" :: int and m off
  assume i: "0 \<le> str" "0 \<le> i" and j: "first_at m str 61 i = j" "j < len"
    and e: "min (first_at m str 38 j) len = e"
    and m: "str + len + 16 \<le> int (length m)" "len + 16 < 32768"
    and n: "0 \<le> next" "next + 2 < 32768"
  have ij: "i \<le> j" using seek_ge [of i m str 61] j by simp
  have eq: "simd_find_eq tz m str i = Some j"
    using simd_find_eq_seek [OF tz i] i j m by simp
  obtain r where r: "simd_find_amp tz m str len j = Some r" "min r len = e"
    using simd_find_amp_seek [OF tz i(1) _ j(2) m] i ij e by auto
  have c: "(if r < len then r else len) = e" "len \<le> r \<longleftrightarrow> e = len" "e \<noteq> len \<Longrightarrow> r = e"
    using r(2) by auto
  have s: "to_short (2 + next) = next + 2" "to_short (next + 1 + 1) = next + 2" using n by simp_all
  have el: "e < len \<longleftrightarrow> e \<noteq> len" "len \<le> e \<longleftrightarrow> e = len" using e by auto
  have w: "Option.bind (store off next [j]) (\<lambda>off. Option.bind (store off (next + 1) [e]) f) =
      Option.bind (store off next [j, e]) f" for e and f :: "int list \<Rightarrow> (int \<times> int list) option"
    using store_bind_cont [of "next" "next + 1" "[j]" off "[e]" f] n by simp
  show "simd_loop tz m str len off i next =
      do { off \<leftarrow> store off next [j, e];
           if e = len then Some (next + 2, off) else simd_loop tz m str len off e (next + 2) }"
    using n by (subst simd_loop.simps)
      (cases "e = len", simp_all add: eq r(1) wr_def c w s el Let_def)
qed simp

interpretation sse: splitter "simd_loop tzcnt_u32_using_popcnt_cmpgt" 16
  by (rule simd_splitter [OF tz_ok_both(2)])

interpretation avx: splitter "simd_loop tzcnt_u32" 16
  by (rule simd_splitter [OF tz_ok_both(1)])

interpretation serial: splitter serial_loop 0
proof
  fix str i j len e "next" :: int and m off
  assume i: "0 \<le> str" "0 \<le> i" and j: "first_at m str 61 i = j" "j < len"
    and e: "min (first_at m str 38 j) len = e"
    and m: "str + len + 0 \<le> int (length m)" "len + 0 < 32768"
    and n: "0 \<le> next" "next + 2 < 32768"
  have ij: "i \<le> j" using seek_ge [of i m str 61] j by simp
  have eq: "serial_find_eq m str i = Some j"
    using serial_find_eq_seek [OF i, of m] j m by simp
  have amp: "serial_find_amp m str len j = Some e"
    using serial_find_amp_seek [OF i(1), of j len m] i ij j m e by simp
  have s: "to_short (2 + next) = next + 2" "to_short (next + 1 + 1) = next + 2" using n by simp_all
  have el: "e < len \<longleftrightarrow> e \<noteq> len" "len \<le> e \<longleftrightarrow> e = len" using e by auto
  have w: "Option.bind (store off next [j]) (\<lambda>off. Option.bind (store off (next + 1) [e]) f) =
      Option.bind (store off next [j, e]) f" for e and f :: "int list \<Rightarrow> (int \<times> int list) option"
    using store_bind_cont [of "next" "next + 1" "[j]" off "[e]" f] n by simp
  show "serial_loop m str len off i next =
      do { off \<leftarrow> store off next [j, e];
           if e = len then Some (next + 2, off) else serial_loop m str len off e (next + 2) }"
    using n by (subst serial_loop.simps) (cases "e = len", simp_all add: eq amp wr_def w s Let_def)
qed simp

section \<open>The three splitters\<close>

text \<open>
  What the splitter leaves behind the body: the BMI variant has zeroed the 16 bytes there, the
  others leave the block as it was.
\<close>

fun split_block :: "target \<Rightarrow> byte list \<Rightarrow> int \<Rightarrow> int \<Rightarrow> byte list" where
  "split_block BMI m str len = take (nat (str + len)) m @ replicate 16 0 @ drop (nat (str + len) + 16) m"
| "split_block SSE42 m str len = m"
| "split_block Plain m str len = m"

text \<open>The body \<open>kvs\<close> is at \<open>str\<close> in its block, with 16 bytes behind it.\<close>

definition form_at :: "byte list \<Rightarrow> int \<Rightarrow> int \<Rightarrow> kv list \<Rightarrow> bool" where
  "form_at m str len kvs \<longleftrightarrow> form_ok kvs \<and> 0 \<le> str \<and> 0 \<le> len \<and> len + 16 < 32767 \<and>
     str + len + 16 \<le> int (length m) \<and> body_from m str len 0 = form_body kvs"

lemma form_at_len:
  assumes "form_at m str len kvs"
  shows "int (length (form_body kvs)) = len" and "1 + 2 * int (length kvs) < 32768"
proof -
  have "nat len \<le> length (drop (nat str) m)" using assms by (auto simp: form_at_def)
  then have "length (body_from m str len 0) = nat len" by (simp add: body_from_def)
  then show l: "int (length (form_body kvs)) = len" using assms by (auto simp: form_at_def)
  show "1 + 2 * int (length kvs) < 32768"
    using length_form_body [of kvs] l assms by (auto simp: form_at_def form_ok_def)
qed

context splitter
begin

lemma split_form:
  assumes "body_from m str len 0 = form_body kvs" and "form_ok kvs" and "0 \<le> str" "0 \<le> len"
    and "str + len + slack \<le> int (length m)" "len + slack < 32768"
    and "1 + 2 * int (length kvs) < 32768"
  shows "do { off \<leftarrow> wr off 0 (- 1); run m str len off 0 1 } =
    map_option (Pair (1 + 2 * int (length kvs))) (store off 0 (split_offs kvs))"
proof -
  obtain k v kvs' where kvs: "kvs = (k, v) # kvs'" using assms(2) by (cases kvs) (auto simp: form_ok_def)
  have r: "run m str len off' 0 1 = map_option (Pair (1 + 2 + 2 * int (length kvs')))
      (store off' 1 (form_offs 0 ((k, v) # kvs')))" for off'
    using assms unfolding kvs by (intro run_form) simp_all
  have n: "1 + 2 + 2 * int (length kvs') = 1 + 2 * int (length kvs)" by (simp add: kvs)
  have "do { off \<leftarrow> wr off 0 (- 1); run m str len off 0 1 } = do {
      off \<leftarrow> store off 0 [- 1];
      map_option (Pair (1 + 2 * int (length kvs))) (store off 1 (form_offs 0 kvs)) }"
    unfolding wr_def r n by (simp add: kvs)
  also have "\<dots> = map_option (Pair (1 + 2 * int (length kvs))) (store off 0 (split_offs kvs))"
    using store_bind [of 0 1 "[- 1]" off "form_offs 0 kvs"] unfolding split_offs_def
    by (cases "store off 0 [- 1]") simp_all
  finally show ?thesis .
qed

end

lemma body_from_store:
  assumes "store m (str + len) bs = Some m'" and "0 \<le> str" "0 \<le> len"
  shows "body_from m' str len 0 = body_from m str len 0"
proof -
  have "take (nat (str + len)) m' = take (nat (str + len)) m" by (rule take_store [OF assms(1)]) simp
  moreover have "nat (str + len) = nat len + nat str" using assms by simp
  ultimately show ?thesis by (simp add: body_from_def take_drop)
qed

text \<open>
  All three: the number of offsets, the offsets of the specification if they fit the array, and the
  block.
\<close>

lemma simd_split_form:
  assumes f: "form_at m str len kvs"
  shows "simd_split_efficient t m str len off = map_option
    (\<lambda>off. (1 + 2 * int (length kvs), off, split_block t m str len)) (store off 0 (split_offs kvs))"
proof -
  have ok: "form_ok kvs" and b: "body_from m str len 0 = form_body kvs"
    and p: "0 \<le> str" "0 \<le> len" and l: "str + len + 16 \<le> int (length m)" "len + 16 < 32768"
    using f by (auto simp: form_at_def)
  note n = form_at_len(2) [OF f]
  let ?z = "take (nat (str + len)) m @ replicate 16 0 @ drop (nat (str + len) + 16) m"
  have z: "store m (str + len) (replicate 16 0) = Some ?z" using p l by (simp add: store_Some)
  have bz: "body_from ?z str len 0 = form_body kvs"
    using body_from_store [OF z p] b by simp
  have lz: "str + len + 16 \<le> int (length ?z)" using l p by (simp add: min_def)
  let ?s = "take 16 (drop (nat (str + len)) m)"
  have ld: "load m (str + len) 16 = Some ?s" using l p by (simp add: load_def)
  have ls: "length ?s = 16" using length_load [OF ld] by simp
  have "store ?z (str + len) ?s = store m (str + len) ?s"
    by (rule store_overwrite [OF z]) (simp only: ls length_replicate)
  also have "\<dots> = Some m" by (rule store_load [OF ld])
  finally have rst: "store ?z (str + len) ?s = Some m" .
  have cp: "memcpy (replicate 16 0) 0 m (str + len) 16 = Some ?s"
    "memcpy ?z (str + len) ?s 0 16 = Some m"
    using ls rst by (simp_all add: memcpy_def ld store_def) (simp add: load_def)
  show ?thesis
  proof (cases t)
    case BMI
    have "simd_split_efficient t m str len off = map_option (\<lambda>(n, off). (n, off, ?z))
        (do { off \<leftarrow> wr off 0 (- 1); simd_loop tzcnt_u32 ?z str len off 0 1 })"
      by (simp add: BMI avx_split_efficient_def memset_def z map_option_case split: Option.bind_split option.split)
    then show ?thesis unfolding avx.split_form [OF bz ok p lz l(2) n]
      by (simp add: BMI option.map_comp comp_def)
  next
    case SSE42
    have "simd_split_efficient t m str len off = map_option (\<lambda>(n, off). (n, off, m))
        (do { off \<leftarrow> wr off 0 (- 1); simd_loop tzcnt_u32_using_popcnt_cmpgt ?z str len off 0 1 })"
      using cp
      by (simp add: SSE42 sse4_split_efficient_def memset_def z map_option_case split: Option.bind_split option.split)
    then show ?thesis unfolding sse.split_form [OF bz ok p lz l(2) n]
      by (simp add: SSE42 option.map_comp comp_def)
  next
    case Plain
    have "simd_split_efficient t m str len off = map_option (\<lambda>(n, off). (n, off, m))
        (do { off \<leftarrow> wr off 0 (- 1); serial_loop m str len off 0 1 })"
      by (simp add: Plain serial_split_def map_option_case split: Option.bind_split option.split)
    moreover have "str + len + 0 \<le> int (length m)" "len + 0 < 32768" using l by simp_all
    ultimately show ?thesis using serial.split_form [OF b ok p _ _ n, of off]
      by (simp add: Plain option.map_comp comp_def)
  qed
qed

section \<open>Properties\<close>

text \<open>A block that starts with a form body and has 16 bytes behind it.\<close>

lemma form_at_start:
  assumes "form_ok kvs" and "length (form_body kvs) < 32751" and "16 \<le> length rest"
  shows "form_at (form_body kvs @ rest) 0 (int (length (form_body kvs))) kvs"
  using assms by (simp add: form_at_def body_from_def)

definition form_example :: "kv list" where
  "form_example = [(bytes ''method'', bytes ''hash''), (bytes ''parameter'', bytes ''a%3Db'')]"

lemma form_example_ok: "form_ok form_example"
  by (simp add: form_ok_def form_example_def bytes_def)

lemma form_example_at: "form_at (form_body form_example @ replicate 16 7) 0 27 form_example"
  using form_at_start [OF form_example_ok, of "replicate 16 7"] by (simp add: form_example_def)

text \<open>C25. On a form body of at most 15 pairs the three variants of the splitter (BMI, SSE4.2 with
  the emulated \<open>tzcnt\<close>, and serial) return the same count and write the same offsets, those
  of the \<open>=\<close> and \<open>&\<close> between the fields; the SSE4.2 and the serial variant
  leave the block as it was, the BMI variant zeroes the 16 bytes behind the body.\<close>

theorem splitters_agree:
  assumes "form_at m str len kvs" and "length kvs \<le> 15" and "length off = 32"
  shows "simd_split_efficient t m str len off =
    Some (1 + 2 * int (length kvs), split_offs kvs @ drop (1 + 2 * length kvs) off,
      split_block t m str len)"
  using simd_split_form [OF assms(1), of t off] assms(2,3)
  by (simp add: store_def split_offs_def)

theorem splitters_agree_witness:
  "simd_split_efficient SSE42 (form_body form_example @ replicate 16 7) 0 27 (replicate 32 0) =
    Some (5, [- 1, 6, 11, 21, 27] @ replicate 27 0, form_body form_example @ replicate 16 7)"
proof -
  have n: "length form_example = 2" by (simp add: form_example_def)
  have o: "split_offs form_example = [- 1, 6, 11, 21, 27]"
    by (simp add: split_offs_def form_example_def)
  have "length form_example \<le> 15" "length (replicate 32 (0 :: int)) = 32" by (simp_all add: n)
  from splitters_agree [OF form_example_at this, of SSE42] show ?thesis
    unfolding n o by simp
qed

text \<open>The array \<open>off\<close> has 32 cells, and a form of 16 pairs needs 33: every variant of
  the splitter writes behind the array on a form of 16 pairs or more.\<close>

theorem splitter_overruns:
  assumes "form_at m str len kvs" and "16 \<le> length kvs" and "length off = 32"
  shows "simd_split_efficient t m str len off = None"
  using simd_split_form [OF assms(1), of t off] assms(2,3)
  by (simp add: store_def split_offs_def)

theorem splitter_overruns_witness:
  "\<exists>m. simd_split_efficient Plain m 0 47 (replicate 32 0) = None"
proof -
  let ?kvs = "replicate 16 ([97], []) :: kv list"
  have r: "?kvs = [([97], []), ([97], []), ([97], []), ([97], []), ([97], []), ([97], []),
      ([97], []), ([97], []), ([97], []), ([97], []), ([97], []), ([97], []), ([97], []),
      ([97], []), ([97], []), ([97], [])]"
    by (simp add: numeral_eq_Suc)
  have "form_ok ?kvs" by (simp add: form_ok_def)
  moreover have "length (form_body ?kvs) = 47" unfolding r by simp
  ultimately have "form_at (form_body ?kvs @ replicate 16 0) 0 47 ?kvs"
    using form_at_start [of ?kvs "replicate 16 0"] by simp
  from splitter_overruns [OF this, of "replicate 32 0" Plain] show ?thesis by auto
qed

end
