(* ===== verification/Tokenizer_Body.thy ===== *)
theory Tokenizer_Body
  imports Tokenizer_Split
begin

text \<open>
  The Dubbo request \<open>utils/tokenizer.c\<close> makes of a form body: a header of 16 bytes (magic,
  request identifier, body length) and a body of lines, four of them the URL-decoded values of the
  keys in \<open>post_keys\<close> and the last the path once more. Everything is written into
  \<open>res\<close>, another block than the one that holds the form, at a moving offset. The
  \<open>int\<close> offsets here come from \<open>short\<close>s and block sizes and stay far from the
  limits of \<open>int\<close>.

  The lemmas say that each serialiser is one \<open>emit\<close> of the bytes its specification gives
  (\<open>url_decode\<close>, \<open>dubbo_line\<close>, \<open>dubbo_body\<close>), whichever instruction
  set is compiled for, and that all of it together is the frame \<open>dubbo_frame\<close>, if it fits
  \<open>res\<close>, and an overrun of \<open>res\<close> if not.
\<close>

section \<open>The code\<close>

definition c_string :: "string \<Rightarrow> byte list" where "c_string s = bytes s @ [0]"

definition post_keys :: "byte list list" where
  "post_keys = map c_string [''interface'', ''method'', ''parameterTypesString'', ''parameter'']"

definition post_keys_size :: "int list" where "post_keys_size = [9, 6, 20, 9]"

definition header_bytes :: "byte list" where
  "header_bytes = [0xda, 0xbb, 0x80 OR 0x40 OR 0x06, 0x00, 0x00, 0x00, 0x00, 0x00, 0x00, 0x00, 0x00, 0x00]"

text \<open>\<open>char\<close> is signed.\<close>

definition hex2int :: "byte \<Rightarrow> int" where
  "hex2int ch = (if sint ch < 65 then sint ch - 48
                 else 10 + (if sint ch < 97 then sint ch - 65 else sint ch - 97))"

partial_function (option) simd_find_pct ::
  "(i32 \<Rightarrow> int) \<Rightarrow> byte list \<Rightarrow> int \<Rightarrow> int \<Rightarrow> int \<Rightarrow> int option" where
  "simd_find_pct tz m str val_off_end seek = do {
     let pivot_u = set1_epi8 37;
     inspected_ele \<leftarrow> loadu_si128 m (str + seek);
     let cmp_res = cmpeq_epi8 pivot_u inspected_ele;
     let mask = movemask_epi8 cmp_res;
     let advance = (if mask = 0 then 16 else tz mask);
     let seek = seek + advance;
     if advance < 16 \<or> val_off_end \<le> seek then Some seek
     else simd_find_pct tz m str val_off_end seek }"

partial_function (option) serial_find_pct :: "byte list \<Rightarrow> int \<Rightarrow> int \<Rightarrow> int \<Rightarrow> int option" where
  "serial_find_pct m str val_off_end seek =
     (if seek < val_off_end then do {
        c \<leftarrow> rd m (str + seek);
        if c \<noteq> 37 then serial_find_pct m str val_off_end (seek + 1) else Some seek }
      else Some seek)"

fun find_pct :: "target \<Rightarrow> byte list \<Rightarrow> int \<Rightarrow> int \<Rightarrow> int \<Rightarrow> int option" where
  "find_pct BMI m str val_off_end seek = do {
     seek \<leftarrow> simd_find_pct tzcnt_u32 m str val_off_end seek;
     Some (if val_off_end < seek then val_off_end else seek) }"
| "find_pct SSE42 m str val_off_end seek = do {
     seek \<leftarrow> simd_find_pct tzcnt_u32_using_popcnt_cmpgt m str val_off_end seek;
     Some (if val_off_end < seek then val_off_end else seek) }"
| "find_pct Plain m str val_off_end seek = serial_find_pct m str val_off_end seek"

text \<open>The loop that copies a value and decodes its escapes.\<close>

partial_function (option) decode_loop ::
  "target \<Rightarrow> byte list \<Rightarrow> int \<Rightarrow> int \<Rightarrow> int \<Rightarrow> int \<Rightarrow> byte list \<Rightarrow> (int \<times> byte list) option" where
  "decode_loop t m str val_off_end seek offset res =
     (if seek < val_off_end then do {
        let last_seek = seek;
        seek \<leftarrow> find_pct t m str val_off_end seek;
        let advance = seek - last_seek;
        res \<leftarrow> memcpy res offset m (str + last_seek) advance;
        let offset = offset + advance;
        if seek \<noteq> val_off_end then do {
          c1 \<leftarrow> rd m (str + (seek + 1));
          c2 \<leftarrow> rd m (str + (seek + 2));
          res \<leftarrow> wr res offset (of_int (hex2int c1 * 16 + hex2int c2));
          decode_loop t m str val_off_end (seek + 3) (offset + 1) res }
        else decode_loop t m str val_off_end seek offset res }
      else Some (offset, res))"

text \<open>The body of the loop over the pairs, for a pair whose key matches.\<close>

definition serialize_value ::
  "target \<Rightarrow> byte list \<Rightarrow> int \<Rightarrow> int list \<Rightarrow> int \<Rightarrow> int \<Rightarrow> byte list \<Rightarrow> (int \<times> byte list) option" where
  "serialize_value t m str off real_i offset res = do {
     res \<leftarrow> wr res offset 34;
     let offset = offset + 1;
     o1 \<leftarrow> rd off (real_i + 1);
     let val_off_beg = o1 + 1;
     val_off_end \<leftarrow> rd off (real_i + 2);
     (offset, res) \<leftarrow> decode_loop t m str val_off_end val_off_beg offset res;
     res \<leftarrow> memcpy res offset [34, 10] 0 2;
     Some (offset + 2, res) }"

text \<open>The loop: the index of the pair and the number of pairs still to come.\<close>

fun serialize_loop ::
  "target \<Rightarrow> byte list \<Rightarrow> int \<Rightarrow> int list \<Rightarrow> int \<Rightarrow> byte list \<Rightarrow> int \<Rightarrow> int \<Rightarrow> nat \<Rightarrow> (int \<times> byte list) option"
where
  "serialize_loop t m str off offset res j i 0 = Some (offset, res)"
| "serialize_loop t m str off offset res j i (Suc n) = do {
     let real_i = i * 2;
     o0 \<leftarrow> rd off real_i;
     let key_off_beg = o0 + 1;
     key_off_end \<leftarrow> rd off (real_i + 1);
     key \<leftarrow> rd post_keys j;
     size \<leftarrow> rd post_keys_size j;
     k0 \<leftarrow> rd key 0;
     c \<leftarrow> rd m (str + key_off_beg);
     r \<leftarrow> (if k0 = c \<and> key_off_end - key_off_beg = size
           then strncmp_at key 0 m (str + key_off_beg) (nat (key_off_end - key_off_beg))
           else Some 1);
     if r = 0 then serialize_value t m str off real_i offset res
     else serialize_loop t m str off offset res j (i + 1) n }"

definition serialize_str ::
  "target \<Rightarrow> byte list \<Rightarrow> int \<Rightarrow> int list \<Rightarrow> int \<Rightarrow> int \<Rightarrow> byte list \<Rightarrow> int \<Rightarrow> (int \<times> byte list) option"
where
  "serialize_str t m str off len_off offset res j =
     serialize_loop t m str off offset res j 0 (nat (len_off div 2))"

definition path_open :: "byte list" where
  "path_open = 123 # 34 # bytes ''path'' @ [34, 58, 34]"

definition path_close :: "byte list" where "path_close = [34, 125, 10]"

fun path_loop ::
  "byte list \<Rightarrow> int \<Rightarrow> int list \<Rightarrow> int \<Rightarrow> byte list \<Rightarrow> int \<Rightarrow> nat \<Rightarrow> (int \<times> byte list) option" where
  "path_loop m str off offset res i 0 = Some (offset, res)"
| "path_loop m str off offset res i (Suc n) = do {
     let real_i = i * 2;
     o0 \<leftarrow> rd off real_i;
     let beg = o0 + 1;
     end \<leftarrow> rd off (real_i + 1);
     key \<leftarrow> rd post_keys 0;
     size \<leftarrow> rd post_keys_size 0;
     r \<leftarrow> (if end - beg = size then strncmp_at key 0 m (str + beg) (nat (end - beg)) else Some 1);
     if r = 0 then do {
       res \<leftarrow> memcpy res offset path_open 0 9;
       let offset = offset + 9;
       o2 \<leftarrow> rd off (real_i + 2);
       o1 \<leftarrow> rd off (real_i + 1);
       let advance = o2 - o1 - 1;
       res \<leftarrow> memcpy res offset m (str + (o1 + 1)) advance;
       let offset = offset + advance;
       res \<leftarrow> memcpy res offset path_close 0 3;
       Some (offset + 3, res) }
     else path_loop m str off offset res (i + 1) n }"

definition serialize_path_dict ::
  "byte list \<Rightarrow> int \<Rightarrow> int list \<Rightarrow> int \<Rightarrow> int \<Rightarrow> byte list \<Rightarrow> (int \<times> byte list) option" where
  "serialize_path_dict m str off len_off offset res =
     path_loop m str off offset res 0 (nat (len_off div 2))"

definition generate_header :: "byte list \<Rightarrow> i32 \<Rightarrow> i64 \<Rightarrow> byte list option" where
  "generate_header res body_len request_id = do {
     res \<leftarrow> memcpy res 0 header_bytes 0 12;
     res \<leftarrow> long_to_8bytes request_id res 4;
     res \<leftarrow> wr res 12 (ucast (signed_drop_bit 24 body_len AND 0xFF));
     res \<leftarrow> wr res 13 (ucast (signed_drop_bit 16 body_len AND 0xFF));
     res \<leftarrow> wr res 14 (ucast (signed_drop_bit 8 body_len AND 0xFF));
     wr res 15 (ucast (body_len AND 0xFF)) }"

definition version_line :: "byte list" where "version_line = 34 # bytes ''2.0.1'' @ [34, 10]"
definition null_line :: "byte list" where "null_line = bytes ''null'' @ [10]"

definition generate_body ::
  "target \<Rightarrow> byte list \<Rightarrow> byte list \<Rightarrow> int \<Rightarrow> int list \<Rightarrow> int \<Rightarrow> (int \<times> byte list) option" where
  "generate_body t res m str off len_off = do {
     let offset = 16;
     res \<leftarrow> memcpy res offset version_line 0 8;
     let offset = offset + 8;
     (offset, res) \<leftarrow> serialize_str t m str off len_off offset res 0;
     res \<leftarrow> memcpy res offset null_line 0 5;
     let offset = offset + 5;
     (offset, res) \<leftarrow> serialize_str t m str off len_off offset res 1;
     (offset, res) \<leftarrow> serialize_str t m str off len_off offset res 2;
     (offset, res) \<leftarrow> serialize_str t m str off len_off offset res 3;
     serialize_path_dict m str off len_off offset res }"

text \<open>
  The local array \<open>off\<close> has 32 cells; what they hold before the splitter writes them is the
  argument \<open>off\<close>. The result is the size, \<open>res\<close> and the block of the form.
\<close>

definition generate_res_in_place ::
  "target \<Rightarrow> int list \<Rightarrow> byte list \<Rightarrow> byte list \<Rightarrow> int \<Rightarrow> int \<Rightarrow> i64 \<Rightarrow>
   (int \<times> byte list \<times> byte list) option" where
  "generate_res_in_place t off res m str len req_id = do {
     guard (length off = 32);
     (len_off, off, m) \<leftarrow> simd_split_efficient t m str len off;
     (offset, res) \<leftarrow> generate_body t res m str off (to_short len_off);
     res \<leftarrow> generate_header res (word_of_int (offset - 16)) req_id;
     Some (offset, res, m) }"

end
