(* ===== verification/Dubbo_Frame.thy ===== *)
theory Dubbo_Frame
  imports Tokenizer_Body
begin

text \<open>
  The specification of the Dubbo request and the proof that \<open>tokenizer.c\<close> produces it.
  \<open>url_decode\<close> is the decoding of one value, \<open>dubbo_line\<close> the line of a key,
  \<open>dubbo_body\<close> and \<open>dubbo_frame\<close> the whole. A value with an incomplete escape at
  its end is left aside (\<open>pct_ok\<close>): the code then reads past the value.
\<close>

section \<open>URL decoding\<close>

fun url_decode :: "byte list \<Rightarrow> byte list" where
  "url_decode [] = []"
| "url_decode (c # cs) =
     (if c = 37
      then (case cs of a # b # r \<Rightarrow> of_int (hex2int a * 16 + hex2int b) # url_decode r | _ \<Rightarrow> [])
      else c # url_decode cs)"

fun pct_ok :: "byte list \<Rightarrow> bool" where
  "pct_ok [] = True"
| "pct_ok (c # cs) =
     (if c = 37 then (case cs of a # b # r \<Rightarrow> pct_ok r | _ \<Rightarrow> False) else pct_ok cs)"

lemma url_decode_plain: "37 \<notin> set u \<Longrightarrow> url_decode (u @ v) = u @ url_decode v"
  by (induction u) auto

lemma pct_ok_plain: "37 \<notin> set u \<Longrightarrow> pct_ok (u @ v) = pct_ok v"
  by (induction u) auto

lemma pct_split:
  assumes "pct_ok v"
  obtains (plain) "37 \<notin> set v"
    | (escape) u a b r where "v = u @ 37 # a # b # r" "37 \<notin> set u" "pct_ok r"
        "idx 37 v = length u"
proof (cases "37 \<in> set v")
  case True
  then obtain u w where v: "v = u @ 37 # w" "37 \<notin> set u" by (meson split_list_first)
  with assms have "pct_ok (37 # w)" by (simp add: pct_ok_plain)
  then obtain a b r where "w = a # b # r" "pct_ok r" by (auto split: list.splits)
  with v escape show thesis by (simp add: idx_append_notin idx_Cons)
qed (use plain in blast)

lemma simd_find_pct_chunk:
  assumes "loadu_si128 m (str + p) = Some xs"
    and "(if chunk_mask 37 xs = 0 then 16 else tz (chunk_mask 37 xs)) = adv"
  shows "simd_find_pct tz m str e p =
    (if adv < 16 \<or> e \<le> p + adv then Some (p + adv) else simd_find_pct tz m str e (p + adv))"
  by (subst simd_find_pct.simps)
     (simp add: assms(1) Let_def flip: assms(2), simp add: chunk_mask_def)

lemma simd_find_pct_seek:
  assumes tz: "tz_ok tz" and "0 \<le> str" "0 \<le> p" "p < e" "str + e + 16 \<le> int (length m)"
  shows "\<exists>r. simd_find_pct tz m str e p = Some r \<and> min r e = min (first_at m str 37 p) e"
  using assms(2-)
proof (induction "nat (e - p)" arbitrary: p rule: less_induct)
  case less
  let ?s = "first_at m str 37 p"
  have "p \<le> ?s" by (rule seek_ge)
  from less.prems have "str + p + 16 \<le> int (length m)" by simp
  then obtain xs where xs: "loadu_si128 m (str + p) = Some xs"
      "(if chunk_mask 37 xs = 0 then 16 else tz (chunk_mask 37 xs)) = min (?s - p) 16"
    using chunk_advance [OF tz less.prems(1,2)] by blast
  note eq = simd_find_pct_chunk [where tz = tz, OF xs, of e]
  show ?case
  proof (cases "?s - p < 16 \<or> e \<le> p + 16")
    case True
    then show ?thesis unfolding eq using \<open>p \<le> ?s\<close> by auto
  next
    case False
    have s: "first_at m str 37 (p + 16) = ?s"
      using False by (intro seek_add less.prems) simp_all
    have "\<exists>r. simd_find_pct tz m str e (p + 16) = Some r \<and>
        min r e = min (first_at m str 37 (p + 16)) e"
      by (rule less.hyps) (use less.prems False in simp_all)
    then show ?thesis unfolding eq using False by (auto simp: s)
  qed
qed

lemma serial_find_pct_seek:
  assumes "0 \<le> str" "0 \<le> p" "p \<le> e" "str + e \<le> int (length m)"
  shows "serial_find_pct m str e p = Some (min (first_at m str 37 p) e)"
  using assms
proof (induction "nat (e - p)" arbitrary: p)
  case 0
  then show ?case using seek_ge [of p m str 37] by (subst serial_find_pct.simps) simp
next
  case (Suc d)
  then have r: "rd m (str + p) = Some (m ! nat (str + p))" and lt: "nat (str + p) < length m"
    and pe: "p < e"
    by (auto simp: rd_def)
  show ?case
  proof (cases "m ! nat (str + p) = 37")
    case True
    then have "first_at m str 37 p = p" using lt by (simp add: first_at_def idx_def drop_eq_Cons_nth)
    with True r pe show ?thesis by (subst serial_find_pct.simps) simp
  next
    case False
    then have "p + 1 \<le> first_at m str 37 p"
      using lt by (simp add: first_at_def idx_def drop_eq_Cons_nth)
    then have s: "first_at m str 37 (p + 1) = first_at m str 37 p"
      using Suc by (intro seek_add) simp_all
    have "serial_find_pct m str e (p + 1) = Some (min (first_at m str 37 (p + 1)) e)"
      by (rule Suc.hyps(1)) (use Suc in simp_all)
    with False r s pe show ?thesis by (subst serial_find_pct.simps) simp
  qed
qed

lemma find_pct_seek:
  assumes "0 \<le> str" "0 \<le> p" "p < e" "str + e + 16 \<le> int (length m)"
  shows "find_pct t m str e p = Some (min (first_at m str 37 p) e)"
proof (cases t)
  case BMI
  with simd_find_pct_seek [OF tz_ok_both(1) assms] show ?thesis by (auto simp: min_def split: if_splits)
next
  case SSE42
  with simd_find_pct_seek [OF tz_ok_both(2) assms] show ?thesis by (auto simp: min_def split: if_splits)
next
  case Plain
  then show ?thesis using serial_find_pct_seek [of str p e m] assms by simp
qed

text \<open>Copying a stretch of the form is an \<open>emit\<close>.\<close>

lemma memcpy_emit:
  assumes "load src s n = Some bs" and "0 \<le> n"
  shows "do { r \<leftarrow> memcpy res offset src s n; f (offset + n) r } =
    Option.bind (emit bs (offset, res)) (\<lambda>(offset, res). f offset res)"
proof -
  have "int (length bs) = n" using length_load [OF assms(1)] assms(2) by simp
  then show ?thesis by (cases "store res offset bs") (simp_all add: memcpy_def assms(1) emit_def)
qed

lemma emit_then:
  assumes "0 \<le> offset"
    and "\<And>offset' res'. emit bs (offset, res) = Some (offset', res') \<Longrightarrow>
      f offset' res' = emit cs (offset', res')"
  shows "Option.bind (emit bs (offset, res)) (\<lambda>(offset, res). f offset res) =
    emit (bs @ cs) (offset, res)"
proof -
  have "Option.bind (emit bs (offset, res)) (\<lambda>(offset, res). f offset res) =
      Option.bind (emit bs (offset, res)) (emit cs)"
    using assms(2) by (cases "emit bs (offset, res)") auto
  then show ?thesis using emit_bind [OF assms(1)] by simp
qed

lemma decode_loop_decodes:
  assumes "0 \<le> str" "0 \<le> p" "drop (nat (str + p)) m = v @ rest" "16 \<le> length rest"
    and "pct_ok v" "0 \<le> offset" "offset \<le> int (length res)"
  shows "decode_loop t m str (p + int (length v)) p offset res = emit (url_decode v) (offset, res)"
  using assms(2-)
proof (induction "length v" arbitrary: v p offset res rule: less_induct)
  case less
  let ?e = "p + int (length v)"
  have "length (drop (nat (str + p)) m) = length v + length rest" by (simp add: less.prems(2))
  then have lm: "length m = nat (str + p) + length v + length rest"
    using less.prems(3) by (simp split: nat_diff_split_asm)
  show ?case
  proof (cases "v = []")
    case True
    with less.prems show ?thesis by (subst decode_loop.simps) (simp add: emit_Nil)
  next
    case False
    have bound: "str + ?e + 16 \<le> int (length m)" using lm less.prems(3) assms(1) less.prems(1) by simp
    have find: "find_pct t m str ?e p = Some (min (first_at m str 37 p) ?e)"
      using find_pct_seek [OF assms(1) less.prems(1) _ bound] False by simp
    have ld: "load m (str + p) (int n) = Some (take n v)" if "n \<le> length v" for n
      using that lm assms(1) less.prems by (simp add: load_def)
    from less.prems(4) show ?thesis
    proof (cases rule: pct_split)
      case plain
      have "min (first_at m str 37 p) ?e = ?e"
        using plain by (simp add: first_at_def less.prems(2) idx_append_notin)
      then have "decode_loop t m str ?e p offset res = do {
          r \<leftarrow> memcpy res offset m (str + p) (int (length v));
          decode_loop t m str ?e ?e (offset + int (length v)) r }"
        using False by (subst decode_loop.simps) (simp add: find Let_def)
      also have "\<dots> = Option.bind (emit v (offset, res))
          (\<lambda>(offset, res). decode_loop t m str ?e ?e offset res)"
        using ld [of "length v"] by (subst memcpy_emit [where bs = v]) simp_all
      also have "\<dots> = emit v (offset, res)"
        by (cases "emit v (offset, res)") (auto simp: decode_loop.simps)
      finally show ?thesis using url_decode_plain [OF plain, of "[]"] by simp
    next
      case (escape u a b r)
      have "first_at m str 37 p = p + int (length u)"
        using escape by (simp add: first_at_def less.prems(2) idx_append_notin idx_Cons)
      then have s: "min (first_at m str 37 p) ?e = p + int (length u)" by (simp add: escape(1))
      let ?q = "p + int (length u)"
      have e: "?e = ?q + 3 + int (length r)" by (simp add: escape(1))
      then have ne: "?q \<noteq> ?e" by simp
      have find': "find_pct t m str ?e p = Some ?q" using find s by simp
      have dq: "drop (nat (str + ?q)) m = 37 # a # b # r @ rest"
      proof -
        have "nat (str + ?q) = length u + nat (str + p)" using assms(1) less.prems(1) by simp
        then show ?thesis using less.prems(2) escape(1)
          by (metis append.assoc append_Cons append_eq_conv_conj drop_drop)
      qed
      have q: "nat (str + (?q + 1)) = nat (str + ?q) + 1" "nat (str + (?q + 2)) = nat (str + ?q) + 2"
        "nat (str + (?q + 3)) = 3 + nat (str + ?q)"
        using assms(1) less.prems(1) by simp_all
      have lq: "nat (str + ?q) + 3 \<le> length m" using lm assms(1) less.prems(1) escape(1) by simp
      have at: "m ! (nat (str + ?q) + n) = (37 # a # b # r @ rest) ! n" for n
        using lq by (simp flip: dq)
      have cs: "rd m (str + (?q + 1)) = Some a" "rd m (str + (?q + 2)) = Some b"
        using q at [of 1] at [of 2] lq assms(1) less.prems(1) by (simp_all add: rd_def)
      have dr: "drop (nat (str + (?q + 3))) m = r @ rest"
        unfolding q(3) by (simp add: dq flip: drop_drop)
      let ?x = "of_int (hex2int a * 16 + hex2int b) :: byte"
      have IH: "decode_loop t m str ?e (?q + 3) offset' res' = emit (url_decode r) (offset', res')"
        if "0 \<le> offset'" "offset' \<le> int (length res')" for offset' res'
        unfolding e by (rule less.hyps) (use dr less.prems escape that in simp_all)
      have "decode_loop t m str ?e p offset res = do {
          r \<leftarrow> memcpy res offset m (str + p) (int (length u));
          (\<lambda>offset r. do { r \<leftarrow> wr r offset ?x; decode_loop t m str ?e (?q + 3) (offset + 1) r })
            (offset + int (length u)) r }"
        using False ne by (subst decode_loop.simps) (simp add: find' cs Let_def)
      also have "\<dots> = Option.bind (emit u (offset, res)) (\<lambda>(offset, res).
          do { res \<leftarrow> wr res offset ?x; decode_loop t m str ?e (?q + 3) (offset + 1) res })"
        using ld [of "length u"] escape(1) by (subst memcpy_emit [where bs = u]) simp_all
      also have "\<dots> = emit (u @ ?x # url_decode r) (offset, res)"
      proof (rule emit_then [OF less.prems(5)])
        fix offset' res' assume em: "emit u (offset, res) = Some (offset', res')"
        then have o: "0 \<le> offset'" using emit_SomeD [OF em] by simp
        have "do { r \<leftarrow> wr res' offset' ?x; decode_loop t m str ?e (?q + 3) (offset' + 1) r } =
            Option.bind (emit [?x] (offset', res'))
              (\<lambda>(offset, res). decode_loop t m str ?e (?q + 3) offset res)"
          by (cases "store res' offset' [?x]") (simp_all add: wr_def emit_def)
        also have "\<dots> = emit ([?x] @ url_decode r) (offset', res')"
          by (rule emit_then [OF o]) (intro IH emit_bounds(1,2), assumption+)
        finally show "do { r \<leftarrow> wr res' offset' ?x; decode_loop t m str ?e (?q + 3) (offset' + 1) r } =
            emit (?x # url_decode r) (offset', res')" by simp
      qed
      also have "u @ ?x # url_decode r = url_decode v"
        using escape by (simp add: url_decode_plain)
      finally show ?thesis .
    qed
  qed
qed

section \<open>The pairs the offsets delimit\<close>

text \<open>Pair \<open>i\<close> of the offsets is the pair \<open>(k, v)\<close> of the form, with 16 bytes behind.\<close>

definition pair_at :: "byte list \<Rightarrow> int \<Rightarrow> int list \<Rightarrow> int \<Rightarrow> byte list \<Rightarrow> byte list \<Rightarrow> bool" where
  "pair_at m str off i k v \<longleftrightarrow> (\<exists>b rest. 0 \<le> str \<and> 0 \<le> b \<and>
     rd off (i * 2) = Some (b - 1) \<and> rd off (i * 2 + 1) = Some (b + int (length k)) \<and>
     rd off (i * 2 + 2) = Some (b + int (length k) + 1 + int (length v)) \<and>
     drop (nat (str + b)) m = k @ 61 # v @ rest \<and> 16 \<le> length rest)"

lemma pair_at_form:
  assumes "drop (nat (str + b)) m = form_body kvs @ rest" and "16 \<le> length rest"
    and "0 \<le> str" "0 \<le> b" and "kvs ! i = (k, v)" "i < length kvs"
  shows "\<exists>b' rest'. 0 \<le> b' \<and> ((b - 1) # form_offs b kvs) ! (2 * i) = b' - 1 \<and>
    ((b - 1) # form_offs b kvs) ! (2 * i + 1) = b' + int (length k) \<and>
    ((b - 1) # form_offs b kvs) ! (2 * i + 2) = b' + int (length k) + 1 + int (length v) \<and>
    drop (nat (str + b')) m = k @ 61 # v @ rest' \<and> 16 \<le> length rest'"
  using assms
proof (induction kvs arbitrary: b i)
  case (Cons kv kvs)
  obtain k0 v0 where kv: "kv = (k0, v0)" by (cases kv)
  show ?case
  proof (cases i)
    case 0
    then have kv': "kv = (k, v)" using Cons.prems by simp
    obtain r where r: "form_body (kv # kvs) @ rest = k @ 61 # v @ r" "16 \<le> length r"
      using Cons.prems(2) kv' by (cases kvs) auto
    with Cons.prems 0 kv' show ?thesis by (intro exI [of _ b] exI [of _ r]) simp
  next
    case (Suc j)
    let ?b = "b + int (length k0) + int (length v0) + 2"
    obtain kv1 kvs1 where kvs: "kvs = kv1 # kvs1" using Cons.prems Suc by (cases kvs) auto
    have fb: "form_body (kv # kvs) = (k0 @ 61 # v0 @ [38]) @ form_body kvs" by (simp add: kv kvs)
    have "nat (str + ?b) = length (k0 @ 61 # v0 @ [38]) + nat (str + b)"
      using Cons.prems(3,4) by simp
    then have "drop (nat (str + ?b)) m = form_body kvs @ rest"
      using Cons.prems(1) unfolding fb by (metis append.assoc append_eq_conv_conj drop_drop)
    then have "\<exists>b' rest'. 0 \<le> b' \<and> ((?b - 1) # form_offs ?b kvs) ! (2 * j) = b' - 1 \<and>
      ((?b - 1) # form_offs ?b kvs) ! (2 * j + 1) = b' + int (length k) \<and>
      ((?b - 1) # form_offs ?b kvs) ! (2 * j + 2) = b' + int (length k) + 1 + int (length v) \<and>
      drop (nat (str + b')) m = k @ 61 # v @ rest' \<and> 16 \<le> length rest'"
      using Cons.prems Suc by (intro Cons.IH) simp_all
    moreover have "((b - 1) # form_offs b (kv # kvs)) ! (2 * Suc j + n) =
        ((?b - 1) # form_offs ?b kvs) ! (2 * j + n)" for n
    proof -
      have "(b + int (length k0) + 1 + int (length v0)) = ?b - 1" by simp
      then have "(b - 1) # form_offs b (kv # kvs) =
          [b - 1, b + int (length k0)] @ ((?b - 1) # form_offs ?b kvs)"
        by (simp add: kv)
      then show ?thesis by (simp add: nth_append)
    qed
    from this [of 0] this [of 1] this [of 2] show ?thesis
      using calculation by (simp only: Suc add_0_right)
  qed
qed simp

lemma split_pairs:
  assumes f: "form_at m str len kvs" and s: "store off0 0 (split_offs kvs) = Some off"
    and i: "i < length kvs" "kvs ! i = (k, v)"
  shows "pair_at m str off (int i) k v"
proof -
  let ?offs = "split_offs kvs"
  have p: "0 \<le> str" "0 \<le> len" "str + len + 16 \<le> int (length m)" using f by (auto simp: form_at_def)
  have "drop (nat str) m = body_from m str len 0 @ drop (nat len + nat str) m"
    unfolding body_from_def by (simp flip: drop_drop)
  then have d: "drop (nat (str + 0)) m = form_body kvs @ drop (nat len + nat str) m"
    using f by (simp add: form_at_def)
  have "16 \<le> length (drop (nat len + nat str) m)" using p by auto
  from pair_at_form [OF d this p(1) order_refl i(2,1)] obtain b rest where
    b: "0 \<le> b" "?offs ! (2 * i) = b - 1" "?offs ! (2 * i + 1) = b + int (length k)"
      "?offs ! (2 * i + 2) = b + int (length k) + 1 + int (length v)"
      "drop (nat (str + b)) m = k @ 61 # v @ rest" "16 \<le> length rest"
    by (auto simp: split_offs_def)
  have "off = ?offs @ drop (length ?offs) off0" using s by (auto simp: store_def split: if_splits)
  moreover have "length ?offs = 1 + 2 * length kvs" by (simp add: split_offs_def)
  ultimately have rd: "rd off (int n) = Some (?offs ! n)" if "n \<le> 2 * length kvs" for n
    using that by (auto simp: rd_def nth_append)
  have e: "int (2 * i) = int i * 2" "int (2 * i + 1) = int i * 2 + 1" "int (2 * i + 2) = int i * 2 + 2"
    by simp_all
  have "rd off (int i * 2) = Some (b - 1)" using rd [of "2 * i"] i(1) unfolding e b(2) by simp
  moreover have "rd off (int i * 2 + 1) = Some (b + int (length k))"
    using rd [of "2 * i + 1"] i(1) unfolding e b(3) by simp
  moreover have "rd off (int i * 2 + 2) = Some (b + int (length k) + 1 + int (length v))"
    using rd [of "2 * i + 2"] i(1) unfolding e b(4) by simp
  ultimately show ?thesis using b p(1) unfolding pair_at_def by blast
qed

text \<open>A pair in the block that the BMI splitter has written zeroes behind: nothing changes.\<close>

lemma form_at_block:
  assumes "form_at m str len kvs"
  shows "form_at (split_block t m str len) str len kvs"
proof (cases t)
  case BMI
  have p: "0 \<le> str" "0 \<le> len" "str + len + 16 \<le> int (length m)" using assms by (auto simp: form_at_def)
  have "store m (str + len) (replicate 16 0) = Some (split_block t m str len)"
    using p by (simp add: BMI store_Some)
  from body_from_store [OF this p(1,2)] length_store [OF this] assms show ?thesis
    by (simp add: form_at_def)
qed (use assms in simp_all)

section \<open>The serialisers\<close>

definition key_name :: "nat \<Rightarrow> byte list" where
  "key_name j = [bytes ''interface'', bytes ''method'', bytes ''parameterTypesString'',
     bytes ''parameter''] ! j"

lemma key_name_rd:
  assumes "j < 4"
  shows "rd post_keys (int j) = Some (key_name j @ [0])"
    and "rd post_keys_size (int j) = Some (int (length (key_name j)))"
    and "0 \<notin> set (key_name j)" and "key_name j \<noteq> []"
proof -
  have j: "j = 0 \<or> j = 1 \<or> j = 2 \<or> j = 3" using assms by auto
  then show "rd post_keys (int j) = Some (key_name j @ [0])"
    and "rd post_keys_size (int j) = Some (int (length (key_name j)))"
    by (auto simp: rd_def post_keys_def post_keys_size_def key_name_def c_string_def)
  show "0 \<notin> set (key_name j)" "key_name j \<noteq> []"
    using j by (auto simp: key_name_def bytes_def)
qed

text \<open>The test of a key, with the byte in front of \<open>strncmp\<close> or without.\<close>

lemma key_test:
  assumes "j < 4" and p: "pair_at m str off i k v"
  obtains b c r where "0 \<le> b" "rd off (i * 2) = Some (b - 1)" "rd off (i * 2 + 1) = Some (b + int (length k))"
    "rd m (str + b) = Some c" "rd (key_name j @ [0]) 0 = Some (hd (key_name j))"
    "length k = length (key_name j) \<Longrightarrow>
      strncmp_at (key_name j @ [0]) 0 m (str + b) (length k) = Some r"
    "length k = length (key_name j) \<Longrightarrow> r = 0 \<longleftrightarrow> k = key_name j"
    "k = key_name j \<Longrightarrow> c = hd (key_name j)"
proof -
  let ?n = "key_name j"
  from p obtain b rest where b: "0 \<le> str" "0 \<le> b" "rd off (i * 2) = Some (b - 1)"
      "rd off (i * 2 + 1) = Some (b + int (length k))"
    and d: "drop (nat (str + b)) m = k @ 61 # v @ rest" by (auto simp: pair_at_def)
  have "length (drop (nat (str + b)) m) = length (k @ 61 # v @ rest)" by (simp only: d)
  then have l: "nat (str + b) + length k < length m" by simp
  have c: "rd m (str + b) = Some (m ! nat (str + b))" using l b by (simp add: rd_def)
  have hd_m: "m ! nat (str + b) = hd (k @ 61 # v @ rest)"
    using l by (simp add: hd_drop_conv_nth flip: d)
  have hd: "rd (?n @ [0]) 0 = Some (hd ?n)"
    using key_name_rd(4) [OF assms(1)] by (cases ?n) (simp_all add: rd_def)
  show thesis
  proof (cases "length k = length ?n")
    case True
    have "take (length k) (drop (nat 0) (?n @ [0])) = ?n" by (simp add: True)
    moreover have "take (length k) (drop (nat (str + b)) m) = k" by (simp add: d)
    ultimately obtain r where r: "strncmp_at (?n @ [0]) 0 m (str + b) (length k) = Some r"
      "r = 0 \<longleftrightarrow> k = ?n"
      using strncmp_at_drop [of 0 "str + b" "length k" "?n @ [0]" m] b l True
        key_name_rd(3) [OF assms(1)] by auto
    show thesis
      by (rule that [OF b(2-4) c hd r]) (use hd_m key_name_rd(4) [OF assms(1)] in simp)
  next
    case False
    with that [OF b(2-4) c hd] show thesis by auto
  qed
qed

lemma load_prefix:
  assumes "drop (nat a) m = v @ rest" and "0 \<le> a" and "rest \<noteq> []"
  shows "load m a (int (length v)) = Some v"
proof -
  have "length m - nat a = length v + length rest" using assms(1) by (metis length_append length_drop)
  then have "a + int (length v) \<le> int (length m)" using assms(2,3) by (cases rest) auto
  then show ?thesis using assms(1,2) by (simp add: load_def)
qed

text \<open>The lines the specification gives a key: none when the form does not have it.\<close>

definition dubbo_value :: "byte list \<Rightarrow> byte list" where
  "dubbo_value v = 34 # url_decode v @ [34, 10]"

definition dubbo_line :: "kv list \<Rightarrow> nat \<Rightarrow> byte list" where
  "dubbo_line kvs j = (case map_of kvs (key_name j) of None \<Rightarrow> [] | Some v \<Rightarrow> dubbo_value v)"

definition path_line :: "kv list \<Rightarrow> byte list" where
  "path_line kvs = (case map_of kvs (key_name 0) of None \<Rightarrow> []
     | Some v \<Rightarrow> path_open @ v @ path_close)"

lemma emit_in_range: "0 \<le> offset \<Longrightarrow> offset \<le> int (length res) \<Longrightarrow> Some (offset, res) = emit [] (offset, res)"
  by (simp add: emit_Nil)

lemma memcpy_const_emit:
  assumes "n = int (length bs)"
  shows "do { r \<leftarrow> memcpy res offset bs 0 n; f (offset + n) r } =
    Option.bind (emit bs (offset, res)) (\<lambda>(offset, res). f offset res)"
  using memcpy_emit [of bs 0 n bs res offset f] assms by (simp add: load_def)

lemma serialize_value_emits:
  assumes "pair_at m str off i k v" and "pct_ok v" and "0 \<le> offset"
  shows "serialize_value t m str off (i * 2) offset res = emit (dubbo_value v) (offset, res)"
proof -
  from assms(1) obtain b rest where b: "0 \<le> str" "0 \<le> b"
      "rd off (i * 2 + 1) = Some (b + int (length k))"
      "rd off (i * 2 + 2) = Some (b + int (length k) + 1 + int (length v))"
    and d: "drop (nat (str + b)) m = k @ 61 # v @ rest" and r: "16 \<le> length rest"
    by (auto simp: pair_at_def)
  let ?p = "b + int (length k) + 1"
  have "nat (str + ?p) = length (k @ [61]) + nat (str + b)" using b by simp
  then have dp: "drop (nat (str + ?p)) m = v @ rest"
    using d by (metis append.assoc append_Cons append_Nil append_eq_conv_conj drop_drop)
  have loop: "decode_loop t m str (?p + int (length v)) ?p offset' res' =
      emit (url_decode v) (offset', res')"
    if "0 \<le> offset'" "offset' \<le> int (length res')" for offset' res'
    using decode_loop_decodes [OF b(1) _ dp r assms(2) that] b(2) by simp
  have "serialize_value t m str off (i * 2) offset res =
      Option.bind (emit [34] (offset, res)) (\<lambda>(offset, res). do {
        (offset, res) \<leftarrow> decode_loop t m str (?p + int (length v)) ?p offset res;
        res \<leftarrow> memcpy res offset [34, 10] 0 2;
        Some (offset + 2, res) })"
    by (cases "store res offset [34]")
       (simp_all add: serialize_value_def wr_def emit_def b Let_def add.assoc)
  also have "\<dots> = emit ([34] @ url_decode v @ [34, 10]) (offset, res)"
  proof (rule emit_then [OF assms(3)])
    fix o1 r1 assume e: "emit [34] (offset, res) = Some (o1, r1)"
    note o1 = emit_bounds [OF e]
    show "do {
        (offset, res) \<leftarrow> decode_loop t m str (?p + int (length v)) ?p o1 r1;
        res \<leftarrow> memcpy res offset [34, 10] 0 2;
        Some (offset + 2, res) } = emit (url_decode v @ [34, 10]) (o1, r1)"
      unfolding loop [OF o1(1,2)]
      by (rule emit_then [OF o1(1)], subst memcpy_const_emit [where f = "\<lambda>x y. Some (x, y)"])
         (simp_all add: option.case_distrib split: Option.bind_split)
  qed
  finally show ?thesis by (simp add: dubbo_value_def)
qed

lemma serialize_loop_emits:
  assumes j: "j < 4" and pairs: "\<And>n. n < length kvs \<Longrightarrow> pair_at m str off (i + int n) (fst (kvs ! n)) (snd (kvs ! n))"
    and pct: "\<And>v. map_of kvs (key_name j) = Some v \<Longrightarrow> pct_ok v"
    and o: "0 \<le> offset" "offset \<le> int (length res)"
  shows "serialize_loop t m str off offset res (int j) i (length kvs) = emit (dubbo_line kvs j) (offset, res)"
  using pairs pct
proof (induction kvs arbitrary: i)
  case Nil
  then show ?case using o by (simp add: dubbo_line_def emit_Nil)
next
  case (Cons kv kvs)
  obtain k v where kv: "kv = (k, v)" by (cases kv)
  have p: "pair_at m str off i k v" using Cons.prems(1) [of 0] by (simp add: kv)
  obtain b c r where b: "0 \<le> b" "rd off (i * 2) = Some (b - 1)" "rd off (i * 2 + 1) = Some (b + int (length k))"
    "rd m (str + b) = Some c" "rd (key_name j @ [0]) 0 = Some (hd (key_name j))"
    and cmp: "length k = length (key_name j) \<Longrightarrow>
      strncmp_at (key_name j @ [0]) 0 m (str + b) (length k) = Some r"
    "length k = length (key_name j) \<Longrightarrow> r = 0 \<longleftrightarrow> k = key_name j"
    and hd: "k = key_name j \<Longrightarrow> c = hd (key_name j)"
    using key_test [OF j p] by metis
  note key = key_name_rd(1,2) [OF j]
  show ?case
  proof (cases "k = key_name j")
    case True
    then have "serialize_loop t m str off offset res (int j) i (length (kv # kvs)) =
        serialize_value t m str off (i * 2) offset res"
      using cmp hd by (simp add: b key Let_def)
    also have "\<dots> = emit (dubbo_value v) (offset, res)"
      using Cons.prems(2) True by (intro serialize_value_emits [OF p _ o(1)]) (simp add: kv)
    finally show ?thesis using True by (simp add: dubbo_line_def kv)
  next
    case False
    then have "serialize_loop t m str off offset res (int j) i (length (kv # kvs)) =
        serialize_loop t m str off offset res (int j) (i + 1) (length kvs)"
      using cmp by (auto simp: b key Let_def)
    also have "\<dots> = emit (dubbo_line kvs j) (offset, res)"
    proof (rule Cons.IH)
      show "pair_at m str off (i + 1 + int n) (fst (kvs ! n)) (snd (kvs ! n))" if "n < length kvs" for n
        using Cons.prems(1) [of "Suc n"] that by (simp add: algebra_simps)
      show "pct_ok v'" if "map_of kvs (key_name j) = Some v'" for v'
        using Cons.prems(2) [of v'] that False by (simp add: kv)
    qed
    finally show ?thesis using False by (simp add: dubbo_line_def kv)
  qed
qed

lemma memcpy_then:
  assumes "load src s n = Some bs" and "0 \<le> offset" and "0 \<le> n"
    and "\<And>r. emit bs (offset, res) = Some (offset + n, r) \<Longrightarrow> f r = emit cs (offset + n, r)"
  shows "Option.bind (memcpy res offset src s n) f = emit (bs @ cs) (offset, res)"
proof -
  have n: "int (length bs) = n" using length_load [OF assms(1)] assms(3) by simp
  have "Option.bind (memcpy res offset src s n) f = Option.bind (emit bs (offset, res)) (emit cs)"
    using assms(4) by (cases "store res offset bs") (simp_all add: memcpy_def assms(1) emit_def n)
  then show ?thesis using emit_bind [OF assms(2)] by simp
qed

lemma load_const: "n = int (length bs) \<Longrightarrow> load bs 0 n = Some bs"
  by (simp add: load_def)

lemma path_len: "int (length path_open) = 9" "int (length path_close) = 3"
  by (simp_all add: path_open_def path_close_def)

lemma memcpy_close:
  "do { r \<leftarrow> memcpy res offset path_close 0 3; Some (offset + 3, r) } = emit path_close (offset, res)"
  using memcpy_const_emit [of 3 path_close res offset "\<lambda>x y. Some (x, y)"]
  by (simp add: path_len option.case_distrib split: Option.bind_split)

lemma path_loop_emits:
  assumes pairs: "\<And>n. n < length kvs \<Longrightarrow> pair_at m str off (i + int n) (fst (kvs ! n)) (snd (kvs ! n))"
    and o: "0 \<le> offset" "offset \<le> int (length res)"
  shows "path_loop m str off offset res i (length kvs) = emit (path_line kvs) (offset, res)"
  using pairs
proof (induction kvs arbitrary: i)
  case Nil
  then show ?case using o by (simp add: path_line_def emit_Nil)
next
  case (Cons kv kvs)
  obtain k v where kv: "kv = (k, v)" by (cases kv)
  have p: "pair_at m str off i k v" using Cons.prems(1) [of 0] by (simp add: kv)
  obtain b c r where b: "0 \<le> b" "rd off (i * 2) = Some (b - 1)" "rd off (i * 2 + 1) = Some (b + int (length k))"
    and cmp: "length k = length (key_name 0) \<Longrightarrow>
      strncmp_at (key_name 0 @ [0]) 0 m (str + b) (length k) = Some r"
    "length k = length (key_name 0) \<Longrightarrow> r = 0 \<longleftrightarrow> k = key_name 0"
    using key_test [OF _ p, of 0] by (metis zero_less_numeral)
  have key: "rd post_keys 0 = Some (key_name 0 @ [0])" "rd post_keys_size 0 = Some (int (length (key_name 0)))"
    using key_name_rd(1,2) [of 0] by simp_all
  show ?case
  proof (cases "k = key_name 0")
    case True
    from p b obtain rest where o2: "rd off (i * 2 + 2) = Some (b + int (length k) + 1 + int (length v))"
      and d: "drop (nat (str + b)) m = k @ 61 # v @ rest" and str: "0 \<le> str" and r: "16 \<le> length rest"
      by (auto simp: pair_at_def)
    let ?p = "b + int (length k) + 1"
    have "nat (str + ?p) = length (k @ [61]) + nat (str + b)" using b str by simp
    then have dp: "drop (nat (str + ?p)) m = v @ rest"
      using d by (metis append.assoc append_Cons append_Nil append_eq_conv_conj drop_drop)
    then have ld: "load m (str + ?p) (int (length v)) = Some v"
      using b str r by (intro load_prefix) auto
    have "path_loop m str off offset res i (length (kv # kvs)) = do {
        r \<leftarrow> memcpy res offset path_open 0 9;
        r \<leftarrow> memcpy r (offset + 9) m (str + ?p) (int (length v));
        r \<leftarrow> memcpy r (offset + 9 + int (length v)) path_close 0 3;
        Some (offset + 9 + int (length v) + 3, r) }"
      using cmp True by (simp add: b key o2 Let_def)
    also have "\<dots> = emit (path_open @ v @ path_close) (offset, res)"
      by (rule memcpy_then, rule load_const [OF path_len(1) [symmetric]], rule o(1), simp,
          rule memcpy_then [OF ld], use o(1) in simp, simp, rule memcpy_close)
    finally show ?thesis using True by (simp add: path_line_def kv)
  next
    case False
    then have "path_loop m str off offset res i (length (kv # kvs)) =
        path_loop m str off offset res (i + 1) (length kvs)"
      using cmp by (auto simp: b key Let_def)
    also have "\<dots> = emit (path_line kvs) (offset, res)"
    proof (rule Cons.IH)
      show "pair_at m str off (i + 1 + int n) (fst (kvs ! n)) (snd (kvs ! n))" if "n < length kvs" for n
        using Cons.prems(1) [of "Suc n"] that by (simp add: algebra_simps)
    qed
    finally show ?thesis using False by (simp add: path_line_def kv)
  qed
qed

section \<open>The frame\<close>

definition dubbo_body :: "kv list \<Rightarrow> byte list" where
  "dubbo_body kvs = version_line @ dubbo_line kvs 0 @ null_line @ dubbo_line kvs 1 @
     dubbo_line kvs 2 @ dubbo_line kvs 3 @ path_line kvs"

definition dubbo_header :: "i64 \<Rightarrow> i32 \<Rightarrow> byte list" where
  "dubbo_header req_id n = [0xda, 0xbb, 0xc6, 0] @ le_bytes 8 req_id @ be32_bytes n"

definition dubbo_frame :: "i64 \<Rightarrow> kv list \<Rightarrow> byte list" where
  "dubbo_frame req_id kvs =
     dubbo_header req_id (word_of_int (int (length (dubbo_body kvs)))) @ dubbo_body kvs"

lemma length_dubbo_header [simp]: "length (dubbo_header req_id n) = 16"
  by (simp add: dubbo_header_def)

lemma length_dubbo_frame: "length (dubbo_frame req_id kvs) = 16 + length (dubbo_body kvs)"
  by (simp add: dubbo_frame_def)

text \<open>The values that are decoded have complete escapes.\<close>

definition values_ok :: "kv list \<Rightarrow> bool" where
  "values_ok kvs \<longleftrightarrow> (\<forall>j < 4. \<forall>v. map_of kvs (key_name j) = Some v \<longrightarrow> pct_ok v)"

lemma generate_header_stores:
  assumes "16 \<le> length res"
  shows "generate_header res n req_id = store res 0 (dubbo_header req_id n)"
proof -
  let ?h = "[0xda, 0xbb, 0xc6, 0] :: byte list"
  have hb: "header_bytes = ?h @ replicate 8 0" by (simp add: header_bytes_def eval_nat_numeral)
  obtain ra where ra: "store res 0 ?h = Some ra" using assms by (simp add: store_Some)
  have la: "length ra = length res" by (rule length_store [OF ra])
  obtain rb where rb: "store ra 4 (replicate 8 0) = Some rb"
    using assms la by (simp add: store_Some)
  have "memcpy res 0 header_bytes 0 12 = store res 0 (?h @ replicate 8 0)"
    by (simp add: memcpy_def load_def hb)
  also have "\<dots> = Some rb" using store_store [OF ra, of "replicate 8 0"] rb by simp
  finally have m: "memcpy res 0 header_bytes 0 12 = Some rb" .
  have "store rb 4 (le_bytes 8 req_id) = store ra 4 (le_bytes 8 req_id)"
    by (rule store_overwrite [OF rb]) simp
  also have "\<dots> = store res 0 (?h @ le_bytes 8 req_id)"
    using store_store [OF ra, of "le_bytes 8 req_id"] by simp
  finally have id: "long_to_8bytes req_id rb 4 = store res 0 (?h @ le_bytes 8 req_id)"
    by (simp add: long_to_8bytes_store)
  obtain rc where rc: "store res 0 (?h @ le_bytes 8 req_id) = Some rc"
    using assms by (simp add: store_Some)
  have "generate_header res n req_id = int_to_four_char n rc 12"
    unfolding generate_header_def m Option.bind.bind_lunit id rc
    by (simp add: int_to_four_char_def)
  also have "\<dots> = store rc 12 (be32_bytes n)" by (rule int_to_four_char_store) simp
  also have "\<dots> = store res 0 ((?h @ le_bytes 8 req_id) @ be32_bytes n)"
    using store_store [OF rc, of "be32_bytes n"] by simp
  finally show ?thesis by (simp add: dubbo_header_def)
qed

lemma generate_body_emits:
  assumes pairs: "\<And>n. n < length kvs \<Longrightarrow> pair_at m str off (int n) (fst (kvs ! n)) (snd (kvs ! n))"
    and ok: "values_ok kvs" and len: "len_off = 1 + 2 * int (length kvs)"
  shows "generate_body t res m str off len_off = emit (dubbo_body kvs) (16, res)"
proof -
  have n: "nat (len_off div 2) = length kvs" by (simp add: len)
  have line: "serialize_str t m str off len_off offset r (int j) = emit (dubbo_line kvs j) (offset, r)"
    if "j < 4" "0 \<le> offset" "offset \<le> int (length r)" for j offset r
    unfolding serialize_str_def n using that ok pairs
    by (intro serialize_loop_emits) (simp_all add: values_ok_def)
  have lines:
    "serialize_str t m str off len_off offset r 0 = emit (dubbo_line kvs 0) (offset, r)"
    "serialize_str t m str off len_off offset r 1 = emit (dubbo_line kvs 1) (offset, r)"
    "serialize_str t m str off len_off offset r 2 = emit (dubbo_line kvs 2) (offset, r)"
    "serialize_str t m str off len_off offset r 3 = emit (dubbo_line kvs 3) (offset, r)"
    if "0 \<le> offset" "offset \<le> int (length r)" for offset r
    using line [of 0] line [of 1] line [of 2] line [of 3] that by simp_all
  have path: "serialize_path_dict m str off len_off offset r = emit (path_line kvs) (offset, r)"
    if "0 \<le> offset" "offset \<le> int (length r)" for offset r
    unfolding serialize_path_dict_def n using that pairs by (intro path_loop_emits) simp_all
  have v: "8 = int (length version_line)" "5 = int (length null_line)"
    by (simp_all add: version_line_def null_line_def)
  have lines123: "do {
      (offset, res) \<leftarrow> serialize_str t m str off len_off offset r 1;
      (offset, res) \<leftarrow> serialize_str t m str off len_off offset res 2;
      (offset, res) \<leftarrow> serialize_str t m str off len_off offset res 3;
      serialize_path_dict m str off len_off offset res } =
    emit (dubbo_line kvs 1 @ dubbo_line kvs 2 @ dubbo_line kvs 3 @ path_line kvs) (offset, r)"
    if "0 \<le> offset" "offset \<le> int (length r)" for offset r
    unfolding lines(2) [OF that]
    by (rule emit_then [OF that(1)], subst lines(3), erule emit_bounds, erule emit_bounds,
        rule emit_then, erule emit_bounds, subst lines(4), erule emit_bounds, erule emit_bounds,
        rule emit_then, erule emit_bounds, rule path, erule emit_bounds, erule emit_bounds)
  have null: "do {
      r \<leftarrow> memcpy r offset null_line 0 5;
      (offset, res) \<leftarrow> serialize_str t m str off len_off (offset + 5) r 1;
      (offset, res) \<leftarrow> serialize_str t m str off len_off offset res 2;
      (offset, res) \<leftarrow> serialize_str t m str off len_off offset res 3;
      serialize_path_dict m str off len_off offset res } =
    emit (null_line @ dubbo_line kvs 1 @ dubbo_line kvs 2 @ dubbo_line kvs 3 @ path_line kvs) (offset, r)"
    if "0 \<le> offset" "offset \<le> int (length r)" for offset r
    by (rule memcpy_then [OF load_const [OF v(2)] that(1)], simp, rule lines123)
       (erule emit_bounds)+
  show ?thesis
    unfolding generate_body_def Let_def dubbo_body_def
    by (rule memcpy_then [OF load_const [OF v(1)]], simp, simp, subst lines(1),
        erule emit_bounds, erule emit_bounds, rule emit_then, erule emit_bounds, rule null)
       (erule emit_bounds)+
qed

text \<open>The whole: the frame and its size, or an overrun.\<close>

lemma generate_res_in_place_frame:
  assumes f: "form_at m str len kvs" and ok: "values_ok kvs" and n: "length kvs \<le> 15"
    and off: "length off = 32"
  shows "generate_res_in_place t off res m str len req_id =
    (if length (dubbo_frame req_id kvs) \<le> length res
     then Some (int (length (dubbo_frame req_id kvs)),
       dubbo_frame req_id kvs @ drop (length (dubbo_frame req_id kvs)) res, split_block t m str len)
     else None)"
proof -
  let ?m = "split_block t m str len" and ?B = "dubbo_body kvs"
  have lo: "length (split_offs kvs) = 1 + 2 * length kvs" by (simp add: split_offs_def)
  then obtain off' where s: "store off 0 (split_offs kvs) = Some off'"
    using n off by (simp add: store_Some)
  have split: "simd_split_efficient t m str len off = Some (1 + 2 * int (length kvs), off', ?m)"
    using simd_split_form [OF f, of t off] s by simp
  have pairs: "pair_at ?m str off' (int i) (fst (kvs ! i)) (snd (kvs ! i))" if "i < length kvs" for i
    using split_pairs [OF form_at_block [OF f, of t] s that] by simp
  have body: "generate_body t res ?m str off' (to_short (1 + 2 * int (length kvs))) = emit ?B (16, res)"
    using n by (intro generate_body_emits pairs ok) simp_all
  show ?thesis
  proof (cases "16 + length ?B \<le> length res")
    case True
    let ?r = "take 16 res @ ?B @ drop (16 + length ?B) res"
    have e: "emit ?B (16, res) = Some (16 + int (length ?B), ?r)"
      using True emit_Some [of 16 ?B res] by simp
    have "generate_header ?r (word_of_int (int (length ?B))) req_id =
        Some (dubbo_header req_id (word_of_int (int (length ?B))) @ ?B @ drop (16 + length ?B) res)"
    proof -
      have l: "length (take 16 res) = 16" "16 \<le> length ?r" using True by simp_all
      let ?H = "dubbo_header req_id (word_of_int (int (length ?B)))"
      have "store ?r 0 ?H = Some (?H @ drop 16 ?r)" using l(2) by (simp add: store_def)
      moreover have "drop 16 ?r = ?B @ drop (16 + length ?B) res" using l(1) by simp
      ultimately show ?thesis using generate_header_stores [OF l(2)] by simp
    qed
    then show ?thesis using True off
      by (simp add: generate_res_in_place_def split body e length_dubbo_frame)
         (simp add: dubbo_frame_def)
  next
    case False
    then have "emit ?B (16, res) = None" by (intro emit_None) simp_all
    with False off show ?thesis
      by (simp add: generate_res_in_place_def split body length_dubbo_frame)
  qed
qed

section \<open>Properties\<close>

text \<open>C2. \<open>generate_res_in_place\<close>: from a form of at most 15 pairs whose decoded values
  have complete escapes, and compiled for any instruction set, it writes exactly the frame the
  specification gives (magic, request identifier, body length, and the lines of the fields, decoded)
  at the start of \<open>res\<close>, returns its size and changes nothing behind it; when the frame
  does not fit \<open>res\<close> it overruns it.\<close>

theorem dubbo_request_correct:
  assumes "form_at m str len kvs" and "values_ok kvs" and "length kvs \<le> 15" and "length off = 32"
  shows "generate_res_in_place t off res m str len req_id =
    (if length (dubbo_frame req_id kvs) \<le> length res
     then Some (int (length (dubbo_frame req_id kvs)),
       dubbo_frame req_id kvs @ drop (length (dubbo_frame req_id kvs)) res, split_block t m str len)
     else None)"
  using assms by (rule generate_res_in_place_frame)

lemma form_example_values: "values_ok form_example"
  by (auto simp: values_ok_def form_example_def bytes_def map_of_eq_Some_iff)

lemma dubbo_frame_example: "length (dubbo_body form_example) = 26"
proof -
  have "key_name 0 = bytes ''interface''" "key_name (Suc 0) = bytes ''method''"
    "key_name 2 = bytes ''parameterTypesString''" "key_name 3 = bytes ''parameter''"
    by (simp_all add: key_name_def)
  then show ?thesis
    by (simp add: dubbo_body_def dubbo_line_def path_line_def form_example_def bytes_def
        version_line_def null_line_def dubbo_value_def)
qed

theorem dubbo_request_correct_witness:
  "generate_res_in_place SSE42 (replicate 32 5) (replicate 4096 0)
      (form_body form_example @ replicate 16 7) 0 27 258 =
    Some (42, dubbo_frame 258 form_example @ replicate 4054 0, form_body form_example @ replicate 16 7)"
proof -
  have n: "length form_example \<le> 15" "length (replicate 32 (5 :: int)) = 32"
    by (simp_all add: form_example_def)
  have l: "length (dubbo_frame 258 form_example) = 42" by (simp add: length_dubbo_frame dubbo_frame_example)
  show ?thesis
    using dubbo_request_correct [OF form_example_at form_example_values n, of SSE42 "replicate 4096 0" 258]
    unfolding l by simp
qed

text \<open>Percent-encoding with upper-case digits, of the bytes in \<open>P\<close>.\<close>

definition hex_digit :: "nat \<Rightarrow> byte" where
  "hex_digit d = of_nat (if d < 10 then 48 + d else 55 + d)"

fun url_encode :: "(byte \<Rightarrow> bool) \<Rightarrow> byte list \<Rightarrow> byte list" where
  "url_encode P [] = []"
| "url_encode P (b # bs) =
     (if P b then [37, hex_digit (unat b div 16), hex_digit (unat b mod 16)] else [b]) @ url_encode P bs"

lemma hex2int_digit: "d < 16 \<Longrightarrow> hex2int (hex_digit d) = int d"
proof -
  assume d: "d < 16"
  have "sint (of_nat k :: byte) = int k" if "k < 128" for k
    using int_word_sint [of "int k", where 'a=8] that by simp
  then have "sint (hex_digit d) = int (if d < 10 then 48 + d else 55 + d)"
    using d by (simp add: hex_digit_def)
  then show ?thesis using d by (simp add: hex2int_def)
qed

lemma url_decode_encode: "P 37 \<Longrightarrow> url_decode (url_encode P bs) = bs \<and> pct_ok (url_encode P bs)"
proof (induction bs)
  case (Cons b bs)
  have "unat b div 16 < 16" "unat b mod 16 < 16" using unat_byte_bound [of b] by auto
  then have "hex2int (hex_digit (unat b div 16)) * 16 + hex2int (hex_digit (unat b mod 16)) =
      int (unat b div 16) * 16 + int (unat b mod 16)"
    by (simp only: hex2int_digit)
  also have "\<dots> = int (unat b div 16 * 16 + unat b mod 16)"
    by (simp only: of_nat_add of_nat_mult of_nat_numeral)
  also have "\<dots> = uint b" by (simp only: div_mult_mod_eq uint_nat)
  finally have e: "(of_int (hex2int (hex_digit (unat b div 16)) * 16 +
      hex2int (hex_digit (unat b mod 16))) :: byte) = b"
    by (simp only: word_of_int_uint)
  show ?case
  proof (cases "P b")
    case True
    then show ?thesis using Cons e by (simp del: of_int_add of_int_mult)
  next
    case False
    then have "b \<noteq> 37" using Cons.prems by blast
    with False Cons show ?thesis by simp
  qed
qed simp

text \<open>C26. Decoding a value inverts percent-encoding: whatever bytes were escaped, as long as the
  percent sign was, \<open>decode_loop\<close> writes the original bytes, on every instruction set.\<close>

theorem url_roundtrip:
  assumes "P 37" and "0 \<le> str" "0 \<le> p" "drop (nat (str + p)) m = url_encode P bs @ rest"
    and "16 \<le> length rest" and "0 \<le> offset" "offset + int (length bs) \<le> int (length res)"
  shows "decode_loop t m str (p + int (length (url_encode P bs))) p offset res =
    Some (offset + int (length bs), take (nat offset) res @ bs @ drop (nat offset + length bs) res)"
proof -
  have "decode_loop t m str (p + int (length (url_encode P bs))) p offset res = emit bs (offset, res)"
    using decode_loop_decodes [OF assms(2-5) _ assms(6)] url_decode_encode [of P bs] assms(1,7) by simp
  then show ?thesis using emit_Some [OF assms(6,7)] by simp
qed

theorem url_roundtrip_witness:
  "decode_loop BMI ([37, 50, 70, 65] @ replicate 16 0) 0 4 0 1 [1, 2, 3, 4] = Some (3, [1, 47, 65, 4])"
  using url_roundtrip [of "\<lambda>b. b = 47 \<or> b = 37" 0 0 "[37, 50, 70, 65] @ replicate 16 0" "[47, 65]"
      "replicate 16 0" 1 "[1, 2, 3, 4]" BMI]
  by (simp add: hex_digit_def)

end
