(* ===== verification/Tokenizer_Fast.thy ===== *)
theory Tokenizer_Fast
  imports Dubbo_Frame
begin

text \<open>
  The shortcuts for the one method of the benchmark: \<open>generate_res_in_place_hard_code\<close> of
  \<open>tokenizer.c\<close>, which skips the 136 bytes every form starts with, and the pair of
  \<open>tokenizer_fast_req.c\<close>, a short package between the agents and the Dubbo request made
  from it. The lemmas show that both ways give one and the same frame, and that it is the frame the
  general tokenizer makes of a form with the standard fields.
\<close>

section \<open>The code\<close>

definition interface_name :: "byte list" where
  "interface_name = bytes ''com.alibaba.dubbo.performance.demo.provider.IHelloService''"

definition type_string :: "byte list" where "type_string = bytes ''Ljava/lang/String;''"

definition method_detail_values :: "byte list" where
  "method_detail_values = version_line @ (34 # interface_name @ [34, 10]) @ null_line @
     (34 # bytes ''hash'' @ [34, 10]) @ (34 # type_string @ [34, 10]) @ [0]"

definition method_detail_path :: "byte list" where
  "method_detail_path = 10 # path_open @ interface_name @ path_close @ [0]"

definition generate_body_hard_code ::
  "byte list \<Rightarrow> byte list \<Rightarrow> int \<Rightarrow> int \<Rightarrow> (int \<times> byte list) option" where
  "generate_body_hard_code res m parameter_str parameter_len = do {
     res \<leftarrow> memcpy res 16 method_detail_values 0 101;
     let offset = 16 + 101;
     res \<leftarrow> wr res offset 34;
     let offset = offset + 1;
     res \<leftarrow> memcpy res offset m parameter_str parameter_len;
     let offset = offset + parameter_len;
     res \<leftarrow> wr res offset 34;
     let offset = offset + 1;
     path_len \<leftarrow> strlen_at method_detail_path 0;
     res \<leftarrow> memcpy res offset method_detail_path 0 path_len;
     Some (offset + path_len, res) }"

definition generate_res_in_place_hard_code ::
  "byte list \<Rightarrow> byte list \<Rightarrow> int \<Rightarrow> int \<Rightarrow> i64 \<Rightarrow> (int \<times> byte list) option" where
  "generate_res_in_place_hard_code res m str len req_id = do {
     (offset, res) \<leftarrow> generate_body_hard_code res m (str + 136) (len - 136);
     res \<leftarrow> generate_header res (word_of_int (offset - 16)) req_id;
     Some (offset, res) }"

definition generate_fast_req_package_header :: "byte list \<Rightarrow> i32 \<Rightarrow> i64 \<Rightarrow> byte list option" where
  "generate_fast_req_package_header res body_len request_id = do {
     res \<leftarrow> int_to_four_char body_len res 0;
     long_to_8bytes request_id res 6 }"

definition generate_fast_req_package_in_place ::
  "byte list \<Rightarrow> byte list \<Rightarrow> int \<Rightarrow> int \<Rightarrow> i64 \<Rightarrow> (int \<times> byte list) option" where
  "generate_fast_req_package_in_place res m str len req_id = do {
     let body_len = len - 136;
     res \<leftarrow> memcpy res 14 m (str + 136) body_len;
     res \<leftarrow> generate_fast_req_package_header res (word_of_int body_len) req_id;
     Some (body_len + 14, res) }"

definition generate_dubbo_package ::
  "byte list \<Rightarrow> byte list \<Rightarrow> int \<Rightarrow> (int \<times> byte list) option" where
  "generate_dubbo_package res fast_req_package fast_req_len = do {
     res \<leftarrow> memcpy res 0 header_bytes 0 4;
     res \<leftarrow> memcpy res 4 fast_req_package 6 8;
     res \<leftarrow> memcpy res 16 method_detail_values 0 101;
     let offset = 16 + 101;
     res \<leftarrow> wr res offset 34;
     let offset = offset + 1;
     res \<leftarrow> memcpy res offset fast_req_package 14 (fast_req_len - 14);
     let offset = offset + (fast_req_len - 14);
     res \<leftarrow> wr res offset 34;
     let offset = offset + 1;
     res \<leftarrow> memcpy res offset method_detail_path 0 70;
     let offset = offset + 70;
     res \<leftarrow> int_to_four_char (word_of_int (offset - 16)) res 12;
     Some (offset, res) }"

section \<open>One frame\<close>

definition values_block :: "byte list" where "values_block = butlast method_detail_values"
definition path_block :: "byte list" where "path_block = butlast method_detail_path"

definition hash_body :: "byte list \<Rightarrow> byte list" where
  "hash_body v = values_block @ [34] @ v @ [34] @ path_block"

definition hash_frame :: "i64 \<Rightarrow> byte list \<Rightarrow> byte list" where
  "hash_frame req_id v = dubbo_header req_id (word_of_int (int (length (hash_body v)))) @ hash_body v"

lemma blocks: "method_detail_values = values_block @ [0]" "method_detail_path = path_block @ [0]"
  by (simp_all add: values_block_def path_block_def method_detail_values_def method_detail_path_def
      butlast_append)

lemma length_blocks: "length values_block = 101" "length path_block = 70"
  by (simp_all add: values_block_def path_block_def method_detail_values_def method_detail_path_def
      version_line_def null_line_def interface_name_def type_string_def path_open_def path_close_def)

lemma load_blocks:
  "load method_detail_values 0 101 = Some values_block"
  "load method_detail_path 0 70 = Some path_block"
  unfolding blocks using length_blocks by (simp_all add: load_def)

lemma strlen_path: "strlen_at method_detail_path 0 = Some 70"
proof -
  have "0 \<notin> set path_block"
    by (simp add: path_block_def method_detail_path_def path_open_def path_close_def
        interface_name_def bytes_def)
  then have "takeWhile (\<lambda>b. b \<noteq> 0) (path_block @ [0]) = path_block"
    by (subst takeWhile_append2) auto
  then show ?thesis using length_blocks(2) by (simp add: strlen_at_def blocks)
qed

lemma wr_then:
  assumes "0 \<le> offset"
    and "\<And>r. emit [b] (offset, res) = Some (offset + 1, r) \<Longrightarrow> f r = emit cs (offset + 1, r)"
  shows "Option.bind (wr res offset b) f = emit (b # cs) (offset, res)"
proof -
  have "Option.bind (wr res offset b) f = Option.bind (emit [b] (offset, res)) (emit cs)"
    using assms(2) by (cases "store res offset [b]") (simp_all add: wr_def emit_def)
  then show ?thesis using emit_bind [OF assms(1), of "[b]"] by simp
qed

lemma memcpy_last:
  assumes "load src s n = Some bs" and "0 \<le> n"
  shows "do { r \<leftarrow> memcpy res offset src s n; Some (offset + n, r) } = emit bs (offset, res)"
proof -
  have "int (length bs) = n" using length_load [OF assms(1)] assms(2) by simp
  then show ?thesis by (simp add: memcpy_def assms(1) emit_def)
qed

lemma emit_chain:
  "Option.bind (emit bs (offset, res)) (\<lambda>(o1, r). Some (f o1 r)) = map_option (\<lambda>(o1, r). f o1 r) (emit bs (offset, res))"
  by (cases "emit bs (offset, res)") auto

text \<open>The body both shortcuts write at offset 16.\<close>

lemma hash_body_emits:
  assumes "load m p n = Some v" and "0 \<le> n"
  shows "do {
     res \<leftarrow> memcpy res 16 method_detail_values 0 101;
     res \<leftarrow> wr res (16 + 101) 34;
     res \<leftarrow> memcpy res (16 + 101 + 1) m p n;
     res \<leftarrow> wr res (16 + 101 + 1 + n) 34;
     res \<leftarrow> memcpy res (16 + 101 + 1 + n + 1) method_detail_path 0 70;
     Some (16 + 101 + 1 + n + 1 + 70, res) } = emit (hash_body v) (16, res)"
  unfolding hash_body_def append_Cons append_Nil
  by (rule memcpy_then [OF load_blocks(1)], simp, simp, rule wr_then, simp,
      rule memcpy_then [OF assms(1) _ assms(2)], simp, rule wr_then, use assms(2) in simp,
      rule memcpy_last [OF load_blocks(2)], simp)

lemma generate_body_hard_code_emits:
  assumes "load m p n = Some v" and "0 \<le> n"
  shows "generate_body_hard_code res m p n = emit (hash_body v) (16, res)"
  using hash_body_emits [OF assms, of res]
  by (simp add: generate_body_hard_code_def strlen_path Let_def)

lemma header_of_emit:
  assumes "emit B (16, res) = Some (o1, r)"
  shows "generate_header r (word_of_int (o1 - 16)) req_id =
    Some (dubbo_header req_id (word_of_int (int (length B))) @ B @ drop (16 + length B) res)"
    and "o1 = 16 + int (length B)" and "16 + length B \<le> length res"
proof -
  note e = emit_SomeD [OF assms]
  show o1: "o1 = 16 + int (length B)" using e by simp
  show l: "16 + length B \<le> length res" using e(1,4,5) by linarith
  let ?H = "dubbo_header req_id (word_of_int (int (length B)))"
  have r: "r = take 16 res @ B @ drop (16 + length B) res"
    using e(2) by (auto simp: store_def split: if_splits)
  have "16 \<le> length r" using e(5) l by simp
  moreover from this have "store r 0 ?H = Some (?H @ drop 16 r)" by (simp add: store_def)
  moreover have "drop 16 r = B @ drop (16 + length B) res" using l by (simp add: r min_def)
  ultimately show "generate_header r (word_of_int (o1 - 16)) req_id = Some (?H @ B @ drop (16 + length B) res)"
    using generate_header_stores [of r] by (simp add: o1)
qed

lemma hard_code_frame:
  assumes "load m (str + 136) (len - 136) = Some v" and "136 \<le> len"
  shows "generate_res_in_place_hard_code res m str len req_id =
    (if length (hash_frame req_id v) \<le> length res
     then Some (int (length (hash_frame req_id v)),
       hash_frame req_id v @ drop (length (hash_frame req_id v)) res) else None)"
proof -
  have n: "0 \<le> len - 136" using assms(2) by simp
  note g = generate_body_hard_code_emits [OF assms(1) n]
  show ?thesis
  proof (cases "emit (hash_body v) (16, res)")
    case None
    then have "\<not> 16 + length (hash_body v) \<le> length res"
      using emit_Some [of 16 "hash_body v" res] by auto
    with None show ?thesis
      by (simp add: generate_res_in_place_hard_code_def g hash_frame_def)
  next
    case (Some p)
    then obtain o1 r where e: "emit (hash_body v) (16, res) = Some (o1, r)" by (cases p) auto
    note h = header_of_emit(1) [OF e, of req_id] header_of_emit(2,3) [OF e]
    show ?thesis using h
      by (simp add: generate_res_in_place_hard_code_def g e) (simp add: hash_frame_def)
  qed
qed

text \<open>The short package carries the identifier at 6 and the parameter at 14.\<close>

lemma fast_req_package_fields:
  assumes v: "load m (str + 136) (len - 136) = Some v" and len: "136 \<le> len"
    and g: "generate_fast_req_package_in_place res m str len req_id = Some (n, pkg)"
  shows "n = len - 122" and "load pkg 6 8 = Some (le_bytes 8 req_id)"
    and "load pkg 14 (n - 14) = Some v"
proof -
  from g obtain r1 r2 where s1: "store res 14 v = Some r1"
    and s2: "int_to_four_char (word_of_int (len - 136)) r1 0 = Some r2"
    and s3: "long_to_8bytes req_id r2 6 = Some pkg" and n: "n = len - 136 + 14"
    by (auto simp: generate_fast_req_package_in_place_def generate_fast_req_package_header_def
        memcpy_def v Let_def bind_Some_iff)
  from s2 have s2': "store r1 0 (be32_bytes (word_of_int (len - 136))) = Some r2"
    by (simp add: int_to_four_char_store)
  from s3 have s3': "store r2 6 (le_bytes 8 req_id) = Some pkg" by (simp add: long_to_8bytes_store)
  show "n = len - 122" using n by simp
  show "load pkg 6 8 = Some (le_bytes 8 req_id)" using load_store_same [OF s3'] by simp
  have "int (length v) = len - 136" using length_load [OF v] len by simp
  moreover have "load r1 14 (int (length v)) = Some v" by (rule load_store_same [OF s1])
  ultimately show "load pkg 14 (n - 14) = Some v"
    using load_store_after [OF s3', of 14 "n - 14"] load_store_after [OF s2', of 14 "n - 14"] n by simp
qed

lemma drop_past_header: "length a = 12 \<Longrightarrow> drop (16 + n) (a @ drop 12 r) = drop (16 + n) r"
  by simp

lemma dubbo_package_frame:
  assumes id: "load pkg 6 8 = Some (le_bytes 8 req_id)" and v: "load pkg 14 (n - 14) = Some v"
    and n: "14 \<le> n"
  shows "generate_dubbo_package res pkg n =
    (if length (hash_frame req_id v) \<le> length res
     then Some (int (length (hash_frame req_id v)),
       hash_frame req_id v @ drop (length (hash_frame req_id v)) res) else None)"
proof -
  let ?h = "[0xda, 0xbb, 0xc6, 0] :: byte list" and ?B = "hash_body v"
  let ?A = "?h @ le_bytes 8 req_id"
  have "load header_bytes 0 4 = Some ?h" by (simp add: header_bytes_def load_def)
  then have A: "do { res \<leftarrow> memcpy res 0 header_bytes 0 4; memcpy res 4 pkg 6 8 } = store res 0 ?A"
    using store_bind [of 0 4 ?h res "le_bytes 8 req_id"] by (simp add: memcpy_def id)
  have g: "generate_dubbo_package res pkg n = do {
      r1 \<leftarrow> store res 0 ?A;
      (offset, r) \<leftarrow> emit ?B (16, r1);
      r \<leftarrow> int_to_four_char (word_of_int (offset - 16)) r 12;
      Some (offset, r) }"
  proof -
    have chain: "do {
        res \<leftarrow> memcpy r1 16 method_detail_values 0 101;
        res \<leftarrow> wr res (16 + 101) 34;
        res \<leftarrow> memcpy res (16 + 101 + 1) pkg 14 (n - 14);
        res \<leftarrow> wr res (16 + 101 + 1 + (n - 14)) 34;
        res \<leftarrow> memcpy res (16 + 101 + 1 + (n - 14) + 1) method_detail_path 0 70;
        f (16 + 101 + 1 + (n - 14) + 1 + 70) res } =
      Option.bind (emit ?B (16, r1)) (\<lambda>(offset, r). f offset r)"
      for r1 and f :: "int \<Rightarrow> byte list \<Rightarrow> (int \<times> byte list) option"
      using hash_body_emits [OF v, of r1, symmetric] n by simp
    have "generate_dubbo_package res pkg n =
        Option.bind (do { res \<leftarrow> memcpy res 0 header_bytes 0 4; memcpy res 4 pkg 6 8 }) (\<lambda>r1. do {
        res \<leftarrow> memcpy r1 16 method_detail_values 0 101;
        res \<leftarrow> wr res (16 + 101) 34;
        res \<leftarrow> memcpy res (16 + 101 + 1) pkg 14 (n - 14);
        res \<leftarrow> wr res (16 + 101 + 1 + (n - 14)) 34;
        res \<leftarrow> memcpy res (16 + 101 + 1 + (n - 14) + 1) method_detail_path 0 70;
        (\<lambda>offset res. do { res \<leftarrow> int_to_four_char (word_of_int (offset - 16)) res 12;
          Some (offset, res) }) (16 + 101 + 1 + (n - 14) + 1 + 70) res })"
      by (simp only: generate_dubbo_package_def Let_def Option.bind_assoc)
    then show ?thesis unfolding A
      chain [of _ "\<lambda>offset res. do { res \<leftarrow> int_to_four_char (word_of_int (offset - 16)) res 12;
          Some (offset, res) }"] .
  qed
  show ?thesis
  proof (cases "16 + length ?B \<le> length res")
    case True
    let ?r1 = "?A @ drop 12 res"
    have r1: "store res 0 ?A = Some ?r1" using True by (simp add: store_def)
    have l1: "length ?r1 = length res" using True by simp
    let ?r = "take 16 ?r1 @ ?B @ drop (16 + length ?B) ?r1"
    have e: "emit ?B (16, ?r1) = Some (16 + int (length ?B), ?r)"
      using emit_Some [of 16 ?B ?r1] True l1 by simp
    have "drop 16 ?r = ?B @ drop (16 + length ?B) ?r1" using True by simp
    moreover have "drop (16 + length ?B) ?r1 = drop (16 + length ?B) res"
      by (rule drop_past_header) simp
    ultimately have t: "drop 16 ?r = ?B @ drop (16 + length ?B) res" by (rule trans [OF _ arg_cong])
    have t': "take 12 ?r = ?A" "16 \<le> length ?r" using True by simp_all
    have "int_to_four_char (word_of_int (int (length ?B))) ?r 12 =
        Some (?A @ be32_bytes (word_of_int (int (length ?B))) @ ?B @ drop (16 + length ?B) res)"
      unfolding int_to_four_char_store [of 12, simplified] store_def
      using t t' by (simp del: take_append drop_append append.simps)
    then show ?thesis using True
      unfolding g r1 Option.bind.bind_lunit e by (simp add: hash_frame_def dubbo_header_def)
  next
    case False
    then have "emit ?B (16, r1) = None" if "store res 0 ?A = Some r1" for r1
      using emit_None [of 16 r1 ?B] length_store [OF that] by simp
    with False show ?thesis
      by (cases "store res 0 ?A") (simp_all add: g hash_frame_def)
  qed
qed

section \<open>The standard form\<close>

definition type_string_enc :: "byte list" where "type_string_enc = bytes ''Ljava%2Flang%2FString%3B''"

definition standard_form :: "byte list \<Rightarrow> kv list" where
  "standard_form v = [(key_name 0, interface_name), (key_name 1, bytes ''hash''),
     (key_name 2, type_string_enc), (key_name 3, v)]"

lemma key_names_distinct:
  "key_name 0 \<noteq> key_name 1" "key_name 0 \<noteq> key_name 2" "key_name 0 \<noteq> key_name 3"
  "key_name 1 \<noteq> key_name 2" "key_name 1 \<noteq> key_name 3" "key_name 2 \<noteq> key_name 3"
  by (simp_all add: key_name_def bytes_def)

lemma standard_fields:
  "map_of (standard_form v) (key_name 0) = Some interface_name"
  "map_of (standard_form v) (key_name 1) = Some (bytes ''hash'')"
  "map_of (standard_form v) (key_name 2) = Some type_string_enc"
  "map_of (standard_form v) (key_name 3) = Some v"
  using key_names_distinct by (auto simp: standard_form_def)

lemma standard_decoded:
  "37 \<notin> set interface_name" "37 \<notin> set (bytes ''hash'')"
  "url_decode type_string_enc = type_string" "pct_ok type_string_enc"
  by (simp_all add: interface_name_def bytes_def type_string_enc_def type_string_def hex2int_def)

lemma dubbo_body_standard:
  assumes "37 \<notin> set v"
  shows "dubbo_body (standard_form v) = hash_body v"
proof -
  have u: "url_decode w = w" if "37 \<notin> set w" for w
    using url_decode_plain [OF that, of "[]"] by simp
  have "values_block = version_line @ (34 # interface_name @ [34, 10]) @ null_line @
     (34 # bytes ''hash'' @ [34, 10]) @ (34 # type_string @ [34, 10])"
    by (simp add: values_block_def method_detail_values_def butlast_append)
  moreover have "path_block = 10 # path_open @ interface_name @ path_close"
    by (simp add: path_block_def method_detail_path_def butlast_append)
  ultimately show ?thesis
    by (simp add: dubbo_body_def dubbo_line_def path_line_def standard_fields standard_decoded
        standard_fields(2) [unfolded One_nat_def]
        dubbo_value_def u assms hash_body_def)
qed

section \<open>Properties\<close>

definition standard_prefix :: "byte list" where "standard_prefix = form_body (standard_form [])"

lemma standard_form_body: "form_body (standard_form v) = standard_prefix @ v"
  and length_standard_prefix: "length standard_prefix = 136"
  by (simp_all add: standard_prefix_def standard_form_def key_name_def interface_name_def
      type_string_enc_def)

lemma standard_form_ok: "38 \<notin> set v \<Longrightarrow> form_ok (standard_form v)"
  by (simp add: form_ok_def standard_form_def key_name_def interface_name_def type_string_enc_def
      bytes_def)

lemma standard_parameter:
  assumes f: "form_at m str len (standard_form v)"
  shows "load m (str + 136) (len - 136) = Some v" and "136 \<le> len"
proof -
  have l: "int (length (form_body (standard_form v))) = len" by (rule form_at_len(1) [OF f])
  then have len: "len = 136 + int (length v)" by (simp add: standard_form_body length_standard_prefix)
  then show "136 \<le> len" by simp
  have p: "0 \<le> str" "str + len + 16 \<le> int (length m)" using f by (auto simp: form_at_def)
  have "take (nat len) (drop (nat str) m) = standard_prefix @ v"
    using f by (simp add: form_at_def body_from_def standard_form_body)
  then have "drop 136 (take (nat len) (drop (nat str) m)) = v" using length_standard_prefix by simp
  moreover have "nat len - 136 = length v" "nat (str + 136) = 136 + nat str" using len p by simp_all
  ultimately have "take (length v) (drop (nat (str + 136)) m) = v" by (simp add: drop_take)
  then show "load m (str + 136) (len - 136) = Some v" using len p by (simp add: load_def)
qed

text \<open>C27. On the form of the benchmark (the standard fields, the parameter free of escapes) the
  three ways to make the Dubbo request agree: the general tokenizer, the hard-coded one, and the
  short package followed by its expansion write the same frame of the same size into \<open>res\<close>.\<close>

theorem shortcuts_agree:
  assumes "form_at m str len (standard_form v)" and "37 \<notin> set v" and "length off = 32"
    and "generate_fast_req_package_in_place res0 m str len req_id = Some (n, pkg)"
  shows "map_option (\<lambda>(n, r, m). (n, r)) (generate_res_in_place t off res m str len req_id) =
      generate_res_in_place_hard_code res m str len req_id \<and>
    generate_dubbo_package res pkg n = generate_res_in_place_hard_code res m str len req_id \<and>
    (if length (hash_frame req_id v) \<le> length res
     then \<exists>r. generate_res_in_place_hard_code res m str len req_id =
       Some (int (length (hash_frame req_id v)), hash_frame req_id v @ r)
     else generate_res_in_place_hard_code res m str len req_id = None)"
proof -
  let ?F = "hash_frame req_id v"
  have f: "dubbo_frame req_id (standard_form v) = ?F"
    by (simp add: dubbo_frame_def hash_frame_def dubbo_body_standard [OF assms(2)])
  have "pct_ok w" if "37 \<notin> set w" for w using pct_ok_plain [OF that, of "[]"] by simp
  then have vals: "values_ok (standard_form v)"
    using standard_fields [of v] standard_fields(2) [of v, unfolded One_nat_def] standard_decoded assms(2)
    by (auto simp: values_ok_def less_Suc_eq numeral_eq_Suc)
  have n15: "length (standard_form v) \<le> 15" by (simp add: standard_form_def)
  note g = generate_res_in_place_frame [OF assms(1) vals n15 assms(3), of t res req_id, unfolded f]
  note h = hard_code_frame [OF standard_parameter [OF assms(1)], of res req_id]
  note p = fast_req_package_fields [OF standard_parameter [OF assms(1)] assms(4)]
  have "14 \<le> n" using p(1) standard_parameter(2) [OF assms(1)] by simp
  note d = dubbo_package_frame [OF p(2,3) this, of res]
  show ?thesis unfolding g h d by auto
qed

theorem shortcuts_agree_witness:
  "\<exists>m pkg. generate_dubbo_package (replicate 4096 0) pkg 16 =
    generate_res_in_place_hard_code (replicate 4096 0) m 0 138 9"
proof -
  let ?kvs = "standard_form [104, 105]" and ?len = "int (length (form_body (standard_form [104, 105])))"
  let ?m = "form_body ?kvs @ replicate 16 0"
  have l: "length (form_body ?kvs) = 138" by (simp add: standard_form_body length_standard_prefix)
  have f: "form_at ?m 0 138 ?kvs"
    using form_at_start [OF standard_form_ok, of "[104, 105]" "replicate 16 0"] l by simp
  have "generate_fast_req_package_in_place (replicate 64 0) ?m 0 138 9 \<noteq> None"
    using standard_parameter [OF f]
    by (simp add: generate_fast_req_package_in_place_def generate_fast_req_package_header_def
        memcpy_def store_def int_to_four_char_store long_to_8bytes_store load_def)
  then obtain n pkg where g: "generate_fast_req_package_in_place (replicate 64 0) ?m 0 138 9 = Some (n, pkg)"
    by auto
  have "n = 16" using fast_req_package_fields(1) [OF standard_parameter [OF f] g] by simp
  moreover have "37 \<notin> set [104, 105 :: byte]" "length (replicate 32 (0 :: int)) = 32" by simp_all
  ultimately show ?thesis
    using shortcuts_agree [OF f _ _ g, of "replicate 32 0" SSE42 "replicate 4096 0"] by auto
qed

end
