(* ===== verification/Provider_Frames.thy ===== *)
theory Provider_Frames
  imports Agent_Frame Tokenizer_Fast Int10_To_Str
begin

text \<open>
  The two readers of the provider agent (\<open>provider_agent.c\<close>). \<open>p_request_loop\<close>
  is the loop of \<open>p_read_connection_data_http_req\<close>: it takes the requests of the consumer
  agent out of \<open>raw_buf1\<close>, makes a Dubbo request of each and writes it to the provider.
  \<open>p_response_loop\<close> is the loop of \<open>p_on_read_results\<close>: it takes the Dubbo
  responses out of \<open>raw_buf2\<close>, and writes an HTTP response for each that succeeded to the
  consumer agent. A loop returns the buffer, the number of bytes it holds and the buffers handed to
  \<open>uv_write\<close> so far. Sizes are \<open>size_t\<close>s, lengths \<open>int\<close>s; leaving the
  range of \<open>int\<close> is undefined. What fresh memory holds is an argument.

  Both are framed readers for the frames a well-formed peer sends, so whatever way the bytes arrive
  each request is forwarded exactly once, in order, with its identifier.
\<close>

definition P_DEFAULT_PACKAGE_SIZE :: nat where "P_DEFAULT_PACKAGE_SIZE = 4096"

section \<open>The code\<close>

partial_function (option) p_request_loop ::
  "target \<Rightarrow> int list \<Rightarrow> byte list \<Rightarrow> byte list \<Rightarrow> int \<Rightarrow> byte list list \<Rightarrow>
   (byte list \<times> int \<times> byte list list) option" where
  "p_request_loop t off fresh raw_buf1 raw_buf1_size out =
     (if raw_buf1_size < 12 then Some (raw_buf1, raw_buf1_size, out)
      else do {
        n \<leftarrow> four_char_to_int raw_buf1 0;
        let package_length = sint n;
        guard (int_ok (12 + package_length));
        let last_length = 12 + package_length;
        if raw_buf1_size < to_size last_length then Some (raw_buf1, raw_buf1_size, out)
        else do {
          req_id \<leftarrow> bytes8_to_long raw_buf1 4;
          let dubbo_package = fresh;
          (dubbo_package_size, dubbo_package, raw_buf1) \<leftarrow>
            generate_res_in_place t off dubbo_package raw_buf1 12 (to_short package_length) req_id;
          local_buf \<leftarrow> load dubbo_package 0 dubbo_package_size;
          let out = out @ [local_buf];
          let raw_buf1_size = to_size (raw_buf1_size - to_size last_length);
          raw_buf1 \<leftarrow> memmove raw_buf1 0 last_length raw_buf1_size;
          p_request_loop t off fresh raw_buf1 raw_buf1_size out } })"

definition crlf :: "byte list" where "crlf = [13, 10]"

definition response_template :: "byte list" where
  "response_template = bytes ''HTTP/1.1 200 OK'' @ crlf @ bytes ''Content-Length:   '' @ crlf @ crlf @ [0]"

definition response_template_len :: int where "response_template_len = 39"

text \<open>The response to one successful Dubbo response, in a fresh block of 4096 bytes.\<close>

definition p_make_response :: "byte list \<Rightarrow> byte list \<Rightarrow> int \<Rightarrow> byte list option" where
  "p_make_response fresh raw_buf2 len = do {
     let response_all = fresh;
     let response_body = 12;
     let hash_length = len - 3;
     let hash_res = 18;
     let res_current_length = 0;
     response_all \<leftarrow> memcpy response_all response_body response_template 0 response_template_len;
     let res_current_length = res_current_length + response_template_len;
     response_all \<leftarrow> int_to_string response_all (response_body + 33) hash_length;
     response_all \<leftarrow>
       memcpy response_all (response_body + res_current_length) raw_buf2 hash_res hash_length;
     let res_current_length = res_current_length + hash_length;
     response_all \<leftarrow> int_to_four_char (word_of_int res_current_length) response_all 0;
     response_all \<leftarrow> memcpy response_all 4 raw_buf2 4 8;
     load response_all 0 (res_current_length + 12) }"

partial_function (option) p_response_loop ::
  "byte list \<Rightarrow> byte list \<Rightarrow> int \<Rightarrow> byte list list \<Rightarrow> (byte list \<times> int \<times> byte list list) option" where
  "p_response_loop fresh raw_buf2 raw_buf2_size out =
     (if raw_buf2_size < 16 then Some (raw_buf2, raw_buf2_size, out)
      else do {
        n \<leftarrow> four_char_to_int raw_buf2 12;
        let len = sint n;
        guard (int_ok (16 + len));
        let last_length = 16 + len;
        if raw_buf2_size < to_size last_length then Some (raw_buf2, raw_buf2_size, out)
        else do {
          status \<leftarrow> rd raw_buf2 3;
          out \<leftarrow> (if status = 20 then map_option (\<lambda>r. out @ [r]) (p_make_response fresh raw_buf2 len)
                 else Some out);
          let raw_buf2_size = to_size (raw_buf2_size - to_size last_length);
          raw_buf2 \<leftarrow> memmove raw_buf2 0 last_length raw_buf2_size;
          p_response_loop fresh raw_buf2 raw_buf2_size out } })"

section \<open>Requests\<close>

text \<open>The frame the consumer agent sends for a form.\<close>

definition enc_request :: "i64 \<times> kv list \<Rightarrow> byte list" where
  "enc_request q = agent_frame (fst q) (form_body (snd q))"

text \<open>A request the agent can forward: the splitter needs 16 bytes of the buffer behind the body,
  and the Dubbo request has to fit its block.\<close>

definition request_ok :: "i64 \<times> kv list \<Rightarrow> bool" where
  "request_ok q \<longleftrightarrow> form_ok (snd q) \<and> values_ok (snd q) \<and> length (snd q) \<le> 15 \<and>
     length (enc_request q) + 16 \<le> P_DEFAULT_PACKAGE_SIZE \<and>
     length (dubbo_frame (fst q) (snd q)) \<le> 4096"

lemma form_in_buffer:
  assumes "take (12 + length (form_body kvs)) buf = agent_frame req_id (form_body kvs)"
    and "form_ok kvs" and "12 + length (form_body kvs) + 16 \<le> length buf" and "length buf \<le> 4096"
  shows "form_at buf 12 (int (length (form_body kvs))) kvs"
proof -
  have "drop 12 (take (12 + length (form_body kvs)) buf) = form_body kvs"
    by (simp add: assms(1) agent_frame_def)
  then show ?thesis using assms(2-4) by (simp add: form_at_def body_from_def drop_take)
qed

text \<open>One turn of the loop, on an incomplete and on a complete request.\<close>

lemma p_request_loop_waits:
  assumes q: "request_ok q" and buf: "length buf = P_DEFAULT_PACKAGE_SIZE" and n: "n < length (enc_request q)"
    and t: "take n buf = take n (enc_request q)"
  shows "p_request_loop t off fresh buf (int n) out = Some (buf, int n, out)"
proof (cases "n < 12")
  case True
  then show ?thesis by (subst p_request_loop.simps) simp
next
  case False
  let ?body = "form_body (snd q)"
  have l: "12 + length ?body + 16 \<le> 4096" and nb: "n \<le> length buf"
    using q n buf by (simp_all add: request_ok_def enc_request_def P_DEFAULT_PACKAGE_SIZE_def)
  obtain w where w: "four_char_to_int buf 0 = Some w" "sint w = int (length ?body)"
    using agent_frame_length [of n buf "fst q" ?body] t False nb l by (auto simp: enc_request_def)
  have "int n < 12 + int (length ?body)" using n by (simp add: enc_request_def)
  then show ?thesis using False w l
    by (subst p_request_loop.simps) (simp add: guard_bind int_ok_def Let_def)
qed

lemma p_request_loop_turn:
  assumes q: "request_ok q" and buf: "length buf = P_DEFAULT_PACKAGE_SIZE"
    and n: "length (enc_request q) \<le> n" "n \<le> P_DEFAULT_PACKAGE_SIZE"
    and f: "take (length (enc_request q)) buf = enc_request q"
    and fresh: "length off = 32" "length fresh = 4096"
  shows "\<exists>buf'. length buf' = P_DEFAULT_PACKAGE_SIZE \<and>
    take (n - length (enc_request q)) buf' =
      drop (length (enc_request q)) (take n (split_block t buf 12 (int (length (form_body (snd q)))))) \<and>
    p_request_loop t off fresh buf (int n) out =
      p_request_loop t off fresh buf' (int (n - length (enc_request q)))
        (out @ [dubbo_frame (fst q) (snd q)])"
proof -
  obtain req_id kvs where qq: "q = (req_id, kvs)" by (cases q)
  let ?body = "form_body kvs" and ?l = "12 + length (form_body kvs)" and ?F = "dubbo_frame req_id kvs"
  let ?m = "split_block t buf 12 (int (length ?body))"
  have ok: "form_ok kvs" "values_ok kvs" "length kvs \<le> 15" "?l + 16 \<le> length buf" "length ?F \<le> length fresh"
    and l4: "length buf = 4096"
    using q buf n fresh by (simp_all add: request_ok_def enc_request_def P_DEFAULT_PACKAGE_SIZE_def qq)
  have lm: "length ?m = length buf" using ok(4) by (cases t) simp_all
  have nb: "n \<le> length ?m" using lm buf n by simp
  have el: "length (enc_request q) = ?l" by (simp add: enc_request_def qq)
  have tf: "take ?l buf = agent_frame req_id ?body" using f el by (simp add: enc_request_def qq)
  have ln: "?l \<le> n" using n(1) el by simp
  have th: "take ?l buf = take ?l (agent_frame req_id ?body)" using tf by simp
  have h: "four_char_to_int buf 0 = Some (word_of_int (int (length ?body)))" "bytes8_to_long buf 4 = Some req_id"
    using agent_header [OF th] ok(4) by simp_all
  have sl: "sint (word_of_int (int (length ?body)) :: i32) = int (length ?body)" using ok(4) l4 by simp
  have fa: "form_at buf 12 (int (length ?body)) kvs"
    using form_in_buffer [OF tf ok(1,4)] l4 by simp
  have g: "generate_res_in_place t off fresh buf 12 (int (length ?body)) req_id =
      Some (int (length ?F), ?F @ drop (length ?F) fresh, ?m)"
    using generate_res_in_place_frame [OF fa ok(2,3) fresh(1), of t fresh req_id] ok(5) by simp
  have ld: "load (?F @ drop (length ?F) fresh) 0 (int (length ?F)) = Some ?F"
    using ok(5) by (simp add: load_def)
  obtain buf' where mv: "memmove ?m 0 (int ?l) (int (n - ?l)) = Some buf'" "length buf' = length ?m"
      "take (n - ?l) buf' = drop ?l (take n ?m)"
    using memmove_front [OF nb ln] by blast
  have szs: "to_short (int (length ?body)) = int (length ?body)" "to_size (int ?l) = int ?l"
    "to_size (int n - int ?l) = int (n - ?l)" "12 + int (length ?body) = int ?l"
    "\<not> int n < 12" "\<not> int n < int ?l" "int_ok (int ?l)"
    using ok(4) l4 lm ln nb by (simp_all add: int_ok_def of_nat_diff)
  have "p_request_loop t off fresh buf (int n) out =
      p_request_loop t off fresh buf' (int (n - ?l)) (out @ [?F])"
    by (subst p_request_loop.simps)
       (simp only: szs h sl Let_def Option.bind.bind_lunit guard_bind g ld mv(1) prod.case if_True if_False)
  then show ?thesis using mv(2,3) lm buf el by (auto simp: qq)
qed

lemma p_request_loop_takes:
  assumes "request_ok q" and "length buf = P_DEFAULT_PACKAGE_SIZE"
    and "length (enc_request q) \<le> n" "n \<le> P_DEFAULT_PACKAGE_SIZE"
    and "take (length (enc_request q)) buf = enc_request q"
    and "length off = 32" "length fresh = 4096" and "t \<noteq> BMI"
  shows "\<exists>buf'. length buf' = P_DEFAULT_PACKAGE_SIZE \<and>
    take (n - length (enc_request q)) buf' = drop (length (enc_request q)) (take n buf) \<and>
    p_request_loop t off fresh buf (int n) out =
      p_request_loop t off fresh buf' (int (n - length (enc_request q)))
        (out @ [dubbo_frame (fst q) (snd q)])"
  using p_request_loop_turn [OF assms(1-7), of t out] assms(8) by (cases t) simp_all

lemma request_reader:
  assumes "t \<noteq> BMI" and "length off = 32" and "length fresh = 4096"
  shows "framed_reader P_DEFAULT_PACKAGE_SIZE (p_request_loop t off fresh) enc_request request_ok
    (\<lambda>_ _. True) (\<lambda>q out. out @ [dubbo_frame (fst q) (snd q)])"
proof
  show "0 < length (enc_request q) \<and> length (enc_request q) \<le> P_DEFAULT_PACKAGE_SIZE"
    if "request_ok q" for q
    using that by (simp add: request_ok_def enc_request_def)
qed (use assms p_request_loop_waits p_request_loop_takes in \<open>simp_all\<close>)

interpretation requests: framed_reader P_DEFAULT_PACKAGE_SIZE
  "p_request_loop SSE42 (replicate 32 0) (replicate 4096 0)"
  enc_request request_ok "\<lambda>_ _. True" "\<lambda>q out. out @ [dubbo_frame (fst q) (snd q)]"
  by (rule request_reader) simp_all

section \<open>Responses\<close>

text \<open>
  A Dubbo response: two bytes of magic and one of flags, status, identifier, length, body. The body
  of a successful one is two bytes of type and line end, the hash, and a line end.
\<close>

datatype dubbo_response =
  Dubbo_Response (resp_magic: "byte list") (resp_status: byte) (resp_id: i64) (resp_body: "byte list")

definition enc_dubbo :: "dubbo_response \<Rightarrow> byte list" where
  "enc_dubbo r = resp_magic r @ [resp_status r] @ le_bytes 8 (resp_id r) @
     be32_bytes (word_of_int (int (length (resp_body r)))) @ resp_body r"

definition resp_hash :: "dubbo_response \<Rightarrow> byte list" where
  "resp_hash r = take (length (resp_body r) - 3) (drop 2 (resp_body r))"

definition dubbo_response_ok :: "dubbo_response \<Rightarrow> bool" where
  "dubbo_response_ok r \<longleftrightarrow> length (resp_magic r) = 3 \<and>
     length (enc_dubbo r) \<le> P_DEFAULT_PACKAGE_SIZE \<and>
     (resp_status r = 20 \<longrightarrow> 3 \<le> length (resp_body r) \<and> length (resp_body r) < 103)"

text \<open>The HTTP response: the number in the two cells of the template, the hash as the body.\<close>

definition http_head :: "byte list" where
  "http_head = bytes ''HTTP/1.1 200 OK'' @ crlf @ bytes ''Content-Length: ''"

definition http_response :: "byte list \<Rightarrow> byte list" where
  "http_response h = http_head @ take 2 (dec_int (int (length h)) @ [32]) @ crlf @ crlf @ h"

definition forward_response :: "dubbo_response \<Rightarrow> byte list list \<Rightarrow> byte list list" where
  "forward_response r out =
     (if resp_status r = 20 then out @ [agent_frame (resp_id r) (http_response (resp_hash r))] else out)"

lemma length_dec_int_two: "n < 100 \<Longrightarrow> length (dec_int (int n)) = 1 \<or> length (dec_int (int n)) = 2"
  using length_dec_nat [of 2 n] by (cases "length (dec_nat n)") (auto simp: dec_int_def)

lemma length_http_head: "length http_head = 33"
  by (simp add: http_head_def crlf_def)

lemma response_template_split: "response_template = http_head @ [32, 32] @ crlf @ crlf @ [0]"
  by (simp add: response_template_def http_head_def bytes_def)

lemma take_two_digits:
  assumes "length d = 1 \<or> length d = 2"
  shows "take 2 (d @ [32]) = d @ drop (length d) [32, 32 :: byte]"
  using assms by auto

lemma dubbo_fields:
  assumes "take (length (enc_dubbo r)) buf = enc_dubbo r" and "length (resp_magic r) = 3"
    and "length (enc_dubbo r) \<le> length buf"
  shows "rd buf 3 = Some (resp_status r)" and "load buf 4 8 = Some (le_bytes 8 (resp_id r))"
    and "3 \<le> length (resp_body r) \<Longrightarrow> load buf 18 (int (length (resp_body r)) - 3) = Some (resp_hash r)"
proof -
  let ?l = "be32_bytes (word_of_int (int (length (resp_body r))))"
  have t: "take (length (enc_dubbo r)) buf = (resp_magic r) @ [resp_status r] @ le_bytes 8 (resp_id r) @ ?l @ resp_body r"
    using assms(1) by (simp add: enc_dubbo_def)
  show "rd buf 3 = Some (resp_status r)"
    using load_frame [of _ buf "resp_magic r" "[resp_status r]"] t assms(2,3)
    by (simp add: rd_load)
  show "load buf 4 8 = Some (le_bytes 8 (resp_id r))"
    using load_frame [of _ buf "resp_magic r @ [resp_status r]" "le_bytes 8 (resp_id r)"] t assms(2,3) by simp
  show "load buf 18 (int (length (resp_body r)) - 3) = Some (resp_hash r)" if b: "3 \<le> length (resp_body r)"
  proof -
    let ?b = "resp_body r" and ?n = "length (resp_body r) - 3"
    have "?b = take 2 ?b @ resp_hash r @ drop ?n (drop 2 ?b)"
      unfolding resp_hash_def by (simp only: append_take_drop_id)
    then have "take (length (enc_dubbo r)) buf = (resp_magic r @ [resp_status r] @ le_bytes 8 (resp_id r) @
        ?l @ take 2 ?b) @ resp_hash r @ drop ?n (drop 2 ?b)"
      using t by (metis append.assoc)
    from load_frame [OF this assms(3)]
    have "load buf (int (length (resp_magic r @ [resp_status r] @ le_bytes 8 (resp_id r) @ ?l @ take 2 ?b)))
        (int (length (resp_hash r))) = Some (resp_hash r)" .
    moreover have "length (resp_hash r) = ?n" using b by (simp add: resp_hash_def)
    moreover have "length (resp_magic r @ [resp_status r] @ le_bytes 8 (resp_id r) @ ?l @ take 2 ?b) = 18"
      using b assms(2) by simp
    ultimately show ?thesis using b by (simp only: of_nat_diff of_nat_numeral)
  qed
qed

lemma p_make_response_frame:
  assumes r: "dubbo_response_ok r" "resp_status r = 20" and fresh: "length fresh = 4096"
    and f: "take (length (enc_dubbo r)) buf = enc_dubbo r" "length (enc_dubbo r) \<le> length buf"
  shows "p_make_response fresh buf (int (length (resp_body r))) =
    Some (agent_frame (resp_id r) (http_response (resp_hash r)))"
proof -
  let ?h = "resp_hash r" and ?n = "length (resp_hash r)"
  have b: "3 \<le> length (resp_body r)" "length (resp_body r) < 103" and m: "length (resp_magic r) = 3"
    using r by (simp_all add: dubbo_response_ok_def)
  have n: "int (length (resp_body r)) - 3 = int ?n" "?n < 100" using b by (simp_all add: resp_hash_def)
  note fields = dubbo_fields(2) [OF f(1) m f(2)] dubbo_fields(3) [OF f(1) m f(2) b(1), unfolded n]
  let ?d = "dec_int (int ?n)" and ?t2 = "crlf @ crlf"
  have ld: "length ?d = 1 \<or> length ?d = 2" by (rule length_dec_int_two [OF n(2)])
  obtain a c e h0 rest where fr: "fresh = a @ c @ e @ h0 @ rest"
    and l: "length a = 4" "length c = 8" "length e = 39" "length h0 = ?n"
  proof -
    obtain a x where 1: "fresh = a @ x" "length a = 4" using split_at [of 4 fresh] fresh by auto
    obtain c y where 2: "x = c @ y" "length c = 8" using split_at [of 8 x] 1 fresh by auto
    obtain e z where 3: "y = e @ z" "length e = 39" using split_at [of 39 y] 1 2 fresh by auto
    obtain h0 rest where 4: "z = h0 @ rest" "length h0 = ?n"
      using split_at [of ?n z] 1 2 3 fresh n(2) by auto
    show thesis by (rule that [of a c e h0 rest]) (use 1 2 3 4 in simp_all)
  qed
  let ?T = "http_head @ [32, 32] @ ?t2" and ?T' = "http_head @ take 2 (?d @ [32]) @ ?t2"
  have s1: "memcpy fresh 12 response_template 0 39 = Some (a @ c @ ?T @ h0 @ rest)"
  proof -
    have "load response_template 0 39 = Some ?T"
      by (simp add: load_def response_template_split length_http_head crlf_def)
    then show ?thesis
      using store_append [of ?T e "a @ c" "h0 @ rest"] l
      by (simp add: memcpy_def fr length_http_head crlf_def)
  qed
  have s2: "int_to_string (a @ c @ ?T @ h0 @ rest) 45 (int ?n) = Some (a @ c @ ?T' @ h0 @ rest)"
  proof -
    have "?T = http_head @ take (length ?d) [32, 32] @ drop (length ?d) [32, 32] @ ?t2" by simp
    then show ?thesis
      using int_to_string_two_digits [of "int ?n" 45 "a @ c @ ?T @ h0 @ rest"] n(2) ld
        store_append [of ?d "take (length ?d) [32, 32]" "a @ c @ http_head"
          "drop (length ?d) [32, 32] @ ?t2 @ h0 @ rest"] l
      by (auto simp: take_two_digits length_http_head)
  qed
  have lT: "length ?T' = 39" using ld by (auto simp: take_two_digits length_http_head crlf_def)
  have s3: "memcpy (a @ c @ T @ h0 @ rest) 51 buf 18 (int ?n) = Some (a @ c @ T @ ?h @ rest)"
    if "length T = 39" for T
    using store_append [of ?h h0 "a @ c @ T" rest] l that by (simp add: memcpy_def fields(2))
  have s4: "int_to_four_char x (a @ T) 0 = Some (be32_bytes x @ T)" for x T
    using store_append [of "be32_bytes x" a "[]"] l by (simp add: int_to_four_char_store)
  have s5: "memcpy (be32_bytes x @ c @ T) 4 buf 4 8 = Some (be32_bytes x @ le_bytes 8 (resp_id r) @ T)" for x T
    using store_append [of "le_bytes 8 (resp_id r)" c "be32_bytes x"] l
    by (simp add: memcpy_def fields(1))
  have s6: "load (be32_bytes x @ le_bytes 8 (resp_id r) @ T @ ?h @ rest) 0 (39 + int ?n + 12) =
      Some (be32_bytes x @ le_bytes 8 (resp_id r) @ T @ ?h)" if "length T = 39" for x T
    using that by (simp add: load_def nat_add_distrib)
  have hr: "http_response ?h = ?T' @ ?h" by (simp add: http_response_def)
  have "length (http_response ?h) = 39 + ?n" by (simp only: hr length_append [of ?T' ?h] lT)
  then have "int (length (http_response ?h)) = 39 + int ?n" by simp
  then have "agent_frame (resp_id r) (http_response ?h) =
      be32_bytes (word_of_int (39 + int ?n)) @ le_bytes 8 (resp_id r) @ ?T' @ ?h"
    unfolding agent_frame_def by (simp only: hr append.assoc)
  then show ?thesis
    unfolding p_make_response_def Let_def n(1) response_template_len_def add_0_left
    by (simp only: s1 s2 s3 [OF lT] s4 s5 s6 [OF lT] Option.bind.bind_lunit numeral_plus_numeral arith_simps)
qed

lemma dubbo_length:
  assumes "take n buf = take n (enc_dubbo r)" and "16 \<le> n" and "n \<le> length buf"
    and "length (resp_magic r) = 3" and "length (resp_body r) < 2 ^ 31 - 16"
  shows "\<exists>w. four_char_to_int buf 12 = Some w \<and> sint w = int (length (resp_body r))"
proof -
  let ?l = "be32_bytes (word_of_int (int (length (resp_body r))))"
    and ?pre = "resp_magic r @ [resp_status r] @ le_bytes 8 (resp_id r)"
  have "take n buf = ?pre @ ?l @ take (n - 16) (resp_body r)"
    using assms(1,2,4) by (simp add: enc_dubbo_def take_Cons')
  from load_frame [OF this assms(3)] have "load buf 12 4 = Some ?l" using assms(4) by simp
  from be32_header [OF this] show ?thesis using assms(5) by simp
qed

lemma p_response_loop_waits:
  assumes r: "dubbo_response_ok r" and buf: "length buf = P_DEFAULT_PACKAGE_SIZE" and n: "n < length (enc_dubbo r)"
    and t: "take n buf = take n (enc_dubbo r)"
  shows "p_response_loop fresh buf (int n) out = Some (buf, int n, out)"
proof (cases "n < 16")
  case True
  then show ?thesis by (subst p_response_loop.simps) simp
next
  case False
  let ?body = "resp_body r"
  have l: "length (enc_dubbo r) = 16 + length ?body" "length (enc_dubbo r) \<le> 4096" "length (resp_magic r) = 3"
    using r by (simp_all add: dubbo_response_ok_def enc_dubbo_def P_DEFAULT_PACKAGE_SIZE_def)
  obtain w where w: "four_char_to_int buf 12 = Some w" "sint w = int (length ?body)"
    using dubbo_length [of n buf r] t False n l buf by (auto simp: P_DEFAULT_PACKAGE_SIZE_def)
  have "int n < 16 + int (length ?body)" using n l by simp
  then show ?thesis using False w l
    by (subst p_response_loop.simps) (simp add: guard_bind int_ok_def Let_def)
qed

lemma p_response_loop_takes:
  assumes r: "dubbo_response_ok r" and buf: "length buf = P_DEFAULT_PACKAGE_SIZE"
    and n: "length (enc_dubbo r) \<le> n" "n \<le> P_DEFAULT_PACKAGE_SIZE"
    and f: "take (length (enc_dubbo r)) buf = enc_dubbo r" and fresh: "length fresh = 4096"
  shows "\<exists>buf'. length buf' = P_DEFAULT_PACKAGE_SIZE \<and>
    take (n - length (enc_dubbo r)) buf' = drop (length (enc_dubbo r)) (take n buf) \<and>
    p_response_loop fresh buf (int n) out =
      p_response_loop fresh buf' (int (n - length (enc_dubbo r))) (forward_response r out)"
proof -
  let ?body = "resp_body r" and ?l = "length (enc_dubbo r)"
  have l: "?l = 16 + length ?body" "?l \<le> 4096" and m: "length (resp_magic r) = 3"
    and lb: "?l \<le> length buf" and nb: "n \<le> length buf"
    using r buf n by (simp_all add: dubbo_response_ok_def enc_dubbo_def P_DEFAULT_PACKAGE_SIZE_def)
  obtain w where w: "four_char_to_int buf 12 = Some w" "sint w = int (length ?body)"
    using dubbo_length [of ?l buf r] f l lb m by auto
  obtain buf' where mv: "memmove buf 0 (int ?l) (int (n - ?l)) = Some buf'" "length buf' = length buf"
      "take (n - ?l) buf' = drop ?l (take n buf)"
    using memmove_front [OF nb n(1)] by blast
  have st: "rd buf 3 = Some (resp_status r)" by (rule dubbo_fields(1) [OF f m lb])
  have out: "(if resp_status r = 20 then map_option (\<lambda>r. out @ [r]) (p_make_response fresh buf (int (length ?body)))
      else Some out) = Some (forward_response r out)"
    using p_make_response_frame [OF r _ fresh f lb] by (simp add: forward_response_def)
  have szs: "to_size (int ?l) = int ?l" "to_size (int n - int ?l) = int (n - ?l)"
    "16 + int (length ?body) = int ?l" "\<not> int n < 16" "\<not> int n < int ?l" "int_ok (int ?l)"
    using l n nb buf by (simp_all add: int_ok_def of_nat_diff P_DEFAULT_PACKAGE_SIZE_def)
  have "p_response_loop fresh buf (int n) out =
      p_response_loop fresh buf' (int (n - ?l)) (forward_response r out)"
    by (subst p_response_loop.simps)
       (simp only: szs w st out Let_def Option.bind.bind_lunit guard_bind mv(1) prod.case if_True if_False)
  then show ?thesis using mv(2,3) buf by auto
qed

lemma response_reader:
  assumes "length fresh = 4096"
  shows "framed_reader P_DEFAULT_PACKAGE_SIZE (p_response_loop fresh) enc_dubbo dubbo_response_ok
    (\<lambda>_ _. True) forward_response"
proof
  show "0 < length (enc_dubbo r) \<and> length (enc_dubbo r) \<le> P_DEFAULT_PACKAGE_SIZE"
    if "dubbo_response_ok r" for r
    using that by (simp add: dubbo_response_ok_def enc_dubbo_def)
qed (use assms p_response_loop_waits p_response_loop_takes in \<open>simp_all\<close>)

interpretation responses: framed_reader P_DEFAULT_PACKAGE_SIZE "p_response_loop (replicate 4096 0)"
  enc_dubbo dubbo_response_ok "\<lambda>_ _. True" forward_response
  by (rule response_reader) simp

section \<open>What the two readers do\<close>

lemma fold_snoc: "fold (\<lambda>q out. out @ [f q]) qs out = out @ map f qs"
  by (induction qs arbitrary: out) simp_all

lemma fold_forward: "fold forward_response rs out =
    out @ map (\<lambda>r. agent_frame (resp_id r) (http_response (resp_hash r))) (filter (\<lambda>r. resp_status r = 20) rs)"
  by (induction rs arbitrary: out) (simp_all add: forward_response_def)

text \<open>C3. The provider agent reads requests (\<open>p_read_connection_data_http_req\<close>, without
  BMI): however the stream of the consumer agent is cut into reads, no read leaves the buffer, the
  Dubbo requests written so far are those of the first complete frames of the stream, each once, in
  order and with its own identifier, what is held is an incomplete frame, and once everything is
  read all requests were forwarded and nothing is held.\<close>

theorem requests_forwarded:
  assumes "\<forall>q \<in> set qs. request_ok q" and "t \<noteq> BMI" and "length off = 32" and "length fresh = 4096"
    and "length buf0 = P_DEFAULT_PACKAGE_SIZE"
  shows "\<exists>j unread buf held.
    deliver_all (p_request_loop t off fresh) ks (concat (map enc_request qs), buf0, 0, []) =
      Some (unread, buf, held, map (\<lambda>q. dubbo_frame (fst q) (snd q)) (take j qs)) \<and>
    take (nat held) buf @ unread = concat (map enc_request (drop j qs)) \<and>
    (j < length qs \<longrightarrow> nat held < length (enc_request (qs ! j))) \<and>
    ((\<forall>k \<in> set ks. 0 < k) \<and> length (concat (map enc_request qs)) \<le> length ks \<longrightarrow>
      map (\<lambda>q. dubbo_frame (fst q) (snd q)) (take j qs) = map (\<lambda>q. dubbo_frame (fst q) (snd q)) qs \<and>
      unread = [] \<and> held = 0)"
proof -
  let ?h = "\<lambda>q out. out @ [dubbo_frame (fst q) (snd q)]"
  obtain j unread buf held s where r: "j \<le> length qs" "s = fold ?h (take j qs) []"
    "deliver_all (p_request_loop t off fresh) ks (concat (map enc_request qs), buf0, 0, []) = Some (unread, buf, held, s)"
    "take (nat held) buf @ unread = concat (map enc_request (drop j qs))"
    "j < length qs \<longrightarrow> nat held < length (enc_request (qs ! j))"
    "(\<forall>k \<in> set ks. 0 < k) \<and> length (concat (map enc_request qs)) \<le> length ks \<longrightarrow>
      s = fold ?h qs [] \<and> unread = [] \<and> held = 0"
    using framed_reader.stream_handled [OF request_reader [OF assms(2-4)] assms(1) TrueI assms(5),
      where ks = ks and ?s0.0 = "[]"] by blast
  show ?thesis
    by (rule exI [of _ j], rule exI [of _ unread], rule exI [of _ buf], rule exI [of _ held])
       (use r in \<open>simp only: fold_snoc append_Nil simp_thms\<close>)
qed

lemma request_example: "request_ok (7, form_example)"
proof -
  have "length (dubbo_frame 7 form_example) = 42" using dubbo_frame_example by (simp add: length_dubbo_frame)
  then show ?thesis
    by (simp add: request_ok_def form_example_ok form_example_values enc_request_def P_DEFAULT_PACKAGE_SIZE_def)
       (simp add: form_example_def)
qed

theorem requests_forwarded_witness:
  "\<exists>buf. deliver_all (p_request_loop Plain (replicate 32 0) (replicate 4096 0)) (replicate 39 1)
      (enc_request (7, form_example), replicate 4096 0, 0, []) =
    Some ([], buf, 0, [dubbo_frame 7 form_example])"
proof -
  have l: "length (enc_request (7, form_example)) = 39"
    by (simp add: enc_request_def) (simp add: form_example_def)
  show ?thesis
    using requests_forwarded [of "[(7, form_example)]" Plain "replicate 32 0" "replicate 4096 0"
        "replicate 4096 0" "replicate 39 1"] request_example l
    by (auto simp: P_DEFAULT_PACKAGE_SIZE_def)
qed

text \<open>C4. The provider agent reads Dubbo responses (\<open>p_on_read_results\<close>): however the
  stream of the provider is cut into reads, each complete response of status 20 with a hash of fewer
  than 100 bytes has been answered by exactly one HTTP response, in order, with the identifier of the
  Dubbo response, the hash as the body and its length as \<open>Content-Length\<close>; the others
  are dropped; once everything is read nothing is held.\<close>

theorem responses_forwarded:
  assumes "\<forall>r \<in> set rs. dubbo_response_ok r" and "length fresh = 4096"
    and "length buf0 = P_DEFAULT_PACKAGE_SIZE"
  shows "\<exists>j unread buf held.
    deliver_all (p_response_loop fresh) ks (concat (map enc_dubbo rs), buf0, 0, []) =
      Some (unread, buf, held, map (\<lambda>r. agent_frame (resp_id r) (http_response (resp_hash r)))
        (filter (\<lambda>r. resp_status r = 20) (take j rs))) \<and>
    take (nat held) buf @ unread = concat (map enc_dubbo (drop j rs)) \<and>
    (j < length rs \<longrightarrow> nat held < length (enc_dubbo (rs ! j))) \<and>
    ((\<forall>k \<in> set ks. 0 < k) \<and> length (concat (map enc_dubbo rs)) \<le> length ks \<longrightarrow>
      map (\<lambda>r. agent_frame (resp_id r) (http_response (resp_hash r))) (filter (\<lambda>r. resp_status r = 20) (take j rs)) =
      map (\<lambda>r. agent_frame (resp_id r) (http_response (resp_hash r))) (filter (\<lambda>r. resp_status r = 20) rs) \<and>
      unread = [] \<and> held = 0)"
proof -
  obtain j unread buf held s where r: "j \<le> length rs" "s = fold forward_response (take j rs) []"
    "deliver_all (p_response_loop fresh) ks (concat (map enc_dubbo rs), buf0, 0, []) = Some (unread, buf, held, s)"
    "take (nat held) buf @ unread = concat (map enc_dubbo (drop j rs))"
    "j < length rs \<longrightarrow> nat held < length (enc_dubbo (rs ! j))"
    "(\<forall>k \<in> set ks. 0 < k) \<and> length (concat (map enc_dubbo rs)) \<le> length ks \<longrightarrow>
      s = fold forward_response rs [] \<and> unread = [] \<and> held = 0"
    using framed_reader.stream_handled [OF response_reader [OF assms(2)] assms(1) TrueI assms(3),
      where ks = ks and ?s0.0 = "[]"] by blast
  show ?thesis
    by (rule exI [of _ j], rule exI [of _ unread], rule exI [of _ buf], rule exI [of _ held])
       (use r in \<open>simp only: fold_forward append_Nil simp_thms\<close>)
qed

definition response_example :: dubbo_response where
  "response_example = Dubbo_Response [0xda, 0xbb, 20] 20 9 ([49, 10] @ bytes ''42'' @ [10])"

theorem responses_forwarded_witness:
  "\<exists>buf. deliver_all (p_response_loop (replicate 4096 0)) (replicate 21 1)
      (enc_dubbo response_example, replicate 4096 0, 0, []) =
    Some ([], buf, 0, [agent_frame 9 (http_response (bytes ''42''))])"
proof -
  have ok: "dubbo_response_ok response_example" and l: "length (enc_dubbo response_example) = 21"
    by (simp_all add: dubbo_response_ok_def response_example_def enc_dubbo_def P_DEFAULT_PACKAGE_SIZE_def)
  have f: "resp_status response_example = 20" "resp_id response_example = 9" "resp_hash response_example = bytes ''42''"
    by (simp_all add: response_example_def resp_hash_def)
  show ?thesis
    using responses_forwarded [of "[response_example]" "replicate 4096 0" "replicate 4096 0" "replicate 21 1"] ok l f
    by (auto simp: P_DEFAULT_PACKAGE_SIZE_def)
qed

lemma le_bytes_zero: "le_bytes n 0 = replicate n 0"
  by (simp add: le_bytes_def map_replicate_const)

text \<open>The BMI variant of the splitter zeroes the 16 bytes behind the body, in the buffer itself.\<close>

text \<open>C39. Compiled for BMI, the loop of \<open>p_read_connection_data_http_req\<close> forwards a
  request and then, when a whole header of the next one is already in the buffer, goes on with a
  header of zeroes: length 0 and identifier 0 instead of those the consumer agent sent.\<close>

theorem bmi_spoils_next_request:
  assumes "request_ok q" and "length buf = P_DEFAULT_PACKAGE_SIZE"
    and "length (enc_request q) + 12 \<le> n" "n \<le> P_DEFAULT_PACKAGE_SIZE"
    and "take (length (enc_request q)) buf = enc_request q"
    and "length off = 32" "length fresh = 4096"
  shows "\<exists>buf'. p_request_loop BMI off fresh buf (int n) out =
      p_request_loop BMI off fresh buf' (int (n - length (enc_request q))) (out @ [dubbo_frame (fst q) (snd q)]) \<and>
    four_char_to_int buf' 0 = Some 0 \<and> bytes8_to_long buf' 4 = Some 0"
proof -
  let ?l = "length (enc_request q)" and ?b = "int (length (form_body (snd q)))"
  have l: "nat (12 + ?b) = ?l" by (simp add: enc_request_def)
  have "?l \<le> n" using assms(3) by simp
  from p_request_loop_turn [OF assms(1,2) this assms(4-7), of BMI out] obtain buf' where
    b: "length buf' = P_DEFAULT_PACKAGE_SIZE"
      "take (n - ?l) buf' = drop ?l (take n (take ?l buf @ replicate 16 0 @ drop (?l + 16) buf))"
      "p_request_loop BMI off fresh buf (int n) out =
        p_request_loop BMI off fresh buf' (int (n - ?l)) (out @ [dubbo_frame (fst q) (snd q)])"
    by (auto simp: l)
  have "take 12 buf' = take 12 (take (n - ?l) buf')" using assms(3) by simp
  also have "\<dots> = replicate 12 0" using b(2) assms(2-4) by (simp add: take_drop)
  also have "\<dots> = [] @ be32_bytes 0 @ replicate 8 0" by (simp add: be32_bytes_def eval_nat_numeral)
  finally have t: "take 12 buf' = [] @ be32_bytes 0 @ replicate 8 0" .
  have lb: "12 \<le> length buf'" by (simp add: b(1) P_DEFAULT_PACKAGE_SIZE_def)
  have "four_char_to_int buf' 0 = Some 0"
    using load_frame [OF t lb] by (intro be32_header) simp
  moreover have "bytes8_to_long buf' 4 = Some 0"
    using load_frame [of 12 buf' "be32_bytes 0" "replicate 8 0"] t lb by (intro le64_header) (simp add: le_bytes_zero)
  ultimately show ?thesis using b(3) by blast
qed

theorem bmi_spoils_next_request_witness:
  "let buf = enc_request (7, form_example) @ enc_request (8, form_example) @ replicate 4018 0 in
   \<exists>buf'. p_request_loop BMI (replicate 32 0) (replicate 4096 0) buf 78 [] =
      p_request_loop BMI (replicate 32 0) (replicate 4096 0) buf' 39 [dubbo_frame 7 form_example] \<and>
    four_char_to_int buf' 0 = Some 0 \<and> bytes8_to_long buf' 4 = Some 0"
proof -
  have l: "length (enc_request (i, form_example)) = 39" for i
    by (simp add: enc_request_def) (simp add: form_example_def)
  show ?thesis
    using bmi_spoils_next_request [OF request_example, of
        "enc_request (7, form_example) @ enc_request (8, form_example) @ replicate 4018 0" 78
        "replicate 32 0" "replicate 4096 0" "[]"] l [of 7] l [of 8]
    by (simp add: P_DEFAULT_PACKAGE_SIZE_def)
qed

end
