(* ===== verification/Provider_Relay.thy ===== *)
theory Provider_Relay
  imports Provider_Frames
begin

text \<open>
  The relays of the provider agent (\<open>provider_agent.c\<close>): each connection of a consumer
  agent (\<open>tcp_conn_1\<close>) has one to Dubbo (\<open>tcp_conn_2\<close>), a buffer for either
  direction, and is closed in two steps. The state has the relay while it is allocated, and what libuv
  keeps for it: the handles that are open, the streams being read, the connect callbacks still owed and
  the handles being closed, each with its callback. Closing a handle twice is undefined (libuv asserts
  that it is not done); after an error a stream is read no more; a write to a closed stream is refused.
  \<open>allocated\<close> are the blocks of the relay that are allocated: the structure, its two buffers, the
  handles and the connect request (not the blocks of the write requests). Freeing a block that is not
  allocated is undefined, and so is freeing a handle libuv still has, open or being closed, or a connect
  request whose callback is owed: a connect to Dubbo that fails is undefined for that reason.
  \<open>to_dubbo\<close> and \<open>to_consumer\<close> are the buffers written.

  The lemmas give the phases a relay goes through, and carry the results of the two readers over to a
  relay whose two streams arrive interleaved in any way.
\<close>

type_synonym handle = nat

record tcp_relay =
  tcp_conn_1 :: "handle option"
  tcp_conn_2 :: "handle option"
  dubbo_connection :: "nat option"
  raw_buf1 :: "byte list"
  raw_buf2 :: "byte list"
  raw_buf1_size :: int
  raw_buf2_size :: int
  max_buffer_size :: int

datatype relay_block = Handle_Block handle | Connect_Block nat | Relay_Block | Raw_Buf1 | Raw_Buf2

datatype relay_cb = Close_Connection1 | Close_Connection2 | No_Callback

record relay_state =
  relay :: "tcp_relay option"
  connects :: nat
  streams :: "handle list"
  handles :: "handle list"
  closings :: "(handle \<times> relay_cb) list"
  allocated :: "relay_block set"
  fresh_ptr :: nat
  to_dubbo :: "byte list list"
  to_consumer :: "byte list list"

definition no_relay :: relay_state where
  "no_relay = \<lparr>relay = None, connects = 0, streams = [], handles = [], closings = [], allocated = {},
     fresh_ptr = 0, to_dubbo = [], to_consumer = []\<rparr>"

section \<open>Construction, buffers and closing\<close>

definition init_tcp_relay_t :: "byte list \<Rightarrow> byte list \<Rightarrow> nat \<Rightarrow> tcp_relay option" where
  "init_tcp_relay_t fresh1 fresh2 n = do {
     guard (length fresh1 = n \<and> length fresh2 = n);
     Some \<lparr>tcp_conn_1 = None, tcp_conn_2 = None, dubbo_connection = None, raw_buf1 = fresh1, raw_buf2 = fresh2,
       raw_buf1_size = 0, raw_buf2_size = 0, max_buffer_size = int n\<rparr> }"

definition p_alloc_buffer1 :: "tcp_relay \<Rightarrow> int \<times> int" where
  "p_alloc_buffer1 r = (raw_buf1_size r, to_size (max_buffer_size r - raw_buf1_size r))"

definition p_alloc_buffer2 :: "tcp_relay \<Rightarrow> int \<times> int" where
  "p_alloc_buffer2 r = (raw_buf2_size r, to_size (max_buffer_size r - raw_buf2_size r))"

definition close_handle :: "handle \<Rightarrow> relay_cb \<Rightarrow> relay_state \<Rightarrow> relay_state option" where
  "close_handle h cb st = do {
     guard (h \<in> set (handles st));
     Some (st\<lparr>handles := removeAll h (handles st), streams := removeAll h (streams st),
       closings := closings st @ [(h, cb)]\<rparr>) }"

text \<open>
  \<open>malloc\<close> and \<open>free\<close> of the relay's blocks; \<open>free\<close> of the null pointer does
  nothing.
\<close>

definition relay_malloc :: "relay_block \<Rightarrow> relay_state \<Rightarrow> relay_state" where
  "relay_malloc b st = st\<lparr>allocated := insert b (allocated st)\<rparr>"

definition relay_free :: "relay_block \<Rightarrow> relay_state \<Rightarrow> relay_state option" where
  "relay_free b st = do {
     guard (b \<in> allocated st);
     Some (st\<lparr>allocated := allocated st - {b}\<rparr>) }"

definition free_conn :: "handle option \<Rightarrow> relay_state \<Rightarrow> relay_state option" where
  "free_conn h st = (case h of None \<Rightarrow> Some st
     | Some p \<Rightarrow> do {
         guard (p \<notin> set (handles st) \<and> p \<notin> fst ` set (closings st));
         relay_free (Handle_Block p) st })"

definition free_connect :: "nat option \<Rightarrow> relay_state \<Rightarrow> relay_state option" where
  "free_connect c st = (case c of None \<Rightarrow> Some st
     | Some q \<Rightarrow> do { guard (connects st = 0); relay_free (Connect_Block q) st })"

definition free_tcp_relay_t :: "relay_state \<Rightarrow> relay_state option" where
  "free_tcp_relay_t st = do {
     tcp_relay \<leftarrow> relay st;
     st \<leftarrow> free_conn (tcp_conn_1 tcp_relay) st;
     st \<leftarrow> free_conn (tcp_conn_2 tcp_relay) st;
     st \<leftarrow> free_connect (dubbo_connection tcp_relay) st;
     st \<leftarrow> relay_free Relay_Block st;
     Some (st\<lparr>relay := None\<rparr>) }"

definition p_close_tcp_relay_connection2 :: "relay_state \<Rightarrow> relay_state option" where
  "p_close_tcp_relay_connection2 st = free_tcp_relay_t st"

definition p_close_tcp_relay_connection1 :: "relay_state \<Rightarrow> relay_state option" where
  "p_close_tcp_relay_connection1 st = do {
     tcp_relay \<leftarrow> relay st;
     conn_2 \<leftarrow> tcp_conn_2 tcp_relay;
     close_handle conn_2 Close_Connection2 st }"

section \<open>Connecting\<close>

definition connect_to_dubbo_long_live :: "relay_state \<Rightarrow> relay_state option" where
  "connect_to_dubbo_long_live st = do {
     tcp_relay \<leftarrow> relay st;
     let dubbo_socket = fresh_ptr st;
     let st = st\<lparr>fresh_ptr := fresh_ptr st + 1\<rparr>;
     let st = relay_malloc (Handle_Block dubbo_socket) st;
     let st = st\<lparr>handles := dubbo_socket # handles st\<rparr>;
     st \<leftarrow> free_conn (tcp_conn_2 tcp_relay) st;
     let tcp_relay = tcp_relay\<lparr>tcp_conn_2 := Some dubbo_socket\<rparr>;
     let connection = fresh_ptr st;
     let st = st\<lparr>fresh_ptr := fresh_ptr st + 1\<rparr>;
     let st = relay_malloc (Connect_Block connection) st;
     st \<leftarrow> free_connect (dubbo_connection tcp_relay) st;
     let tcp_relay = tcp_relay\<lparr>dubbo_connection := Some connection\<rparr>;
     let st = st\<lparr>relay := Some tcp_relay\<rparr>;
     Some (st\<lparr>connects := connects st + 1\<rparr>) }"

definition p_on_duboo_connect :: "int \<Rightarrow> relay_state \<Rightarrow> relay_state option" where
  "p_on_duboo_connect status st = do {
     tcp_relay \<leftarrow> relay st;
     if status = 0 then do {
       dubbo_stream \<leftarrow> tcp_conn_2 tcp_relay;
       let st = st\<lparr>streams := dubbo_stream # streams st\<rparr>;
       consumer_agent \<leftarrow> tcp_conn_1 tcp_relay;
       Some (st\<lparr>streams := consumer_agent # streams st\<rparr>) }
     else connect_to_dubbo_long_live st }"

definition p_on_new_connection :: "int \<Rightarrow> bool \<Rightarrow> byte list \<Rightarrow> byte list \<Rightarrow> relay_state \<Rightarrow> relay_state option" where
  "p_on_new_connection status accepted fresh1 fresh2 st =
     (if status \<noteq> 0 then Some st
      else do {
        let conn_client = fresh_ptr st;
        let st = st\<lparr>fresh_ptr := fresh_ptr st + 1\<rparr>;
        let st = relay_malloc (Handle_Block conn_client) st;
        let st = st\<lparr>handles := conn_client # handles st\<rparr>;
        if accepted then do {
          tcp_relay \<leftarrow> init_tcp_relay_t fresh1 fresh2 P_DEFAULT_PACKAGE_SIZE;
          let st = relay_malloc Relay_Block (relay_malloc Raw_Buf1 (relay_malloc Raw_Buf2 st));
          let tcp_relay = tcp_relay\<lparr>tcp_conn_1 := Some conn_client\<rparr>;
          connect_to_dubbo_long_live (st\<lparr>relay := Some tcp_relay\<rparr>) }
        else close_handle conn_client No_Callback st })"

section \<open>Reading\<close>

text \<open>The blocks the readers allocate hold \<open>fresh\<close>; \<open>off\<close> is the splitter's array.\<close>

definition p_read_connection_data_http_req ::
  "target \<Rightarrow> int list \<Rightarrow> byte list \<Rightarrow> int \<Rightarrow> relay_state \<Rightarrow> relay_state option" where
  "p_read_connection_data_http_req t off fresh nread st = do {
     tcp_relay \<leftarrow> relay st;
     if 0 < nread then do {
       let n = to_size (raw_buf1_size tcp_relay + nread);
       conn_2 \<leftarrow> tcp_conn_2 tcp_relay;
       (buf, n, out) \<leftarrow> p_request_loop t off fresh (raw_buf1 tcp_relay) n (to_dubbo st);
       let out = (if conn_2 \<in> set (handles st) then out else to_dubbo st);
       Some (st\<lparr>relay := Some (tcp_relay\<lparr>raw_buf1 := buf, raw_buf1_size := n\<rparr>), to_dubbo := out\<rparr>) }
     else if nread < 0 then do {
       conn_1 \<leftarrow> tcp_conn_1 tcp_relay;
       close_handle conn_1 Close_Connection1 st }
     else Some st }"

definition p_on_read_results :: "byte list \<Rightarrow> int \<Rightarrow> relay_state \<Rightarrow> relay_state option" where
  "p_on_read_results fresh nread st = do {
     tcp_relay \<leftarrow> relay st;
     if 0 < nread then do {
       let n = to_size (raw_buf2_size tcp_relay + nread);
       conn_1 \<leftarrow> tcp_conn_1 tcp_relay;
       (buf, n, out) \<leftarrow> p_response_loop fresh (raw_buf2 tcp_relay) n (to_consumer st);
       let out = (if conn_1 \<in> set (handles st) then out else to_consumer st);
       Some (st\<lparr>relay := Some (tcp_relay\<lparr>raw_buf2 := buf, raw_buf2_size := n\<rparr>), to_consumer := out\<rparr>) }
     else if nread < 0 then do {
       conn_1 \<leftarrow> tcp_conn_1 tcp_relay;
       close_handle conn_1 Close_Connection1 st }
     else Some st }"

section \<open>The state machine\<close>

text \<open>What libuv may do next for a relay.\<close>

datatype relay_event =
    Dubbo_Connect int
  | Agent_Read "byte list"
  | Agent_Error int
  | Dubbo_Read "byte list"
  | Dubbo_Error int
  | Handle_Closed

fun relay_step :: "target \<Rightarrow> int list \<Rightarrow> byte list \<Rightarrow> relay_event \<Rightarrow> relay_state \<Rightarrow> relay_state option" where
  "relay_step t off fresh (Dubbo_Connect status) st = do {
     guard (0 < connects st);
     p_on_duboo_connect status (st\<lparr>connects := connects st - 1\<rparr>) }"
| "relay_step t off fresh (Agent_Read bs) st = do {
     r \<leftarrow> relay st; c \<leftarrow> tcp_conn_1 r;
     let (base, room) = p_alloc_buffer1 r;
     guard (c \<in> set (streams st) \<and> bs \<noteq> [] \<and> int (length bs) \<le> room);
     buf \<leftarrow> store (raw_buf1 r) base bs;
     p_read_connection_data_http_req t off fresh (int (length bs)) (st\<lparr>relay := Some (r\<lparr>raw_buf1 := buf\<rparr>)\<rparr>) }"
| "relay_step t off fresh (Agent_Error nread) st = do {
     r \<leftarrow> relay st; c \<leftarrow> tcp_conn_1 r;
     guard (c \<in> set (streams st) \<and> nread < 0);
     p_read_connection_data_http_req t off fresh nread (st\<lparr>streams := removeAll c (streams st)\<rparr>) }"
| "relay_step t off fresh (Dubbo_Read bs) st = do {
     r \<leftarrow> relay st; c \<leftarrow> tcp_conn_2 r;
     let (base, room) = p_alloc_buffer2 r;
     guard (c \<in> set (streams st) \<and> bs \<noteq> [] \<and> int (length bs) \<le> room);
     buf \<leftarrow> store (raw_buf2 r) base bs;
     p_on_read_results fresh (int (length bs)) (st\<lparr>relay := Some (r\<lparr>raw_buf2 := buf\<rparr>)\<rparr>) }"
| "relay_step t off fresh (Dubbo_Error nread) st = do {
     r \<leftarrow> relay st; c \<leftarrow> tcp_conn_2 r;
     guard (c \<in> set (streams st) \<and> nread < 0);
     p_on_read_results fresh nread (st\<lparr>streams := removeAll c (streams st)\<rparr>) }"
| "relay_step t off fresh Handle_Closed st =
     (case closings st of [] \<Rightarrow> None
      | (h, cb) # rest \<Rightarrow> (let st = st\<lparr>closings := rest\<rparr> in
          case cb of Close_Connection1 \<Rightarrow> p_close_tcp_relay_connection1 st
          | Close_Connection2 \<Rightarrow> p_close_tcp_relay_connection2 st
          | No_Callback \<Rightarrow> Some st))"

fun relay_steps :: "target \<Rightarrow> int list \<Rightarrow> byte list \<Rightarrow> relay_event list \<Rightarrow> relay_state \<Rightarrow> relay_state option" where
  "relay_steps t off fresh [] st = Some st"
| "relay_steps t off fresh (e # es) st = do { st \<leftarrow> relay_step t off fresh e st; relay_steps t off fresh es st }"

inductive relay_reach :: "target \<Rightarrow> int list \<Rightarrow> byte list \<Rightarrow> relay_event list \<Rightarrow> relay_state \<Rightarrow> bool"
  for t off fresh where
  start: "p_on_new_connection 0 True fresh1 fresh2 no_relay = Some st \<Longrightarrow> relay_reach t off fresh [] st"
| step: "relay_reach t off fresh evs st \<Longrightarrow> relay_step t off fresh ev st = Some st' \<Longrightarrow>
    relay_reach t off fresh (evs @ [ev]) st'"

section \<open>Phases\<close>

text \<open>The abstract automaton: what the events make of a relay.\<close>

datatype phase = Connecting | Relaying | Closing1 bool | Closing2 | Gone

fun next_phase :: "phase \<Rightarrow> relay_event \<Rightarrow> phase" where
  "next_phase Connecting (Dubbo_Connect status) = (if status = 0 then Relaying else Connecting)"
| "next_phase Relaying (Agent_Error _) = Closing1 True"
| "next_phase Relaying (Dubbo_Error _) = Closing1 False"
| "next_phase (Closing1 _) Handle_Closed = Closing2"
| "next_phase Closing2 Handle_Closed = Gone"
| "next_phase ph _ = ph"

definition phase_of :: "relay_event list \<Rightarrow> phase" where
  "phase_of evs = foldl next_phase Connecting evs"

text \<open>
  What the phase says of the state. The flag of \<open>Closing1\<close> is whether Dubbo is still read.
\<close>

definition relay_of :: "relay_state \<Rightarrow> handle \<Rightarrow> handle \<Rightarrow> bool" where
  "relay_of st c1 c2 \<longleftrightarrow> (\<exists>r q. relay st = Some r \<and> tcp_conn_1 r = Some c1 \<and> tcp_conn_2 r = Some c2 \<and>
       dubbo_connection r = Some q \<and>
       allocated st = {Relay_Block, Raw_Buf1, Raw_Buf2, Handle_Block c1, Handle_Block c2, Connect_Block q}) \<and>
     c1 \<noteq> c2 \<and> c1 < fresh_ptr st \<and> c2 < fresh_ptr st"

fun phase_streams :: "phase \<Rightarrow> handle \<Rightarrow> handle \<Rightarrow> handle set" where
  "phase_streams Relaying c1 c2 = {c1, c2}"
| "phase_streams (Closing1 dubbo) c1 c2 = (if dubbo then {c2} else {})"
| "phase_streams _ c1 c2 = {}"

fun phase_handles :: "phase \<Rightarrow> handle \<Rightarrow> handle \<Rightarrow> handle set" where
  "phase_handles Connecting c1 c2 = {c1, c2}"
| "phase_handles Relaying c1 c2 = {c1, c2}"
| "phase_handles (Closing1 _) c1 c2 = {c2}"
| "phase_handles _ c1 c2 = {}"

fun phase_closings :: "phase \<Rightarrow> handle \<Rightarrow> handle \<Rightarrow> (handle \<times> relay_cb) list" where
  "phase_closings (Closing1 _) c1 c2 = [(c1, Close_Connection1)]"
| "phase_closings Closing2 c1 c2 = [(c2, Close_Connection2)]"
| "phase_closings _ c1 c2 = []"

definition in_phase :: "phase \<Rightarrow> relay_state \<Rightarrow> bool" where
  "in_phase ph st \<longleftrightarrow> connects st = (if ph = Connecting then 1 else 0) \<and>
     (if ph = Gone then relay st = None \<and> streams st = [] \<and> handles st = [] \<and> closings st = [] \<and>
        allocated st = {Raw_Buf1, Raw_Buf2}
      else \<exists>c1 c2. relay_of st c1 c2 \<and> set (streams st) = phase_streams ph c1 c2 \<and>
        set (handles st) = phase_handles ph c1 c2 \<and> closings st = phase_closings ph c1 c2)"

lemma in_phaseI:
  "relay_of st c1 c2 \<Longrightarrow> ph \<noteq> Gone \<Longrightarrow> connects st = (if ph = Connecting then 1 else 0) \<Longrightarrow>
   set (streams st) = phase_streams ph c1 c2 \<Longrightarrow> set (handles st) = phase_handles ph c1 c2 \<Longrightarrow>
   closings st = phase_closings ph c1 c2 \<Longrightarrow> in_phase ph st"
  unfolding in_phase_def by auto

lemma in_phaseE:
  assumes "in_phase ph st" and "relay st \<noteq> None \<or> ph \<noteq> Gone"
  obtains c1 c2 r where "relay_of st c1 c2" "relay st = Some r" "tcp_conn_1 r = Some c1" "tcp_conn_2 r = Some c2"
    "c1 \<noteq> c2" "c1 < fresh_ptr st" "c2 < fresh_ptr st" "ph \<noteq> Gone"
    "connects st = (if ph = Connecting then 1 else 0)" "set (streams st) = phase_streams ph c1 c2"
    "set (handles st) = phase_handles ph c1 c2" "closings st = phase_closings ph c1 c2"
proof -
  obtain c1 c2 where "relay_of st c1 c2" "ph \<noteq> Gone" "connects st = (if ph = Connecting then 1 else 0)"
    "set (streams st) = phase_streams ph c1 c2" "set (handles st) = phase_handles ph c1 c2" "closings st = phase_closings ph c1 c2"
    using assms unfolding in_phase_def by (metis (no_types))
  with that show thesis unfolding relay_of_def by blast
qed

lemma close_handle_eq:
  "close_handle h cb st = (if h \<in> set (handles st) then Some (st\<lparr>handles := removeAll h (handles st),
     streams := removeAll h (streams st), closings := closings st @ [(h, cb)]\<rparr>) else None)"
  by (simp add: close_handle_def guard_bind)

lemma relay_free_eq:
  "relay_free b st = (if b \<in> allocated st then Some (st\<lparr>allocated := allocated st - {b}\<rparr>) else None)"
  by (simp add: relay_free_def guard_bind)

lemma relay_malloc_same [simp]:
  "relay (relay_malloc b st) = relay st" "connects (relay_malloc b st) = connects st"
  "streams (relay_malloc b st) = streams st" "handles (relay_malloc b st) = handles st"
  "closings (relay_malloc b st) = closings st" "fresh_ptr (relay_malloc b st) = fresh_ptr st"
  "allocated (relay_malloc b st) = insert b (allocated st)"
  "to_dubbo (relay_malloc b st) = to_dubbo st" "to_consumer (relay_malloc b st) = to_consumer st"
  by (simp_all add: relay_malloc_def)

text \<open>The first connect of a relay, and a connect after one that failed.\<close>

lemma connect_first:
  assumes "relay st = Some r" and "tcp_conn_1 r = Some c1" and "c1 < fresh_ptr st"
    and "tcp_conn_2 r = None" "dubbo_connection r = None"
    and "allocated st = {Relay_Block, Raw_Buf1, Raw_Buf2, Handle_Block c1}"
  shows "\<exists>st'. connect_to_dubbo_long_live st = Some st' \<and> relay_of st' c1 (fresh_ptr st) \<and>
    connects st' = connects st + 1 \<and> streams st' = streams st \<and> closings st' = closings st \<and>
    set (handles st') = insert (fresh_ptr st) (set (handles st)) \<and>
    to_dubbo st' = to_dubbo st \<and> to_consumer st' = to_consumer st \<and>
    (\<exists>r'. relay st' = Some r' \<and> raw_buf1 r' = raw_buf1 r \<and> raw_buf2 r' = raw_buf2 r \<and>
       raw_buf1_size r' = raw_buf1_size r \<and> raw_buf2_size r' = raw_buf2_size r \<and> max_buffer_size r' = max_buffer_size r)"
  using assms by (auto simp: connect_to_dubbo_long_live_def Let_def relay_of_def free_conn_def free_connect_def)

lemma connect_again:
  assumes "relay st = Some r" and "tcp_conn_2 r = Some c2" and "c2 \<in> set (handles st)"
  shows "connect_to_dubbo_long_live st = None"
  using assms by (simp add: connect_to_dubbo_long_live_def free_conn_def guard_bind)

text \<open>A read that is not an error changes one buffer and what was written.\<close>

lemma read_request_effect:
  assumes "relay_step t off fresh (Agent_Read bs) st = Some st'"
  obtains r r' out where "relay st = Some r" "tcp_conn_1 r' = tcp_conn_1 r" "tcp_conn_2 r' = tcp_conn_2 r"
    "dubbo_connection r' = dubbo_connection r" "st' = st\<lparr>relay := Some r', to_dubbo := out\<rparr>"
proof -
  obtain r buf where r: "relay st = Some r" "bs \<noteq> []" and
    p: "p_read_connection_data_http_req t off fresh (int (length bs)) (st\<lparr>relay := Some (r\<lparr>raw_buf1 := buf\<rparr>)\<rparr>) = Some st'"
    using assms by (auto simp: bind_Some_iff guard_bind case_prod_beta split: if_splits)
  then obtain buf' n out where "st' = st\<lparr>relay := Some (r\<lparr>raw_buf1 := buf', raw_buf1_size := n\<rparr>), to_dubbo := out\<rparr>"
    by (auto simp: p_read_connection_data_http_req_def bind_Some_iff Let_def simp del: if_split split del: if_split)
  with r(1) show thesis by (intro that [of r "r\<lparr>raw_buf1 := buf', raw_buf1_size := n\<rparr>" out]) simp_all
qed

lemma read_result_effect:
  assumes "relay_step t off fresh (Dubbo_Read bs) st = Some st'"
  obtains r r' out where "relay st = Some r" "tcp_conn_1 r' = tcp_conn_1 r" "tcp_conn_2 r' = tcp_conn_2 r"
    "dubbo_connection r' = dubbo_connection r" "st' = st\<lparr>relay := Some r', to_consumer := out\<rparr>"
proof -
  obtain r buf where r: "relay st = Some r" "bs \<noteq> []" and
    p: "p_on_read_results fresh (int (length bs)) (st\<lparr>relay := Some (r\<lparr>raw_buf2 := buf\<rparr>)\<rparr>) = Some st'"
    using assms by (auto simp: bind_Some_iff guard_bind case_prod_beta split: if_splits)
  then obtain buf' n out where "st' = st\<lparr>relay := Some (r\<lparr>raw_buf2 := buf', raw_buf2_size := n\<rparr>), to_consumer := out\<rparr>"
    by (auto simp: p_on_read_results_def bind_Some_iff Let_def simp del: if_split split del: if_split)
  with r(1) show thesis by (intro that [of r "r\<lparr>raw_buf2 := buf', raw_buf2_size := n\<rparr>" out]) simp_all
qed

text \<open>An error on either stream closes the first connection.\<close>

lemma error_effect:
  assumes "relay_of st c1 c2"
  shows "relay_step t off fresh (Agent_Error nread) st =
      (if c1 \<in> set (streams st) \<and> nread < 0 then close_handle c1 Close_Connection1 (st\<lparr>streams := removeAll c1 (streams st)\<rparr>) else None)"
    "relay_step t off fresh (Dubbo_Error nread) st =
      (if c2 \<in> set (streams st) \<and> nread < 0 then close_handle c1 Close_Connection1 (st\<lparr>streams := removeAll c2 (streams st)\<rparr>) else None)"
  using assms by (auto simp: relay_of_def p_read_connection_data_http_req_def p_on_read_results_def guard_bind)

lemma relay_of_fields [simp]:
  "relay_of (st\<lparr>streams := a\<rparr>) = relay_of st" "relay_of (st\<lparr>handles := b\<rparr>) = relay_of st"
  "relay_of (st\<lparr>closings := c\<rparr>) = relay_of st" "relay_of (st\<lparr>connects := n\<rparr>) = relay_of st"
  by (auto simp: fun_eq_iff relay_of_def)

lemma in_phase_update:
  assumes "relay st = Some r" and "tcp_conn_1 r' = tcp_conn_1 r" and "tcp_conn_2 r' = tcp_conn_2 r"
    and "dubbo_connection r' = dubbo_connection r"
  shows "in_phase ph (st\<lparr>relay := Some r', to_dubbo := out1\<rparr>) = in_phase ph st"
    "in_phase ph (st\<lparr>relay := Some r', to_consumer := out2\<rparr>) = in_phase ph st"
  using assms by (simp_all add: in_phase_def relay_of_def)

lemma next_phase_read [simp]:
  "next_phase ph (Agent_Read bs) = ph" "next_phase ph (Dubbo_Read bs) = ph"
  by (cases ph; simp)+

text \<open>A relay before it connects.\<close>

definition bare_relay :: "byte list \<Rightarrow> byte list \<Rightarrow> tcp_relay" where
  "bare_relay fresh1 fresh2 = \<lparr>tcp_conn_1 = Some 0, tcp_conn_2 = None, dubbo_connection = None, raw_buf1 = fresh1,
     raw_buf2 = fresh2, raw_buf1_size = 0, raw_buf2_size = 0, max_buffer_size = int P_DEFAULT_PACKAGE_SIZE\<rparr>"

definition bare_state :: "byte list \<Rightarrow> byte list \<Rightarrow> relay_state" where
  "bare_state fresh1 fresh2 = no_relay\<lparr>fresh_ptr := 1, handles := [0], relay := Some (bare_relay fresh1 fresh2),
     allocated := {Relay_Block, Raw_Buf1, Raw_Buf2, Handle_Block 0}\<rparr>"

lemma new_relay:
  "p_on_new_connection 0 True fresh1 fresh2 no_relay =
    (if length fresh1 = P_DEFAULT_PACKAGE_SIZE \<and> length fresh2 = P_DEFAULT_PACKAGE_SIZE
     then connect_to_dubbo_long_live (bare_state fresh1 fresh2) else None)"
  by (simp add: p_on_new_connection_def init_tcp_relay_t_def no_relay_def guard_bind Let_def bare_state_def bare_relay_def
      relay_malloc_def)

lemma bare_connects:
  "\<exists>st r. connect_to_dubbo_long_live (bare_state fresh1 fresh2) = Some st \<and> in_phase Connecting st \<and>
     relay st = Some r \<and> raw_buf1 r = fresh1 \<and> raw_buf2 r = fresh2 \<and> raw_buf1_size r = 0 \<and> raw_buf2_size r = 0 \<and>
     max_buffer_size r = int P_DEFAULT_PACKAGE_SIZE"
proof -
  from connect_first [of "bare_state fresh1 fresh2" "bare_relay fresh1 fresh2" 0] obtain st r where
    "connect_to_dubbo_long_live (bare_state fresh1 fresh2) = Some st" "relay_of st 0 1" "connects st = 1" "streams st = []"
    "closings st = []" "set (handles st) = {0, 1}" "relay st = Some r" "raw_buf1 r = fresh1" "raw_buf2 r = fresh2"
    "raw_buf1_size r = 0" "raw_buf2_size r = 0" "max_buffer_size r = int P_DEFAULT_PACKAGE_SIZE"
    by (auto simp: bare_state_def bare_relay_def no_relay_def)
  moreover from this have "in_phase Connecting st" by (intro in_phaseI [of st 0 1]) auto
  ultimately show ?thesis by blast
qed

lemma in_phase_start:
  "p_on_new_connection 0 True fresh1 fresh2 no_relay = Some st \<Longrightarrow> in_phase Connecting st"
  using bare_connects [of fresh1 fresh2] by (auto simp: new_relay split: if_splits)

text \<open>A connect that fails frees a handle libuv has; one that succeeds starts the reading.\<close>

lemma failed_connect:
  assumes "in_phase Connecting st" and "status \<noteq> 0"
  shows "relay_step t off fresh (Dubbo_Connect status) st = None"
proof -
  obtain c1 c2 r where "relay st = Some r" "tcp_conn_2 r = Some c2" "set (handles st) = {c1, c2}" "connects st = 1"
    by (rule in_phaseE [OF assms(1)]) auto
  then show ?thesis using assms(2)
    by (simp add: guard_bind p_on_duboo_connect_def connect_again)
qed

lemma in_phase_connect:
  assumes "in_phase ph st" and "relay_step t off fresh (Dubbo_Connect status) st = Some st'"
  shows "in_phase (next_phase ph (Dubbo_Connect status)) st'"
proof -
  have c: "0 < connects st" and p: "p_on_duboo_connect status (st\<lparr>connects := connects st - 1\<rparr>) = Some st'"
    using assms(2) by (simp_all add: guard_bind split: if_splits)
  have ph: "ph = Connecting" using assms(1) c by (simp add: in_phase_def split: if_splits)
  then have s0: "status = 0" using failed_connect assms by fastforce
  obtain c1 c2 r where r: "relay_of st c1 c2" "relay st = Some r" "tcp_conn_1 r = Some c1" "tcp_conn_2 r = Some c2"
    "connects st = 1" "set (streams st) = {}" "set (handles st) = {c1, c2}" "closings st = []"
    by (rule in_phaseE [OF assms(1) [unfolded ph]]) simp_all
  have "st' = st\<lparr>connects := 0, streams := c1 # c2 # streams st\<rparr>"
    using p r s0 by (simp add: p_on_duboo_connect_def)
  then show ?thesis using r s0 unfolding ph by (intro in_phaseI [of _ c1 c2]) auto
qed

text \<open>A stream that is read belongs to a relay, which is then in one of two phases.\<close>

lemma in_phase_agent_error:
  assumes "in_phase ph st" and s: "relay_step t off fresh (Agent_Error nread) st = Some st'"
  shows "in_phase (next_phase ph (Agent_Error nread)) st'"
proof -
  have "relay st \<noteq> None" using s by (auto simp: bind_Some_iff)
  then obtain c1 c2 where r: "relay_of st c1 c2" "c1 \<noteq> c2" "connects st = (if ph = Connecting then 1 else 0)"
    "set (streams st) = phase_streams ph c1 c2" "set (handles st) = phase_handles ph c1 c2" "closings st = phase_closings ph c1 c2"
    using in_phaseE [OF assms(1)] by metis
  have e: "c1 \<in> set (streams st)" "c1 \<in> set (handles st)" and
    st': "st' = st\<lparr>streams := removeAll c1 (removeAll c1 (streams st)), handles := removeAll c1 (handles st),
      closings := closings st @ [(c1, Close_Connection1)]\<rparr>"
    using s unfolding error_effect [OF r(1)] by (auto simp: close_handle_eq split: if_splits)
  have ph: "ph = Relaying" using e(1) r(2,4) by (cases ph) (auto split: if_splits)
  show ?thesis using r unfolding ph st' by (intro in_phaseI [of _ c1 c2]) auto
qed

lemma in_phase_dubbo_error:
  assumes "in_phase ph st" and s: "relay_step t off fresh (Dubbo_Error nread) st = Some st'"
  shows "in_phase (next_phase ph (Dubbo_Error nread)) st'"
proof -
  have "relay st \<noteq> None" using s by (auto simp: bind_Some_iff)
  then obtain c1 c2 where r: "relay_of st c1 c2" "c1 \<noteq> c2" "connects st = (if ph = Connecting then 1 else 0)"
    "set (streams st) = phase_streams ph c1 c2" "set (handles st) = phase_handles ph c1 c2" "closings st = phase_closings ph c1 c2"
    using in_phaseE [OF assms(1)] by metis
  have e: "c2 \<in> set (streams st)" "c1 \<in> set (handles st)" and
    st': "st' = st\<lparr>streams := removeAll c1 (removeAll c2 (streams st)), handles := removeAll c1 (handles st),
      closings := closings st @ [(c1, Close_Connection1)]\<rparr>"
    using s unfolding error_effect [OF r(1)] by (auto simp: close_handle_eq split: if_splits)
  have ph: "ph = Relaying" using e r(2,4,5) by (cases ph) (auto split: if_splits)
  show ?thesis using r unfolding ph st' by (intro in_phaseI [of _ c1 c2]) auto
qed

lemma in_phase_closed:
  assumes "in_phase ph st" and s: "relay_step t off fresh Handle_Closed st = Some st'"
  shows "in_phase (next_phase ph Handle_Closed) st'"
proof -
  have "ph \<noteq> Gone" using assms by (auto simp: in_phase_def)
  then obtain c1 c2 r where r: "relay_of st c1 c2" "relay st = Some r" "tcp_conn_1 r = Some c1" "tcp_conn_2 r = Some c2" "c1 \<noteq> c2"
    "connects st = (if ph = Connecting then 1 else 0)"
    "set (streams st) = phase_streams ph c1 c2" "set (handles st) = phase_handles ph c1 c2" "closings st = phase_closings ph c1 c2"
    using in_phaseE [OF assms(1)] by metis
  show ?thesis
  proof (cases ph)
    case (Closing1 dubbo)
    then have "st' = st\<lparr>handles := removeAll c2 (handles st), streams := removeAll c2 (streams st), closings := [(c2, Close_Connection2)]\<rparr>"
      using s r by (simp add: p_close_tcp_relay_connection1_def close_handle_eq)
    then show ?thesis using r Closing1 by (intro in_phaseI [of _ c1 c2]) (auto split: if_splits)
  next
    case Closing2
    then show ?thesis using s r
      by (auto simp: p_close_tcp_relay_connection2_def free_tcp_relay_t_def free_conn_def free_connect_def relay_free_eq
          relay_of_def in_phase_def guard_bind)
  qed (use s r \<open>ph \<noteq> Gone\<close> in simp_all)
qed

lemma in_phase_step:
  assumes "in_phase ph st" and "relay_step t off fresh ev st = Some st'"
  shows "in_phase (next_phase ph ev) st'"
proof (cases ev)
  case (Agent_Read bs)
  with assms(2) show ?thesis using assms(1) in_phase_update(1)
    by (auto elim!: read_request_effect simp del: relay_step.simps)
next
  case (Dubbo_Read bs)
  with assms(2) show ?thesis using assms(1) in_phase_update(2)
    by (auto elim!: read_result_effect simp del: relay_step.simps)
qed (use assms in_phase_connect in_phase_agent_error in_phase_dubbo_error in_phase_closed in \<open>metis+\<close>)

lemma reach_phase: "relay_reach t off fresh evs st \<Longrightarrow> in_phase (phase_of evs) st"
  by (induction rule: relay_reach.induct) (auto simp: phase_of_def dest: in_phase_start in_phase_step)

section \<open>Both streams\<close>

text \<open>
  A relay and what its two peers have sent and libuv has not read. One read of at most \<open>k\<close>
  bytes of either stream is an event of the relay; the schedule says of which stream.
\<close>

definition deliver_request ::
  "target \<Rightarrow> int list \<Rightarrow> byte list \<Rightarrow> nat \<Rightarrow> byte list \<Rightarrow> relay_state \<Rightarrow> (byte list \<times> relay_state) option" where
  "deliver_request t off fresh k unread st = do {
     r \<leftarrow> relay st;
     let n = min k (min (length unread) (nat (snd (p_alloc_buffer1 r))));
     if min k (length unread) = 0 then Some (unread, st)
     else do { st \<leftarrow> relay_step t off fresh (Agent_Read (take n unread)) st; Some (drop n unread, st) } }"

definition deliver_result ::
  "target \<Rightarrow> int list \<Rightarrow> byte list \<Rightarrow> nat \<Rightarrow> byte list \<Rightarrow> relay_state \<Rightarrow> (byte list \<times> relay_state) option" where
  "deliver_result t off fresh k unread st = do {
     r \<leftarrow> relay st;
     let n = min k (min (length unread) (nat (snd (p_alloc_buffer2 r))));
     if min k (length unread) = 0 then Some (unread, st)
     else do { st \<leftarrow> relay_step t off fresh (Dubbo_Read (take n unread)) st; Some (drop n unread, st) } }"

datatype side = From_Agent | From_Dubbo

fun exchange ::
  "target \<Rightarrow> int list \<Rightarrow> byte list \<Rightarrow> (side \<times> nat) list \<Rightarrow> byte list \<times> byte list \<times> relay_state \<Rightarrow>
   (byte list \<times> byte list \<times> relay_state) option" where
  "exchange t off fresh [] w = Some w"
| "exchange t off fresh ((From_Agent, k) # sch) (u1, u2, st) = do {
     (u1, st) \<leftarrow> deliver_request t off fresh k u1 st; exchange t off fresh sch (u1, u2, st) }"
| "exchange t off fresh ((From_Dubbo, k) # sch) (u1, u2, st) = do {
     (u2, st) \<leftarrow> deliver_result t off fresh k u2 st; exchange t off fresh sch (u1, u2, st) }"

text \<open>The buffers of a relay as connections of the two readers.\<close>

definition buffers_ok :: "tcp_relay \<Rightarrow> bool" where
  "buffers_ok r \<longleftrightarrow> length (raw_buf1 r) = P_DEFAULT_PACKAGE_SIZE \<and> length (raw_buf2 r) = P_DEFAULT_PACKAGE_SIZE \<and>
     max_buffer_size r = int P_DEFAULT_PACKAGE_SIZE \<and> 0 \<le> raw_buf1_size r \<and> raw_buf1_size r \<le> int P_DEFAULT_PACKAGE_SIZE \<and>
     0 \<le> raw_buf2_size r \<and> raw_buf2_size r \<le> int P_DEFAULT_PACKAGE_SIZE"

lemma same_relay: "relay st = Some r \<Longrightarrow> st\<lparr>relay := Some r, to_dubbo := to_dubbo st\<rparr> = st"
  "relay st = Some r \<Longrightarrow> st\<lparr>relay := Some r, to_consumer := to_consumer st\<rparr> = st"
  by (cases st; simp)+

lemma agent_read_step:
  assumes "relay st = Some r" and "tcp_conn_1 r = Some c1" "tcp_conn_2 r = Some c2" "c1 \<in> set (streams st)" "c2 \<in> set (handles st)"
    and "bs \<noteq> []" and "int (length bs) \<le> snd (p_alloc_buffer1 r)" and "0 \<le> raw_buf1_size r" "raw_buf1_size r \<le> 4096"
    and "int (length bs) \<le> 4096" and "store (raw_buf1 r) (raw_buf1_size r) bs = Some b"
    and "p_request_loop t off fresh b (raw_buf1_size r + int (length bs)) (to_dubbo st) = Some (buf, n, out)"
  shows "relay_step t off fresh (Agent_Read bs) st =
    Some (st\<lparr>relay := Some (r\<lparr>raw_buf1 := buf, raw_buf1_size := n\<rparr>), to_dubbo := out\<rparr>)"
proof -
  have "to_size (raw_buf1_size r + int (length bs)) = raw_buf1_size r + int (length bs)"
    using assms(8-10) by (intro to_size_id) simp_all
  moreover have "fst (p_alloc_buffer1 r) = raw_buf1_size r" by (simp add: p_alloc_buffer1_def)
  ultimately show ?thesis
    using assms by (simp add: case_prod_beta guard_bind p_read_connection_data_http_req_def)
qed

lemma deliver_request_eq:
  assumes ph: "in_phase Relaying st" and r: "relay st = Some r" "buffers_ok r"
    and d: "deliver (p_request_loop t off fresh) k (u, raw_buf1 r, raw_buf1_size r, to_dubbo st) = Some (u', buf, n, out)"
  shows "deliver_request t off fresh k u st =
    Some (u', st\<lparr>relay := Some (r\<lparr>raw_buf1 := buf, raw_buf1_size := n\<rparr>), to_dubbo := out\<rparr>)"
proof -
  obtain c1 c2 where c: "tcp_conn_1 r = Some c1" "tcp_conn_2 r = Some c2" "c1 \<in> set (streams st)" "c2 \<in> set (handles st)"
    by (rule in_phaseE [OF ph]) (use r(1) in auto)
  define m where "m = min k (min (length u) (length (raw_buf1 r) - nat (raw_buf1_size r)))"
  have room: "nat (snd (p_alloc_buffer1 r)) = length (raw_buf1 r) - nat (raw_buf1_size r)"
    "0 \<le> snd (p_alloc_buffer1 r)" "snd (p_alloc_buffer1 r) \<le> 4096" "0 \<le> raw_buf1_size r" "raw_buf1_size r \<le> 4096"
    using r(2) by (simp_all add: p_alloc_buffer1_def buffers_ok_def P_DEFAULT_PACKAGE_SIZE_def nat_diff_distrib)
  have "m \<le> nat (snd (p_alloc_buffer1 r))" unfolding room(1) m_def by simp
  then have m: "int m \<le> snd (p_alloc_buffer1 r)" "int m \<le> 4096" using room(2,3) by linarith+
  show ?thesis
  proof (cases "min k (length u) = 0")
    case True
    then have "u' = u" "buf = raw_buf1 r" "n = raw_buf1_size r" "out = to_dubbo st"
      using d by (simp_all add: deliver_def Let_def)
    with True r(1) same_relay(1) show ?thesis by (simp add: deliver_request_def)
  next
    case False
    then have nz: "(min k (length u) = 0) = False" by simp
    have "m \<noteq> 0 \<and> (\<exists>b. store (raw_buf1 r) (raw_buf1_size r) (take m u) = Some b \<and>
        p_request_loop t off fresh b (raw_buf1_size r + int m) (to_dubbo st) = Some (buf, n, out)) \<and> u' = drop m u"
      using d unfolding deliver_def prod.case Let_def nz if_False m_def [symmetric]
      by (auto simp: bind_Some_iff guard_bind split: if_splits)
    then obtain b where b: "m \<noteq> 0" "store (raw_buf1 r) (raw_buf1_size r) (take m u) = Some b"
      "p_request_loop t off fresh b (raw_buf1_size r + int m) (to_dubbo st) = Some (buf, n, out)" "u' = drop m u"
      by blast
    have l: "length (take m u) = m" "take m u \<noteq> []" using b(1) by (auto simp: m_def)
    have "relay_step t off fresh (Agent_Read (take m u)) st =
        Some (st\<lparr>relay := Some (r\<lparr>raw_buf1 := buf, raw_buf1_size := n\<rparr>), to_dubbo := out\<rparr>)"
      by (rule agent_read_step [OF r(1) c l(2) _ room(4,5) _ b(2)]) (simp_all only: l(1) m b(3))
    then show ?thesis using r(1) b(4)
      unfolding deliver_request_def r(1) Option.bind.bind_lunit room(1) m_def [symmetric] Let_def nz if_False
      by simp
  qed
qed

lemma dubbo_read_step:
  assumes "relay st = Some r" and "tcp_conn_1 r = Some c1" "tcp_conn_2 r = Some c2" "c2 \<in> set (streams st)" "c1 \<in> set (handles st)"
    and "bs \<noteq> []" and "int (length bs) \<le> snd (p_alloc_buffer2 r)" and "0 \<le> raw_buf2_size r" "raw_buf2_size r \<le> 4096"
    and "int (length bs) \<le> 4096" and "store (raw_buf2 r) (raw_buf2_size r) bs = Some b"
    and "p_response_loop fresh b (raw_buf2_size r + int (length bs)) (to_consumer st) = Some (buf, n, out)"
  shows "relay_step t off fresh (Dubbo_Read bs) st =
    Some (st\<lparr>relay := Some (r\<lparr>raw_buf2 := buf, raw_buf2_size := n\<rparr>), to_consumer := out\<rparr>)"
proof -
  have "to_size (raw_buf2_size r + int (length bs)) = raw_buf2_size r + int (length bs)"
    using assms(8-10) by (intro to_size_id) simp_all
  moreover have "fst (p_alloc_buffer2 r) = raw_buf2_size r" by (simp add: p_alloc_buffer2_def)
  ultimately show ?thesis
    using assms by (simp add: case_prod_beta guard_bind p_on_read_results_def)
qed

lemma deliver_result_eq:
  assumes ph: "in_phase Relaying st" and r: "relay st = Some r" "buffers_ok r"
    and d: "deliver (p_response_loop fresh) k (u, raw_buf2 r, raw_buf2_size r, to_consumer st) = Some (u', buf, n, out)"
  shows "deliver_result t off fresh k u st =
    Some (u', st\<lparr>relay := Some (r\<lparr>raw_buf2 := buf, raw_buf2_size := n\<rparr>), to_consumer := out\<rparr>)"
proof -
  obtain c1 c2 where c: "tcp_conn_1 r = Some c1" "tcp_conn_2 r = Some c2" "c2 \<in> set (streams st)" "c1 \<in> set (handles st)"
    by (rule in_phaseE [OF ph]) (use r(1) in auto)
  define m where "m = min k (min (length u) (length (raw_buf2 r) - nat (raw_buf2_size r)))"
  have room: "nat (snd (p_alloc_buffer2 r)) = length (raw_buf2 r) - nat (raw_buf2_size r)"
    "0 \<le> snd (p_alloc_buffer2 r)" "snd (p_alloc_buffer2 r) \<le> 4096" "0 \<le> raw_buf2_size r" "raw_buf2_size r \<le> 4096"
    using r(2) by (simp_all add: p_alloc_buffer2_def buffers_ok_def P_DEFAULT_PACKAGE_SIZE_def nat_diff_distrib)
  have "m \<le> nat (snd (p_alloc_buffer2 r))" unfolding room(1) m_def by simp
  then have m: "int m \<le> snd (p_alloc_buffer2 r)" "int m \<le> 4096" using room(2,3) by linarith+
  show ?thesis
  proof (cases "min k (length u) = 0")
    case True
    then have "u' = u" "buf = raw_buf2 r" "n = raw_buf2_size r" "out = to_consumer st"
      using d by (simp_all add: deliver_def Let_def)
    with True r(1) same_relay(2) show ?thesis by (simp add: deliver_result_def)
  next
    case False
    then have nz: "(min k (length u) = 0) = False" by simp
    have "m \<noteq> 0 \<and> (\<exists>b. store (raw_buf2 r) (raw_buf2_size r) (take m u) = Some b \<and>
        p_response_loop fresh b (raw_buf2_size r + int m) (to_consumer st) = Some (buf, n, out)) \<and> u' = drop m u"
      using d unfolding deliver_def prod.case Let_def nz if_False m_def [symmetric]
      by (auto simp: bind_Some_iff guard_bind split: if_splits)
    then obtain b where b: "m \<noteq> 0" "store (raw_buf2 r) (raw_buf2_size r) (take m u) = Some b"
      "p_response_loop fresh b (raw_buf2_size r + int m) (to_consumer st) = Some (buf, n, out)" "u' = drop m u"
      by blast
    have l: "length (take m u) = m" "take m u \<noteq> []" using b(1) by (auto simp: m_def)
    have "relay_step t off fresh (Dubbo_Read (take m u)) st =
        Some (st\<lparr>relay := Some (r\<lparr>raw_buf2 := buf, raw_buf2_size := n\<rparr>), to_consumer := out\<rparr>)"
      by (rule dubbo_read_step [OF r(1) c l(2) _ room(4,5) _ b(2)]) (simp_all only: l(1) m b(3))
    then show ?thesis using r(1) b(4)
      unfolding deliver_result_def r(1) Option.bind.bind_lunit room(1) m_def [symmetric] Let_def nz if_False
      by simp
  qed
qed

text \<open>The invariant of both connections at once, and what one read does to it.\<close>

abbreviation request_conn :: "(i64 \<times> kv list) list \<Rightarrow> byte list list \<Rightarrow> nat \<Rightarrow> byte list list conn \<Rightarrow> bool" where
  "request_conn \<equiv> framed_reader.conn_inv P_DEFAULT_PACKAGE_SIZE enc_request (\<lambda>q out. out @ [dubbo_frame (fst q) (snd q)])"

abbreviation result_conn :: "dubbo_response list \<Rightarrow> byte list list \<Rightarrow> nat \<Rightarrow> byte list list conn \<Rightarrow> bool" where
  "result_conn \<equiv> framed_reader.conn_inv P_DEFAULT_PACKAGE_SIZE enc_dubbo forward_response"

definition world_inv ::
  "(i64 \<times> kv list) list \<Rightarrow> dubbo_response list \<Rightarrow> relay_state \<Rightarrow> nat \<Rightarrow> nat \<Rightarrow> byte list \<times> byte list \<times> relay_state \<Rightarrow> bool" where
  "world_inv qs rs st0 i j w = (case w of (u1, u2, st) \<Rightarrow> in_phase Relaying st \<and>
     (\<exists>r. relay st = Some r \<and> buffers_ok r \<and>
        request_conn qs (to_dubbo st0) i (u1, raw_buf1 r, raw_buf1_size r, to_dubbo st) \<and>
        result_conn rs (to_consumer st0) j (u2, raw_buf2 r, raw_buf2_size r, to_consumer st)))"

lemma conn_inv_buffer:
  assumes "framed_reader cap loop enc ok ready handle" and "framed_reader.conn_inv cap enc handle fs s0 j (u, buf, held, s)"
  shows "length buf = cap \<and> 0 \<le> held \<and> held \<le> int cap"
  using assms(2) by (auto simp: framed_reader.conn_inv_def [OF assms(1)])

lemma in_phase_buf:
  assumes "in_phase ph st" and "relay st = Some r" and "tcp_conn_1 r' = tcp_conn_1 r" and "tcp_conn_2 r' = tcp_conn_2 r"
    and "dubbo_connection r' = dubbo_connection r"
  shows "in_phase ph (st\<lparr>relay := Some r', to_dubbo := out1\<rparr>)" "in_phase ph (st\<lparr>relay := Some r', to_consumer := out2\<rparr>)"
  using assms in_phase_update [OF assms(2-5)] by simp_all

lemma world_step_request:
  assumes R: "t \<noteq> BMI" "length off = 32" "length fresh = 4096" and ok: "\<forall>q \<in> set qs. request_ok q"
    and w: "world_inv qs rs st0 i j (u1, u2, st)"
  shows "\<exists>i' u1' st'. deliver_request t off fresh k u1 st = Some (u1', st') \<and> world_inv qs rs st0 i' j (u1', u2, st') \<and>
    (0 < k \<and> u1 \<noteq> [] \<longrightarrow> length u1' < length u1) \<and> length u1' \<le> length u1"
proof -
  obtain r where r: "in_phase Relaying st" "relay st = Some r" "buffers_ok r"
    "request_conn qs (to_dubbo st0) i (u1, raw_buf1 r, raw_buf1_size r, to_dubbo st)"
    "result_conn rs (to_consumer st0) j (u2, raw_buf2 r, raw_buf2_size r, to_consumer st)"
    using w by (auto simp: world_inv_def)
  note F = request_reader [OF R]
  from framed_reader.deliver_step [OF F ok TrueI r(4), of k, unfolded fst_conv] obtain i' w' where
    d': "deliver (p_request_loop t off fresh) k (u1, raw_buf1 r, raw_buf1_size r, to_dubbo st) = Some w'" "request_conn qs (to_dubbo st0) i' w'"
      "0 < k \<and> u1 \<noteq> [] \<longrightarrow> length (fst w') < length u1" "length (fst w') \<le> length u1"
    by blast
  obtain u1' buf n out where w': "w' = (u1', buf, n, out)" by (cases w')
  note d = d' [unfolded w' fst_conv]
  let ?r = "r\<lparr>raw_buf1 := buf, raw_buf1_size := n\<rparr>"
  let ?st = "st\<lparr>relay := Some ?r, to_dubbo := out\<rparr>"
  have "buffers_ok ?r" using r(3) conn_inv_buffer [OF F d(2)] by (simp add: buffers_ok_def)
  moreover have "in_phase Relaying ?st" by (rule in_phase_buf(1) [OF r(1,2)]) simp_all
  ultimately have "world_inv qs rs st0 i' j (u1', u2, ?st)"
    using d(2) r(5) by (simp add: world_inv_def)
  with deliver_request_eq [OF r(1-3) d(1)] d(3,4) show ?thesis by blast
qed

lemma world_step_result:
  assumes R: "length fresh = 4096" and ok: "\<forall>r \<in> set rs. dubbo_response_ok r" and w: "world_inv qs rs st0 i j (u1, u2, st)"
  shows "\<exists>j' u2' st'. deliver_result t off fresh k u2 st = Some (u2', st') \<and> world_inv qs rs st0 i j' (u1, u2', st') \<and>
    (0 < k \<and> u2 \<noteq> [] \<longrightarrow> length u2' < length u2) \<and> length u2' \<le> length u2"
proof -
  obtain r where r: "in_phase Relaying st" "relay st = Some r" "buffers_ok r"
    "request_conn qs (to_dubbo st0) i (u1, raw_buf1 r, raw_buf1_size r, to_dubbo st)"
    "result_conn rs (to_consumer st0) j (u2, raw_buf2 r, raw_buf2_size r, to_consumer st)"
    using w by (auto simp: world_inv_def)
  note F = response_reader [OF R]
  from framed_reader.deliver_step [OF F ok TrueI r(5), of k, unfolded fst_conv] obtain j' w' where
    d': "deliver (p_response_loop fresh) k (u2, raw_buf2 r, raw_buf2_size r, to_consumer st) = Some w'" "result_conn rs (to_consumer st0) j' w'"
      "0 < k \<and> u2 \<noteq> [] \<longrightarrow> length (fst w') < length u2" "length (fst w') \<le> length u2"
    by blast
  obtain u2' buf n out where w': "w' = (u2', buf, n, out)" by (cases w')
  note d = d' [unfolded w' fst_conv]
  let ?r = "r\<lparr>raw_buf2 := buf, raw_buf2_size := n\<rparr>"
  let ?st = "st\<lparr>relay := Some ?r, to_consumer := out\<rparr>"
  have "buffers_ok ?r" using r(3) conn_inv_buffer [OF F d(2)] by (simp add: buffers_ok_def)
  moreover have "in_phase Relaying ?st" by (rule in_phase_buf(2) [OF r(1,2)]) simp_all
  ultimately have "world_inv qs rs st0 i j' (u1, u2', ?st)"
    using d(2) r(4) by (simp add: world_inv_def)
  with deliver_result_eq [OF r(1-3) d(1)] d(3,4) show ?thesis by blast
qed

definition reads_of :: "side \<Rightarrow> (side \<times> nat) list \<Rightarrow> nat" where
  "reads_of s sch = length (filter (\<lambda>x. fst x = s) sch)"

lemma exchange_inv:
  assumes R: "t \<noteq> BMI" "length off = 32" "length fresh = 4096" and ok: "\<forall>q \<in> set qs. request_ok q" "\<forall>r \<in> set rs. dubbo_response_ok r"
    and w: "world_inv qs rs st0 i j (u1, u2, st)"
  shows "\<exists>i' j' u1' u2' st'. exchange t off fresh sch (u1, u2, st) = Some (u1', u2', st') \<and>
    world_inv qs rs st0 i' j' (u1', u2', st') \<and>
    ((\<forall>x \<in> set sch. 0 < snd x) \<and> length u1 \<le> reads_of From_Agent sch \<and> length u2 \<le> reads_of From_Dubbo sch \<longrightarrow>
       u1' = [] \<and> u2' = [])"
  using w
proof (induction sch arbitrary: i j u1 u2 st)
  case Nil
  then show ?case by (auto simp: reads_of_def)
next
  case (Cons x sch)
  obtain s k where x: "x = (s, k)" by (cases x)
  show ?case
  proof (cases s)
    case From_Agent
    from world_step_request [OF R ok(1) Cons.prems, of k] obtain i1 v st1 where
      d: "deliver_request t off fresh k u1 st = Some (v, st1)" "world_inv qs rs st0 i1 j (v, u2, st1)"
        "0 < k \<and> u1 \<noteq> [] \<longrightarrow> length v < length u1" "length v \<le> length u1" by blast
    from Cons.IH [OF d(2)] obtain i' j' u1' u2' st' where
      e: "exchange t off fresh sch (v, u2, st1) = Some (u1', u2', st')" "world_inv qs rs st0 i' j' (u1', u2', st')"
        "(\<forall>x \<in> set sch. 0 < snd x) \<and> length v \<le> reads_of From_Agent sch \<and> length u2 \<le> reads_of From_Dubbo sch \<longrightarrow> u1' = [] \<and> u2' = []"
      by blast
    show ?thesis
      by (rule exI [of _ i'], rule exI [of _ j'], rule exI [of _ u1'], rule exI [of _ u2'], rule exI [of _ st'])
         (use d e x From_Agent in \<open>auto simp: reads_of_def\<close>)
  next
    case From_Dubbo
    from world_step_result [OF R(3) ok(2) Cons.prems, of t off k] obtain j1 v st1 where
      d: "deliver_result t off fresh k u2 st = Some (v, st1)" "world_inv qs rs st0 i j1 (u1, v, st1)"
        "0 < k \<and> u2 \<noteq> [] \<longrightarrow> length v < length u2" "length v \<le> length u2" by blast
    from Cons.IH [OF d(2)] obtain i' j' u1' u2' st' where
      e: "exchange t off fresh sch (u1, v, st1) = Some (u1', u2', st')" "world_inv qs rs st0 i' j' (u1', u2', st')"
        "(\<forall>x \<in> set sch. 0 < snd x) \<and> length u1 \<le> reads_of From_Agent sch \<and> length v \<le> reads_of From_Dubbo sch \<longrightarrow> u1' = [] \<and> u2' = []"
      by blast
    show ?thesis
      by (rule exI [of _ i'], rule exI [of _ j'], rule exI [of _ u1'], rule exI [of _ u2'], rule exI [of _ st'])
         (use d e x From_Dubbo in \<open>auto simp: reads_of_def\<close>)
  qed
qed

text \<open>A relay that has just connected to Dubbo.\<close>

definition fresh_relay :: "relay_state \<Rightarrow> bool" where
  "fresh_relay st \<longleftrightarrow> in_phase Relaying st \<and>
     (\<exists>r. relay st = Some r \<and> buffers_ok r \<and> raw_buf1_size r = 0 \<and> raw_buf2_size r = 0)"

lemma world_inv_start:
  fixes off :: "int list" and fresh :: "byte list"
  assumes R: "t \<noteq> BMI" "length off = 32" "length fresh = 4096" and ok: "\<forall>q \<in> set qs. request_ok q" "\<forall>r \<in> set rs. dubbo_response_ok r"
    and st: "fresh_relay st"
  shows "world_inv qs rs st 0 0 (concat (map enc_request qs), concat (map enc_dubbo rs), st)"
proof -
  obtain r where r: "relay st = Some r" "buffers_ok r" "raw_buf1_size r = 0" "raw_buf2_size r = 0" "in_phase Relaying st"
    using st by (auto simp: fresh_relay_def)
  then have l: "length (raw_buf1 r) = P_DEFAULT_PACKAGE_SIZE" "length (raw_buf2 r) = P_DEFAULT_PACKAGE_SIZE"
    by (simp_all add: buffers_ok_def)
  show ?thesis
    using framed_reader.conn_inv_start [OF request_reader [OF R] ok(1) l(1), of "to_dubbo st"]
      framed_reader.conn_inv_start [OF response_reader [OF R(3)] ok(2) l(2), of "to_consumer st"] r
    by (auto simp: world_inv_def)
qed

section \<open>Connecting and closing\<close>

lemma error_closes:
  assumes "in_phase Relaying st" and "nread < 0" and "ev = Agent_Error nread \<or> ev = Dubbo_Error nread"
  shows "\<exists>st1. relay_step t off fresh ev st = Some st1"
proof -
  obtain c1 c2 where c: "relay_of st c1 c2" "c1 \<in> set (streams st)" "c2 \<in> set (streams st)" "c1 \<in> set (handles st)"
    by (rule in_phaseE [OF assms(1)]) auto
  then show ?thesis using assms(2,3) by (auto simp: error_effect [OF c(1)] close_handle_eq simp del: relay_step.simps)
qed

lemma closes:
  assumes "in_phase (Closing1 dubbo) st"
  shows "\<exists>st1 st2. relay_step t off fresh Handle_Closed st = Some st1 \<and> relay_step t off fresh Handle_Closed st1 = Some st2 \<and>
    in_phase Gone st2"
proof -
  obtain c1 c2 r where c: "relay st = Some r" "tcp_conn_2 r = Some c2" "c2 \<in> set (handles st)" "closings st = [(c1, Close_Connection1)]"
    by (rule in_phaseE [OF assms]) auto
  then obtain st1 where s1: "relay_step t off fresh Handle_Closed st = Some st1"
    by (simp add: p_close_tcp_relay_connection1_def close_handle_eq)
  with in_phase_step [OF assms] have p1: "in_phase Closing2 st1" by fastforce
  obtain st2 where s2: "relay_step t off fresh Handle_Closed st1 = Some st2"
    by (rule in_phaseE [OF p1]) (auto simp: p_close_tcp_relay_connection2_def free_tcp_relay_t_def free_conn_def free_connect_def
        relay_free_eq relay_of_def guard_bind)
  with in_phase_step [OF p1] have "in_phase Gone st2" by fastforce
  with s1 s2 show ?thesis by blast
qed

text \<open>Every run of a relay that is being closed: how many of its two handles are still to be closed.\<close>

fun to_close :: "phase \<Rightarrow> nat option" where
  "to_close (Closing1 _) = Some 2"
| "to_close Closing2 = Some 1"
| "to_close Gone = Some 0"
| "to_close _ = None"

definition closed_in :: "relay_event list \<Rightarrow> nat" where
  "closed_in evs = length (filter (\<lambda>ev. ev = Handle_Closed) evs)"

lemma closing_step:
  assumes "in_phase ph st" and "to_close ph = Some n" and "relay_step t off fresh ev st = Some st'"
  shows "to_close (next_phase ph ev) = Some (if ev = Handle_Closed then n - 1 else n) \<and> (ev = Handle_Closed \<longrightarrow> 0 < n)"
proof (cases ph)
  case Gone
  then show ?thesis using assms by (cases ev) (auto simp: in_phase_def)
qed (use assms(2) in \<open>cases ev; auto\<close>)+

lemma closing_run:
  "in_phase ph st \<Longrightarrow> to_close ph = Some n \<Longrightarrow> relay_steps t off fresh evs st = Some st' \<Longrightarrow>
   \<exists>ph' n'. in_phase ph' st' \<and> to_close ph' = Some n' \<and> n = n' + closed_in evs"
proof (induction evs arbitrary: ph st n)
  case Nil
  then show ?case by (auto simp: closed_in_def)
next
  case (Cons ev evs)
  from Cons.prems(3) obtain st1 where s: "relay_step t off fresh ev st = Some st1" "relay_steps t off fresh evs st1 = Some st'"
    by (auto simp: bind_Some_iff)
  note c = closing_step [OF Cons.prems(1,2) s(1)]
  from Cons.IH [OF in_phase_step [OF Cons.prems(1) s(1)] conjunct1 [OF c] s(2)] c show ?case
    by (fastforce simp: closed_in_def)
qed

lemma closing_goes_on:
  assumes "in_phase ph st" and "to_close ph = Some n" and "0 < n"
  shows "relay_step t off fresh Handle_Closed st \<noteq> None \<and> relay st \<noteq> None"
proof (cases ph)
  case (Closing1 d)
  then show ?thesis using closes [of d st t off fresh] assms(1) by (fastforce elim: in_phaseE)
next
  case Closing2
  show ?thesis
    by (rule in_phaseE [OF assms(1) [unfolded Closing2]])
       (auto simp: p_close_tcp_relay_connection2_def free_tcp_relay_t_def free_conn_def free_connect_def relay_free_eq
          relay_of_def guard_bind)
qed (use assms in simp_all)

text \<open>A relay whose connect to Dubbo is pending.\<close>

definition waiting_relay :: "relay_state \<Rightarrow> bool" where
  "waiting_relay st \<longleftrightarrow> in_phase Connecting st \<and>
     (\<exists>r. relay st = Some r \<and> buffers_ok r \<and> raw_buf1_size r = 0 \<and> raw_buf2_size r = 0)"

lemma waiting_relay_start:
  assumes "length fresh1 = P_DEFAULT_PACKAGE_SIZE" and "length fresh2 = P_DEFAULT_PACKAGE_SIZE"
  shows "\<exists>st. p_on_new_connection 0 True fresh1 fresh2 no_relay = Some st \<and> waiting_relay st"
  using bare_connects [of fresh1 fresh2] assms by (auto simp: new_relay waiting_relay_def buffers_ok_def)

lemma waiting_relay_connects:
  assumes "waiting_relay st"
  shows "\<exists>st'. relay_step t off fresh (Dubbo_Connect 0) st = Some st' \<and> fresh_relay st'"
proof -
  obtain r0 where b: "relay st = Some r0" "buffers_ok r0" "raw_buf1_size r0 = 0" "raw_buf2_size r0 = 0" "in_phase Connecting st"
    using assms by (auto simp: waiting_relay_def)
  obtain c1 c2 where c: "tcp_conn_1 r0 = Some c1" "tcp_conn_2 r0 = Some c2" "connects st = 1"
    by (rule in_phaseE [OF b(5)]) (use b(1) in auto)
  then have st: "relay_step t off fresh (Dubbo_Connect 0) st = Some (st\<lparr>connects := 0, streams := c1 # c2 # streams st\<rparr>)"
    using b(1) by (simp add: guard_bind p_on_duboo_connect_def)
  have "in_phase Relaying (st\<lparr>connects := 0, streams := c1 # c2 # streams st\<rparr>)" using in_phase_step [OF b(5) st] by simp
  with st b show ?thesis by (auto simp: fresh_relay_def)
qed

lemma exchange_transfers:
  fixes off :: "int list" and fresh :: "byte list"
  assumes R: "t \<noteq> BMI" "length off = 32" "length fresh = 4096" and ok: "\<forall>q \<in> set qs. request_ok q" "\<forall>r \<in> set rs. dubbo_response_ok r"
    and st: "fresh_relay st"
  shows "\<exists>u1 u2 st' i j.
    exchange t off fresh sch (concat (map enc_request qs), concat (map enc_dubbo rs), st) = Some (u1, u2, st') \<and>
    to_dubbo st' = to_dubbo st @ map (\<lambda>q. dubbo_frame (fst q) (snd q)) (take i qs) \<and>
    to_consumer st' = to_consumer st @ map (\<lambda>r. agent_frame (resp_id r) (http_response (resp_hash r)))
      (filter (\<lambda>r. resp_status r = 20) (take j rs)) \<and>
    ((\<forall>x \<in> set sch. 0 < snd x) \<and> length (concat (map enc_request qs)) \<le> reads_of From_Agent sch \<and>
       length (concat (map enc_dubbo rs)) \<le> reads_of From_Dubbo sch \<longrightarrow>
     u1 = [] \<and> u2 = [] \<and> to_dubbo st' = to_dubbo st @ map (\<lambda>q. dubbo_frame (fst q) (snd q)) qs \<and>
     to_consumer st' = to_consumer st @ map (\<lambda>r. agent_frame (resp_id r) (http_response (resp_hash r)))
       (filter (\<lambda>r. resp_status r = 20) rs))"
proof -
  from exchange_inv [OF R ok world_inv_start [OF R ok st], of sch] obtain i j u1 u2 st' where
    e: "exchange t off fresh sch (concat (map enc_request qs), concat (map enc_dubbo rs), st) = Some (u1, u2, st')"
      "world_inv qs rs st i j (u1, u2, st')"
      "(\<forall>x \<in> set sch. 0 < snd x) \<and> length (concat (map enc_request qs)) \<le> reads_of From_Agent sch \<and>
       length (concat (map enc_dubbo rs)) \<le> reads_of From_Dubbo sch \<longrightarrow> u1 = [] \<and> u2 = []"
    by blast
  obtain r :: tcp_relay where r: "request_conn qs (to_dubbo st) i (u1, raw_buf1 r, raw_buf1_size r, to_dubbo st')"
    "result_conn rs (to_consumer st) j (u2, raw_buf2 r, raw_buf2_size r, to_consumer st')"
    using e(2) unfolding world_inv_def prod.case by blast
  have "to_dubbo st' = to_dubbo st @ map (\<lambda>q. dubbo_frame (fst q) (snd q)) (take i qs)"
    "to_consumer st' = to_consumer st @ map (\<lambda>r. agent_frame (resp_id r) (http_response (resp_hash r)))
      (filter (\<lambda>r. resp_status r = 20) (take j rs))"
    using r by (simp_all add: framed_reader.conn_inv_def [OF request_reader [OF R]]
        framed_reader.conn_inv_def [OF response_reader [OF R(3)]] fold_snoc fold_forward)
  moreover have "to_dubbo st' = to_dubbo st @ map (\<lambda>q. dubbo_frame (fst q) (snd q)) qs" if "u1 = []"
    using framed_reader.conn_inv_done [OF request_reader [OF R] r(1) [unfolded that]] by (simp add: fold_snoc)
  moreover have "to_consumer st' = to_consumer st @ map (\<lambda>r. agent_frame (resp_id r) (http_response (resp_hash r)))
      (filter (\<lambda>r. resp_status r = 20) rs)" if "u2 = []"
    using framed_reader.conn_inv_done [OF response_reader [OF R(3)] r(2) [unfolded that]] by (simp add: fold_forward)
  ultimately show ?thesis using e(1,3) by blast
qed

section \<open>Properties\<close>

text \<open>C7. A relay of the provider agent as its peers see it: once the connect to Dubbo has succeeded
  the relay is ready with empty buffers; then, in whatever pieces and whatever interleaving the
  requests of the consumer agent and the responses of Dubbo arrive, nothing is undefined, what was
  written to either side is a prefix of the answers due, in order, and when everything was read it is
  all of them. (A connect that fails first is undefined: \<open>failed_dubbo_connect\<close>.)\<close>

theorem relay_transfers:
  assumes "length fresh1 = P_DEFAULT_PACKAGE_SIZE" and "length fresh2 = P_DEFAULT_PACKAGE_SIZE"
    and "t \<noteq> BMI" and "length off = 32" and "length fresh = 4096"
    and "\<forall>q \<in> set qs. request_ok q" and "\<forall>r \<in> set rs. dubbo_response_ok r"
  shows "\<exists>st0 st u1 u2 st' i j.
    p_on_new_connection 0 True fresh1 fresh2 no_relay = Some st0 \<and>
    relay_steps t off fresh [Dubbo_Connect 0] st0 = Some st \<and>
    exchange t off fresh sch (concat (map enc_request qs), concat (map enc_dubbo rs), st) = Some (u1, u2, st') \<and>
    to_dubbo st' = to_dubbo st @ map (\<lambda>q. dubbo_frame (fst q) (snd q)) (take i qs) \<and>
    to_consumer st' = to_consumer st @ map (\<lambda>r. agent_frame (resp_id r) (http_response (resp_hash r)))
      (filter (\<lambda>r. resp_status r = 20) (take j rs)) \<and>
    ((\<forall>x \<in> set sch. 0 < snd x) \<and> length (concat (map enc_request qs)) \<le> reads_of From_Agent sch \<and>
       length (concat (map enc_dubbo rs)) \<le> reads_of From_Dubbo sch \<longrightarrow>
     u1 = [] \<and> u2 = [] \<and> to_dubbo st' = to_dubbo st @ map (\<lambda>q. dubbo_frame (fst q) (snd q)) qs \<and>
     to_consumer st' = to_consumer st @ map (\<lambda>r. agent_frame (resp_id r) (http_response (resp_hash r)))
       (filter (\<lambda>r. resp_status r = 20) rs))"
proof -
  obtain st0 where s0: "p_on_new_connection 0 True fresh1 fresh2 no_relay = Some st0" "waiting_relay st0"
    using waiting_relay_start [OF assms(1,2)] by blast
  from waiting_relay_connects [OF s0(2), of t off fresh] obtain st where
    s: "relay_steps t off fresh [Dubbo_Connect 0] st0 = Some st" "fresh_relay st"
    by (auto simp del: relay_step.simps)
  from exchange_transfers [OF assms(3-7) s(2), of sch] s0(1) s(1) show ?thesis by blast
qed

theorem relay_transfers_witness:
  "\<exists>st0 st st'.
    p_on_new_connection 0 True (replicate 4096 0) (replicate 4096 0) no_relay = Some st0 \<and>
    relay_steps Plain (replicate 32 0) (replicate 4096 0) [Dubbo_Connect 0] st0 = Some st \<and>
    exchange Plain (replicate 32 0) (replicate 4096 0) (replicate 39 (From_Agent, 1) @ replicate 21 (From_Dubbo, 1))
      (enc_request (7, form_example), enc_dubbo response_example, st) = Some ([], [], st') \<and>
    to_consumer st' = to_consumer st @ [agent_frame 9 (http_response (bytes ''42''))]"
proof -
  have l: "length (enc_request (7, form_example)) = 39" by (simp add: enc_request_def) (simp add: form_example_def)
  have ok: "dubbo_response_ok response_example" "length (enc_dubbo response_example) = 21"
    by (simp_all add: dubbo_response_ok_def response_example_def enc_dubbo_def P_DEFAULT_PACKAGE_SIZE_def)
  have f: "resp_status response_example = 20" "resp_id response_example = 9" "resp_hash response_example = bytes ''42''"
    by (simp_all add: response_example_def resp_hash_def)
  have n: "reads_of From_Agent (replicate 39 (From_Agent, 1) @ replicate 21 (From_Dubbo, 1)) = 39"
    "reads_of From_Dubbo (replicate 39 (From_Agent, 1) @ replicate 21 (From_Dubbo, 1)) = 21"
    by (simp_all add: reads_of_def filter_replicate)
  show ?thesis
    using relay_transfers [of "replicate 4096 0" "replicate 4096 0" Plain "replicate 32 0" "replicate 4096 0"
        "[(7, form_example)]" "[response_example]" "replicate 39 (From_Agent, 1) @ replicate 21 (From_Dubbo, 1)"]
      request_example l ok n
    by (auto simp: P_DEFAULT_PACKAGE_SIZE_def f simp del: relay_steps.simps)
qed

text \<open>C11. The state machine of a relay (\<open>p_on_duboo_connect\<close>, the error branches of the
  readers, \<open>p_close_tcp_relay_connection1\<close> and \<open>2\<close>) refines the automaton of its
  phases: after any events libuv can deliver, the phase the automaton computes from them says exactly
  which connect is pending, which streams are read, which handles are open and which are closing.\<close>

theorem relay_phases:
  assumes "relay_reach t off fresh evs st"
  shows "in_phase (phase_of evs) st"
  by (rule reach_phase [OF assms])

lemma relay_example_reached:
  "\<exists>st. relay_reach Plain (replicate 32 0) (replicate 4096 0) [Dubbo_Connect 0] st"
proof -
  let ?step = "relay_step Plain (replicate 32 0) (replicate 4096 0)"
  obtain st0 where s0: "p_on_new_connection 0 True (replicate 4096 0) (replicate 4096 0) no_relay = Some st0" "waiting_relay st0"
    using waiting_relay_start [of "replicate 4096 0" "replicate 4096 0"] by (auto simp: P_DEFAULT_PACKAGE_SIZE_def)
  obtain st1 where s1: "?step (Dubbo_Connect 0) st0 = Some st1"
    using waiting_relay_connects [OF s0(2), of Plain "replicate 32 0" "replicate 4096 0"] by auto
  show ?thesis using relay_reach.step [OF relay_reach.start [OF s0(1)] s1] by auto
qed

theorem relay_phases_witness:
  "\<exists>st. relay_reach Plain (replicate 32 0) (replicate 4096 0) [Dubbo_Connect 0] st \<and> in_phase Relaying st"
proof -
  obtain st where r: "relay_reach Plain (replicate 32 0) (replicate 4096 0) [Dubbo_Connect 0] st"
    using relay_example_reached by blast
  with relay_phases [OF r] show ?thesis by (auto simp: phase_of_def)
qed

text \<open>C12. Closing a relay, after either stream of a relay that reads both has failed: the two close
  callbacks can run at once, and in every run that is defined, whatever else libuv delivers between
  them, there are at most two; before the second the relay is still allocated and the next one is
  defined; after it the relay, both handles and the connect request are freed, no stream, handle or
  callback is left, and of the relay's blocks exactly its two buffers are: \<open>free_tcp_relay_t\<close>
  leaks them.\<close>

theorem relay_closes:
  assumes "relay_reach t off fresh evs st" and "phase_of evs = Relaying" and "nread < 0"
    and "ev = Agent_Error nread \<or> ev = Dubbo_Error nread"
  shows "relay_steps t off fresh [ev, Handle_Closed, Handle_Closed] st \<noteq> None \<and>
    (\<forall>evs' st'. relay_steps t off fresh (ev # evs') st = Some st' \<longrightarrow>
       closed_in evs' \<le> 2 \<and>
       (closed_in evs' < 2 \<longrightarrow> relay st' \<noteq> None \<and> relay_step t off fresh Handle_Closed st' \<noteq> None) \<and>
       (closed_in evs' = 2 \<longrightarrow> relay st' = None \<and> connects st' = 0 \<and> streams st' = [] \<and> handles st' = [] \<and>
          closings st' = [] \<and> allocated st' = {Raw_Buf1, Raw_Buf2}))"
proof -
  have p: "in_phase Relaying st" using reach_phase [OF assms(1)] assms(2) by simp
  from error_closes [OF p assms(3,4)] obtain st1 where s1: "relay_step t off fresh ev st = Some st1" by blast
  from in_phase_step [OF p s1] assms(4) obtain d where c1: "in_phase (Closing1 d) st1" by auto
  have two: "relay_steps t off fresh [ev, Handle_Closed, Handle_Closed] st \<noteq> None"
    using closes [OF c1, of t off fresh] s1 by (auto simp del: relay_step.simps)
  have all: "closed_in evs' \<le> 2 \<and>
       (closed_in evs' < 2 \<longrightarrow> relay st' \<noteq> None \<and> relay_step t off fresh Handle_Closed st' \<noteq> None) \<and>
       (closed_in evs' = 2 \<longrightarrow> in_phase Gone st')"
    if "relay_steps t off fresh (ev # evs') st = Some st'" for evs' st'
  proof -
    have "relay_steps t off fresh evs' st1 = Some st'" using that s1 by simp
    from closing_run [OF c1 _ this] obtain ph n where n: "in_phase ph st'" "to_close ph = Some n" "2 = n + closed_in evs'"
      by auto
    have "ph = Gone" if "n = 0" using n(2) that by (cases ph) auto
    with n closing_goes_on [OF n(1,2), of t off fresh] show ?thesis by auto
  qed
  show ?thesis
    by (intro conjI allI impI two) (use all in \<open>auto simp: in_phase_def\<close>)
qed

theorem relay_closes_witness:
  "\<exists>st st'. relay_steps Plain (replicate 32 0) (replicate 4096 0) [Agent_Error (- 4095), Handle_Closed, Handle_Closed] st = Some st' \<and>
    relay st' = None \<and> handles st' = [] \<and> allocated st' = {Raw_Buf1, Raw_Buf2}"
proof -
  obtain st where r: "relay_reach Plain (replicate 32 0) (replicate 4096 0) [Dubbo_Connect 0] st"
    using relay_example_reached by blast
  have p: "phase_of [Dubbo_Connect 0] = Relaying" by (simp add: phase_of_def)
  have c: "closed_in [Handle_Closed, Handle_Closed] = 2" by (simp add: closed_in_def)
  note k = relay_closes [OF r p, of "- 4095" "Agent_Error (- 4095)"]
  have "(- 4095 :: int) < 0 \<and> (Agent_Error (- 4095) = Agent_Error (- 4095) \<or> Agent_Error (- 4095) = Dubbo_Error (- 4095))"
    by simp
  note k = k [OF conjunct1 [OF this] conjunct2 [OF this]]
  then obtain st' where
    s: "relay_steps Plain (replicate 32 0) (replicate 4096 0) [Agent_Error (- 4095), Handle_Closed, Handle_Closed] st = Some st'"
    by blast
  with k c have "relay st' = None \<and> handles st' = [] \<and> allocated st' = {Raw_Buf1, Raw_Buf2}" by blast
  with s show ?thesis by blast
qed

text \<open>A connect to Dubbo that fails is undefined in every reachable state that waits for one: the
  callback connects again, and that frees the handle of the failed connect, which libuv still has.\<close>

theorem failed_dubbo_connect:
  assumes "relay_reach t off fresh evs st" and "phase_of evs = Connecting" and "status \<noteq> 0"
  shows "connects st = 1 \<and> (\<exists>r c. relay st = Some r \<and> tcp_conn_2 r = Some c \<and> c \<in> set (handles st)) \<and>
    relay_step t off fresh (Dubbo_Connect status) st = None"
proof -
  have p: "in_phase Connecting st" using reach_phase [OF assms(1)] assms(2) by simp
  obtain r c where "relay st = Some r" "tcp_conn_2 r = Some c" "c \<in> set (handles st)" "connects st = 1"
    by (rule in_phaseE [OF p]) auto
  with failed_connect [OF p assms(3)] show ?thesis by blast
qed

theorem failed_dubbo_connect_witness:
  "\<exists>st. p_on_new_connection 0 True (replicate 4096 0) (replicate 4096 0) no_relay = Some st \<and>
    relay_step Plain (replicate 32 0) (replicate 4096 0) (Dubbo_Connect (- 111)) st = None"
proof -
  obtain st where s: "p_on_new_connection 0 True (replicate 4096 0) (replicate 4096 0) no_relay = Some st"
    using waiting_relay_start [of "replicate 4096 0" "replicate 4096 0"] by (auto simp: P_DEFAULT_PACKAGE_SIZE_def)
  have "phase_of [] = Connecting" by (simp add: phase_of_def)
  from failed_dubbo_connect [OF relay_reach.start [OF s, of Plain "replicate 32 0" "replicate 4096 0"] this, of "- 111"]
  have "relay_step Plain (replicate 32 0) (replicate 4096 0) (Dubbo_Connect (- 111)) st = None"
    by (simp del: relay_step.simps)
  with s show ?thesis by blast
qed

text \<open>C38. Both readers close the first connection on an error, without asking whether it is closing
  already: when Dubbo ends the second stream while the first is being closed after its own end, libuv
  still delivers that, and the handle is closed twice.\<close>

theorem relay_double_close:
  assumes "relay_reach t off fresh evs st" and "phase_of evs = Relaying" and "n < 0" and "m < 0"
  shows "\<exists>st1 r c. relay_step t off fresh (Agent_Error n) st = Some st1 \<and> relay st1 = Some r \<and> tcp_conn_2 r = Some c \<and>
    c \<in> set (streams st1) \<and> relay_step t off fresh (Dubbo_Error m) st1 = None"
proof -
  have p: "in_phase Relaying st" using reach_phase [OF assms(1)] assms(2) by simp
  from error_closes [OF p assms(3)] obtain st1 where s1: "relay_step t off fresh (Agent_Error n) st = Some st1" by blast
  from in_phase_step [OF p s1] have p1: "in_phase (Closing1 True) st1" by simp
  obtain c1 c2 r where c: "relay_of st1 c1 c2" "relay st1 = Some r" "tcp_conn_2 r = Some c2" "c1 \<noteq> c2"
    "set (streams st1) = {c2}" "set (handles st1) = {c2}"
    by (rule in_phaseE [OF p1]) auto
  then have "relay_step t off fresh (Dubbo_Error m) st1 = None"
    by (simp add: error_effect [OF c(1)] close_handle_eq del: relay_step.simps)
  with s1 c show ?thesis by blast
qed

theorem relay_double_close_witness:
  "\<exists>st st1. relay_step Plain (replicate 32 0) (replicate 4096 0) (Agent_Error (- 4095)) st = Some st1 \<and>
    relay_step Plain (replicate 32 0) (replicate 4096 0) (Dubbo_Error (- 4095)) st1 = None"
proof -
  obtain st where r: "relay_reach Plain (replicate 32 0) (replicate 4096 0) [Dubbo_Connect 0] st"
    using relay_example_reached by blast
  from relay_double_close [OF r, of "- 4095" "- 4095"] show ?thesis
    by (auto simp: phase_of_def simp del: relay_step.simps)
qed

end
