(* ===== verification/End_To_End.thy ===== *)
theory End_To_End
  imports Consumer_System Provider_Relay
begin

text \<open>
  The two agents together, on one request: what the consumer agent reads from its client goes to a
  provider agent as one frame, from there to Dubbo, and the response of Dubbo comes back the same way
  to the client that asked.
\<close>

lemma enc_request_frame: "enc_request (r, kvs) = agent_frame r (form_body kvs)"
  by (simp add: enc_request_def)

lemma http_frame_fits:
  assumes "dubbo_response_ok d" and "resp_status d = 20" and "0 \<le> sint (resp_id d)"
  shows "frame_fits (resp_id d, http_response (resp_hash d))"
proof -
  have h: "length (resp_hash d) < 100" using assms(1,2) by (auto simp: dubbo_response_ok_def resp_hash_def)
  then have "length (http_response (resp_hash d)) \<le> 200"
    by (simp add: http_response_def http_head_def crlf_def)
  then show ?thesis using assms(3) by (simp add: frame_fits_def enc_frame_def DEFAULT_RESPONSE_SIZE_def)
qed

lemma sent_can_take:
  assumes s: "request_sent p body st st1" and live: "dict_live st" and lb: "lb_ok (global_lb st)"
    and n: "\<forall>i < ends (global_lb st). 0 \<le> outstanding (global_lb st) i \<and> outstanding (global_lb st) i < 2 ^ 31 - 1"
    and h: "reqs st p = Some h" "client h = Some c" "length (response_package h) = DEFAULT_PACKAGE_SIZE"
  obtains i h' where "sent st1 = sent st @ [To_Agent i p (agent_frame (req_id (event_loop st)) body)]"
    "i < ends (global_lb st)" "can_take i [f] st1" "reqs st1 p = Some h'" "client h' = Some c"
    "http_req_dict (event_loop st1) ! slot (req_id (event_loop st)) = Some p"
    "outstanding (global_lb st1) i = outstanding (global_lb st) i + 1"
proof -
  let ?r = "req_id (event_loop st)" and ?d = "http_req_dict (event_loop st)"
  obtain h0 h' lb' ts i where r: "reqs st p = Some h0"
    "select_endpoint_time_based (global_lb st) (get_wall_time (times st 0)) = Some (lb', ts, int i)" "i < ends (global_lb st)"
    "global_lb st1 = lb'" "sent st1 = sent st @ [To_Agent i p (agent_frame ?r body)]"
    "event_loop st1 = (event_loop st)\<lparr>req_id := ?r + 2, http_req_dict := ?d[slot ?r := Some p]\<rparr>"
    "reqs st1 = (reqs st)(p \<mapsto> h')" "client h' = client h0" "response_package h' = response_package h0"
    using s unfolding request_sent_def by blast
  have "\<forall>i < ends (global_lb st). int_ok (outstanding (global_lb st) i + 1)"
    using n by (auto simp: int_ok_def)
  from lb.sel_some [OF lb this, of "get_wall_time (times st 0)"] r(2,3)
  have l: "lb_ok lb'" "ends lb' = ends (global_lb st)" "outstanding lb' i = outstanding (global_lb st) i + 1" by auto
  have d: "length ?d = HASH_SLOT_NUM" using live by (simp add: dict_live_def)
  have "dict_live st1"
    unfolding dict_live_def
  proof (intro conjI allI impI)
    show "length (http_req_dict (event_loop st1)) = HASH_SLOT_NUM" using d by (simp add: r(6))
  next
    fix q assume q: "Some q \<in> set (http_req_dict (event_loop st1))"
    show "\<exists>h c. reqs st1 q = Some h \<and> client h = Some c \<and> length (response_package h) = DEFAULT_PACKAGE_SIZE"
    proof (cases "q = p")
      case True
      then show ?thesis using r(1,7-9) h by simp
    next
      case False
      then have "Some q \<in> set ?d" using q set_update_subset_insert [of ?d "slot ?r" "Some p"] by (auto simp: r(6))
      then show ?thesis using live False by (auto simp: dict_live_def r(7))
    qed
  qed
  then have "can_take i [f] st1" using l r(3,4) n by (simp add: can_take_def)
  moreover have "http_req_dict (event_loop st1) ! slot ?r = Some p" using d slot_less [of ?r] by (simp add: r(6))
  ultimately show thesis using r(1,3-5,7,8) h l(3) that by simp
qed

text \<open>C1. One request, end to end: the client of a consumer agent sends an HTTP request with a form,
  in any reads that do not split the body off; the consumer agent picks a provider agent and sends it
  one frame. When that agent's relay gets the frame in any pieces, exactly the Dubbo request of the
  form goes to Dubbo; when Dubbo answers it successfully, in any pieces, exactly one frame goes back;
  and when the consumer agent gets that in any pieces, exactly the HTTP response with the hash goes to
  the client that asked, and the chosen agent has as many requests in flight as before.\<close>

theorem request_answered:
  assumes "parses phr_parse_request head (form_body kvs)" and "reqs st p = Some h" and "receiving h (head @ form_body kvs) 0"
    and "client h = Some c" and "length (response_package h) = DEFAULT_PACKAGE_SIZE"
    and "\<forall>x \<in> set cs. x \<noteq> []" and "concat cs @ final = head @ form_body kvs" and "length (concat cs) < length head"
    and "length head + length (form_body kvs) \<le> 8192"
    and "loop_ok st" and "dict_live st" and "lb_ok (global_lb st)"
    and "\<forall>i < ends (global_lb st). 0 \<le> outstanding (global_lb st) i \<and> outstanding (global_lb st) i < 2 ^ 31 - 1"
    and "0 \<le> sint (req_id (event_loop st))" and "request_ok (req_id (event_loop st), kvs)"
    and "fresh_relay rel" and "t \<noteq> BMI" and "length off = 32" and "length fresh = 4096"
    and "dubbo_response_ok d" and "resp_status d = 20" and "resp_id d = req_id (event_loop st)"
    and "\<forall>x \<in> set sch. 0 < snd x" and "length (enc_request (req_id (event_loop st), kvs)) \<le> reads_of From_Agent sch"
    and "length (enc_dubbo d) \<le> reads_of From_Dubbo sch"
    and "\<forall>k \<in> set ks. 0 < k" and "length (enc_frame (resp_id d, http_response (resp_hash d))) \<le> length ks"
    and "length buf0 = DEFAULT_RESPONSE_SIZE"
  shows "\<exists>st1 i frame1 rel' frame2 buf st2.
    read_chunks phr_parse_request p (cs @ [final]) st = Some st1 \<and> sent st1 = sent st @ [To_Agent i p frame1] \<and>
    exchange t off fresh sch (frame1, enc_dubbo d, rel) = Some ([], [], rel') \<and>
    to_dubbo rel' = to_dubbo rel @ [dubbo_frame (req_id (event_loop st)) kvs] \<and>
    to_consumer rel' = to_consumer rel @ [frame2] \<and>
    deliver_all (c_response_loop (int i)) ks (frame2, buf0, 0, st1) = Some ([], buf, 0, st2) \<and>
    sent st2 = sent st1 @ [To_Client c p (http_response (resp_hash d))] \<and>
    outstanding (global_lb st2) i = outstanding (global_lb st) i"
proof -
  let ?r = "req_id (event_loop st)" and ?f = "(resp_id d, http_response (resp_hash d))"
  have "\<forall>i < ends (global_lb st). int_ok (outstanding (global_lb st) i + 1)" using assms(13) by (auto simp: int_ok_def)
  moreover have "drop 0 (head @ form_body kvs) = concat cs @ final" "0 + length (concat cs) < length head"
    using assms(7,8) by simp_all
  ultimately obtain st1 where
    st1: "read_chunks phr_parse_request p (cs @ [final]) st = Some st1" "request_sent p (form_body kvs) st st1"
    using read_chunks_request [OF assms(1-3,6) _ _ assms(9,10,12) _ assms(14)] by blast
  obtain i h' where i: "sent st1 = sent st @ [To_Agent i p (agent_frame ?r (form_body kvs))]" "can_take i [?f] st1"
    "reqs st1 p = Some h'" "client h' = Some c" "http_req_dict (event_loop st1) ! slot ?r = Some p"
    "outstanding (global_lb st1) i = outstanding (global_lb st) i + 1"
    by (rule sent_can_take [OF st1(2) assms(11-13,2,4,5)])
  have ok: "\<forall>q \<in> set [(?r, kvs)]. request_ok q" "\<forall>r \<in> set [d]. dubbo_response_ok r" using assms(15,20) by simp_all
  from exchange_transfers [OF assms(17-19) ok assms(16), of sch] assms(21-25) obtain rel' where
    rel: "exchange t off fresh sch (agent_frame ?r (form_body kvs), enc_dubbo d, rel) = Some ([], [], rel')"
      "to_dubbo rel' = to_dubbo rel @ [dubbo_frame ?r kvs]" "to_consumer rel' = to_consumer rel @ [enc_frame ?f]"
    by (auto simp: enc_request_frame enc_frame_def)
  have fits: "\<forall>f \<in> set [?f]. frame_fits f" using http_frame_fits [OF assms(20,21)] assms(14,22) by simp
  from answers.stream_handled [OF fits i(2) assms(28), of ks] assms(26,27) obtain buf where
    dl: "deliver_all (c_response_loop (int i)) ks (enc_frame ?f, buf0, 0, st1) = Some ([], buf, 0, answered i ?f st1)"
    by auto
  have "sent (answered i ?f st1) = sent st1 @ [To_Client c p (http_response (resp_hash d))]"
    using i(3-5) assms(22) by (simp add: answered_reply reply_def)
  moreover have "outstanding (global_lb (answered i ?f st1)) i = outstanding (global_lb st) i"
    using answered_in_flight [OF i(2)] i(2,6) by (simp add: can_take_def)
  ultimately show ?thesis using st1(1) i(1) rel dl by blast
qed

definition head_form_example :: "byte list" where
  "head_form_example = bytes ''POST / HTTP/1.1'' @ [13, 10] @ bytes ''Content-Length: '' @ dec_nat 27 @ [13, 10, 13, 10]"

lemma head_form_parses: "parses (parse_header head_form_example 33) head_form_example (form_body form_example)"
proof -
  let ?pre = "bytes ''POST / HTTP/1.1'' @ [13, 10] @ bytes ''Content-Length: ''"
  have "length (form_body form_example) = 27" by (simp add: form_example_def)
  then have "head_form_example = ?pre @ dec_nat (length (form_body form_example)) @ 13 # [10, 13, 10]"
    by (simp add: head_form_example_def)
  moreover have "12 \<le> length head_form_example" by (simp add: head_form_example_def)
  moreover have "length ?pre = 33" by simp
  ultimately show ?thesis
    using parse_header_parses [of head_form_example ?pre "form_body form_example" 13 "[10, 13, 10]"] by (simp add: is_digit_def)
qed

theorem request_answered_witness:
  "\<exists>rel st1 i frame1 rel' frame2 buf st2.
    read_chunks (parse_header head_form_example 33) 7 [head_form_example @ form_body form_example] consumer_example = Some st1 \<and>
    sent st1 = [To_Agent i 7 frame1] \<and>
    exchange Plain (replicate 32 0) (replicate 4096 0) (replicate 100 (From_Agent, 1) @ replicate 100 (From_Dubbo, 1))
      (frame1, enc_dubbo (Dubbo_Response [0xda, 0xbb, 20] 20 6 ([49, 10] @ bytes ''42'' @ [10])), rel) = Some ([], [], rel') \<and>
    deliver_all (c_response_loop (int i)) (replicate 100 7) (frame2, replicate 4096 0, 0, st1) = Some ([], buf, 0, st2) \<and>
    sent st2 = sent st1 @ [To_Client 70 7 (http_response (bytes ''42''))]"
proof -
  let ?d = "Dubbo_Response [0xda, 0xbb, 20] 20 6 ([49, 10] @ bytes ''42'' @ [10])"
  let ?sch = "replicate 100 (From_Agent, 1) @ replicate 100 (From_Dubbo, 1)"
  obtain st0 where "waiting_relay st0"
    using waiting_relay_start [of "replicate 4096 0" "replicate 4096 0"] by (auto simp: P_DEFAULT_PACKAGE_SIZE_def)
  from waiting_relay_connects [OF this, of Plain "replicate 32 0" "replicate 4096 0"] obtain rel where
    rel: "fresh_relay rel" by blast
  have c: "client req_example = Some 70" "length (response_package req_example) = DEFAULT_PACKAGE_SIZE"
    by (simp_all add: req_example_def DEFAULT_PACKAGE_SIZE_def)
  have live: "dict_live consumer_example" by (simp add: dict_live_def consumer_example_def)
  have n: "\<forall>i < ends (global_lb consumer_example). 0 \<le> outstanding (global_lb consumer_example) i \<and>
      outstanding (global_lb consumer_example) i < 2 ^ 31 - 1"
    by (auto simp: consumer_example_facts lb_example_outstanding less_2_cases_iff)
  have l: "length head_form_example = 39" "head_form_example \<noteq> []" "length (form_body form_example) = 27"
    by (simp_all add: head_form_example_def form_example_def dec_nat.simps)
  have q: "request_ok (6, form_example)" using request_example by (simp add: request_ok_def enc_request_def length_dubbo_frame)
  have d: "dubbo_response_ok ?d" "length (enc_dubbo ?d) = 21" "resp_hash ?d = bytes ''42''"
    by (simp_all add: dubbo_response_ok_def enc_dubbo_def P_DEFAULT_PACKAGE_SIZE_def resp_hash_def)
  have sch: "reads_of From_Agent ?sch = 100" "reads_of From_Dubbo ?sch = 100"
    by (simp_all add: reads_of_def filter_replicate)
  have f: "length (enc_frame (resp_id ?d, http_response (resp_hash ?d))) \<le> 100"
    by (simp add: resp_hash_def enc_frame_def http_response_def http_head_def crlf_def min_def)
  have "\<exists>st1 i frame1 rel' frame2 buf st2.
    read_chunks (parse_header head_form_example 33) 7 ([] @ [head_form_example @ form_body form_example]) consumer_example = Some st1 \<and>
    sent st1 = sent consumer_example @ [To_Agent i 7 frame1] \<and>
    exchange Plain (replicate 32 0) (replicate 4096 0) ?sch (frame1, enc_dubbo ?d, rel) = Some ([], [], rel') \<and>
    to_dubbo rel' = to_dubbo rel @ [dubbo_frame (req_id (event_loop consumer_example)) form_example] \<and>
    to_consumer rel' = to_consumer rel @ [frame2] \<and>
    deliver_all (c_response_loop (int i)) (replicate 100 7) (frame2, replicate 4096 0, 0, st1) = Some ([], buf, 0, st2) \<and>
    sent st2 = sent st1 @ [To_Client 70 7 (http_response (resp_hash ?d))] \<and>
    outstanding (global_lb st2) i = outstanding (global_lb consumer_example) i"
    by (rule request_answered [OF head_form_parses consumer_example_facts(1,2) c])
       (use live n l q d(1,2) sch f rel consumer_example_facts(3-5) lb_example_ok in
         \<open>simp_all add: enc_request_def DEFAULT_RESPONSE_SIZE_def\<close>)
  then show ?thesis unfolding d(3) consumer_example_facts(6) append_Nil by blast
qed

end
