(* ===== verification/Buffer_Bounds.thy ===== *)
theory Buffer_Bounds
  imports Consumer_System Provider_Relay
begin

text \<open>
  What the agents hand to libuv to write into: in every reachable state, whatever bytes have arrived
  (well formed or not), the room the alloc callbacks offer lies inside the block it belongs to.
\<close>

section \<open>The relay of the provider agent\<close>

lemma length_memmove: "memmove m d s n = Some m' \<Longrightarrow> length m' = length m"
  by (auto simp: memmove_def bind_Some_iff dest: length_store)

lemma length_memset: "memset m a b n = Some m' \<Longrightarrow> length m' = length m"
  by (auto simp: memset_def bind_Some_iff dest: length_store)

lemma length_memcpy: "memcpy m d src s n = Some m' \<Longrightarrow> length m' = length m"
  by (auto simp: memcpy_def bind_Some_iff dest: length_store)

lemma length_split: "simd_split_efficient t m str len off = Some (n, off', m') \<Longrightarrow> length m' = length m"
  by (cases t) (auto simp: sse4_split_efficient_def avx_split_efficient_def bind_Some_iff
      dest!: length_memset length_memcpy)

lemma length_generate: "generate_res_in_place t off res m str len r = Some (n, res', m') \<Longrightarrow> length m' = length m"
  by (auto simp: generate_res_in_place_def bind_Some_iff dest: length_split)

lemma length_int_to_four_char: "int_to_four_char x m p = Some m' \<Longrightarrow> length m' = length m"
  by (auto simp: int_to_four_char_def bind_Some_iff dest!: length_wr)

text \<open>Taking a frame off never makes the held bytes more.\<close>

lemma to_size_nonneg: "0 \<le> to_size x"
  by (simp add: to_size_def)

lemma to_size_less: "0 \<le> n \<Longrightarrow> n < 2 ^ 64 \<Longrightarrow> \<not> n < to_size l \<Longrightarrow> 0 \<le> to_size (n - to_size l) \<and> to_size (n - to_size l) \<le> n"
  using to_size_nonneg [of l] by simp

definition shrinks :: "byte list \<Rightarrow> int \<Rightarrow> byte list \<times> int \<times> 'a \<Rightarrow> bool" where
  "shrinks buf n y \<longleftrightarrow> (0 \<le> n \<and> n < 2 ^ 64 \<longrightarrow>
     length (fst y) = length buf \<and> 0 \<le> fst (snd y) \<and> fst (snd y) \<le> n)"

lemma shrinks_refl: "shrinks buf n (buf, n, x)"
  by (simp add: shrinks_def)

lemma shrinks_step:
  assumes "shrinks buf1 (to_size (n - to_size l)) y" and "length buf1 = length buf" and "\<not> n < to_size l"
  shows "shrinks buf n y"
  using assms to_size_less [of n l] by (auto simp: shrinks_def)

lemma p_request_loop_shrinks:
  assumes "p_request_loop t off fresh buf n out = Some y"
  shows "shrinks buf n y"
proof (rule p_request_loop.raw_induct [where P = "\<lambda>_ _ _ buf n _ y. shrinks buf n y", OF _ assms], goal_cases)
  case (1 f t off fresh buf n out y)
  note IH = 1(1)
  from 1(2) consider "y = (buf, n, out)"
    | w req_id k res m local_buf m1 where "\<not> n < to_size (12 + sint w)"
      "generate_res_in_place t off fresh buf 12 (to_short (sint (w :: i32))) req_id = Some (k, res, m)"
      "memmove m 0 (12 + sint w) (to_size (n - to_size (12 + sint w))) = Some m1"
      "f t off fresh m1 (to_size (n - to_size (12 + sint w))) (out @ [local_buf]) = Some y"
    by (auto simp: bind_Some_iff guard_bind Let_def split: if_splits)
  then show ?case
  proof cases
    case 2
    have "length m1 = length buf" by (simp only: length_memmove [OF 2(3)] length_generate [OF 2(2)])
    with IH [OF 2(4)] show ?thesis using 2(1) by (rule shrinks_step)
  qed (simp add: shrinks_refl)
qed

lemma p_response_loop_shrinks:
  assumes "p_response_loop fresh buf n out = Some y"
  shows "shrinks buf n y"
proof (rule p_response_loop.raw_induct [where P = "\<lambda>_ buf n _ y. shrinks buf n y", OF _ assms], goal_cases)
  case (1 f fresh buf n out y)
  note IH = 1(1)
  from 1(2) consider "y = (buf, n, out)"
    | w m1 out1 where "\<not> n < to_size (16 + sint (w :: i32))"
      "memmove buf 0 (16 + sint w) (to_size (n - to_size (16 + sint w))) = Some m1"
      "f fresh m1 (to_size (n - to_size (16 + sint w))) out1 = Some y"
    by (auto simp: bind_Some_iff guard_bind Let_def split: if_splits)
  then show ?case
  proof cases
    case 2
    from IH [OF 2(3)] length_memmove [OF 2(2)] 2(1) show ?thesis by (rule shrinks_step)
  qed (simp add: shrinks_refl)
qed

definition relay_ok :: "relay_state \<Rightarrow> bool" where
  "relay_ok st \<longleftrightarrow> (\<forall>r. relay st = Some r \<longrightarrow> buffers_ok r)"

lemma relay_ok_connect:
  assumes "relay_ok st" and "connect_to_dubbo_long_live st = Some st'"
  shows "relay_ok st'"
proof -
  obtain r where "relay st = Some r" using assms(2) by (auto simp: connect_to_dubbo_long_live_def bind_Some_iff)
  with assms show ?thesis
    by (auto simp: connect_to_dubbo_long_live_def relay_ok_def buffers_ok_def Let_def bind_Some_iff)
qed

lemma relay_ok_close: "close_handle h cb st = Some st' \<Longrightarrow> relay_ok st' = relay_ok st"
  by (auto simp: close_handle_eq relay_ok_def split: if_splits)

lemma relay_ok_same: "relay st' = relay st \<Longrightarrow> relay_ok st' = relay_ok st"
  by (simp add: relay_ok_def)

lemma relay_ok_agent_read:
  assumes ok: "relay_ok st" and "relay_step t off fresh (Agent_Read bs) st = Some st'"
  shows "relay_ok st'"
proof -
  obtain r c b where r: "relay st = Some r" "bs \<noteq> []" "int (length bs) \<le> snd (p_alloc_buffer1 r)"
    "store (raw_buf1 r) (fst (p_alloc_buffer1 r)) bs = Some b" and
    p: "p_read_connection_data_http_req t off fresh (int (length bs)) (st\<lparr>relay := Some (r\<lparr>raw_buf1 := b\<rparr>)\<rparr>) = Some st'"
    using assms(2) by (auto simp: bind_Some_iff guard_bind case_prod_beta split: if_splits)
  have bo: "buffers_ok r" using ok r(1) by (simp add: relay_ok_def)
  let ?n = "to_size (raw_buf1_size r + int (length bs))"
  obtain buf n out where l: "p_request_loop t off fresh b ?n (to_dubbo st) = Some (buf, n, out)" and
    st': "relay st' = Some (r\<lparr>raw_buf1 := buf, raw_buf1_size := n\<rparr>)"
    using p r(2) by (auto simp: p_read_connection_data_http_req_def bind_Some_iff Let_def)
  have "length b = 4096" using length_store [OF r(4)] bo by (simp add: buffers_ok_def P_DEFAULT_PACKAGE_SIZE_def)
  moreover have "0 \<le> ?n \<and> ?n \<le> 4096"
    using bo r(3) by (auto simp: buffers_ok_def P_DEFAULT_PACKAGE_SIZE_def p_alloc_buffer1_def)
  ultimately have "length buf = 4096 \<and> 0 \<le> n \<and> n \<le> 4096"
    using p_request_loop_shrinks [OF l] by (auto simp: shrinks_def)
  then show ?thesis using bo by (simp add: relay_ok_def st' buffers_ok_def P_DEFAULT_PACKAGE_SIZE_def)
qed

lemma relay_ok_dubbo_read:
  assumes ok: "relay_ok st" and "relay_step t off fresh (Dubbo_Read bs) st = Some st'"
  shows "relay_ok st'"
proof -
  obtain r c b where r: "relay st = Some r" "bs \<noteq> []" "int (length bs) \<le> snd (p_alloc_buffer2 r)"
    "store (raw_buf2 r) (fst (p_alloc_buffer2 r)) bs = Some b" and
    p: "p_on_read_results fresh (int (length bs)) (st\<lparr>relay := Some (r\<lparr>raw_buf2 := b\<rparr>)\<rparr>) = Some st'"
    using assms(2) by (auto simp: bind_Some_iff guard_bind case_prod_beta split: if_splits)
  have bo: "buffers_ok r" using ok r(1) by (simp add: relay_ok_def)
  let ?n = "to_size (raw_buf2_size r + int (length bs))"
  obtain buf n out where l: "p_response_loop fresh b ?n (to_consumer st) = Some (buf, n, out)" and
    st': "relay st' = Some (r\<lparr>raw_buf2 := buf, raw_buf2_size := n\<rparr>)"
    using p r(2) by (auto simp: p_on_read_results_def bind_Some_iff Let_def)
  have "length b = 4096" using length_store [OF r(4)] bo by (simp add: buffers_ok_def P_DEFAULT_PACKAGE_SIZE_def)
  moreover have "0 \<le> ?n \<and> ?n \<le> 4096"
    using bo r(3) by (auto simp: buffers_ok_def P_DEFAULT_PACKAGE_SIZE_def p_alloc_buffer2_def)
  ultimately have "length buf = 4096 \<and> 0 \<le> n \<and> n \<le> 4096"
    using p_response_loop_shrinks [OF l] by (auto simp: shrinks_def)
  then show ?thesis using bo by (simp add: relay_ok_def st' buffers_ok_def P_DEFAULT_PACKAGE_SIZE_def)
qed

lemma relay_ok_step:
  assumes "relay_ok st" and "relay_step t off fresh ev st = Some st'"
  shows "relay_ok st'"
proof (cases ev)
  case (Dubbo_Connect status)
  then have "p_on_duboo_connect status (st\<lparr>connects := connects st - 1\<rparr>) = Some st'"
    using assms(2) by (auto simp: guard_bind split: if_splits)
  then consider "relay st' = relay st" | "connect_to_dubbo_long_live (st\<lparr>connects := connects st - 1\<rparr>) = Some st'"
    by (auto simp: p_on_duboo_connect_def bind_Some_iff split: if_splits)
  then show ?thesis
  proof cases
    case 2
    have "relay_ok (st\<lparr>connects := connects st - 1\<rparr>)" using assms(1) by (simp add: relay_ok_def)
    then show ?thesis using 2 by (rule relay_ok_connect)
  qed (use assms(1) relay_ok_same in blast)
next
  case (Agent_Read bs)
  then show ?thesis using assms relay_ok_agent_read by blast
next
  case (Dubbo_Read bs)
  then show ?thesis using assms relay_ok_dubbo_read by blast
next
  case (Agent_Error nread)
  then obtain c c' where "close_handle c Close_Connection1 (st\<lparr>streams := removeAll c' (streams st)\<rparr>) = Some st'"
    using assms(2) by (auto simp: p_read_connection_data_http_req_def bind_Some_iff guard_bind split: if_splits)
  then show ?thesis using assms(1) by (auto dest!: relay_ok_close simp: relay_ok_def)
next
  case (Dubbo_Error nread)
  then obtain c c' where "close_handle c Close_Connection1 (st\<lparr>streams := removeAll c' (streams st)\<rparr>) = Some st'"
    using assms(2) by (auto simp: p_on_read_results_def bind_Some_iff guard_bind split: if_splits)
  then show ?thesis using assms(1) by (auto dest!: relay_ok_close simp: relay_ok_def)
next
  case Handle_Closed
  then show ?thesis using assms
    by (auto simp: p_close_tcp_relay_connection1_def p_close_tcp_relay_connection2_def free_tcp_relay_t_def relay_ok_def
        bind_Some_iff Let_def close_handle_eq split: list.splits relay_cb.splits prod.splits if_splits)
qed

lemma relay_ok_start:
  assumes "p_on_new_connection 0 True fresh1 fresh2 no_relay = Some st"
  shows "relay_ok st"
proof -
  have "length fresh1 = P_DEFAULT_PACKAGE_SIZE" "length fresh2 = P_DEFAULT_PACKAGE_SIZE" and
    c: "connect_to_dubbo_long_live (bare_state fresh1 fresh2) = Some st"
    using assms by (simp_all add: new_relay split: if_splits)
  then have "relay_ok (bare_state fresh1 fresh2)" by (simp add: relay_ok_def buffers_ok_def bare_state_def bare_relay_def)
  then show ?thesis using c by (rule relay_ok_connect)
qed

lemma relay_reach_ok: "relay_reach t off fresh evs st \<Longrightarrow> relay_ok st"
  by (induction rule: relay_reach.induct) (auto intro: relay_ok_start relay_ok_step)

text \<open>C22. Where libuv may write, on the relay's side: whatever the two peers of a relay send, in every
  reachable state the relay's two buffers are blocks of 4096 bytes, the held bytes lie inside them and
  what the alloc callbacks (\<open>p_alloc_buffer1\<close>, \<open>p_alloc_buffer2\<close>) offer is exactly the rest of
  the block: a read cannot write past its end.\<close>

theorem relay_buffers:
  assumes "relay_reach t off fresh evs st" and "relay st = Some r"
  shows "buffers_ok r \<and>
    p_alloc_buffer1 r = (raw_buf1_size r, int (length (raw_buf1 r)) - raw_buf1_size r) \<and>
    p_alloc_buffer2 r = (raw_buf2_size r, int (length (raw_buf2 r)) - raw_buf2_size r) \<and>
    (\<forall>bs. int (length bs) \<le> snd (p_alloc_buffer1 r) \<longrightarrow> store (raw_buf1 r) (fst (p_alloc_buffer1 r)) bs \<noteq> None) \<and>
    (\<forall>bs. int (length bs) \<le> snd (p_alloc_buffer2 r) \<longrightarrow> store (raw_buf2 r) (fst (p_alloc_buffer2 r)) bs \<noteq> None)"
proof -
  have b: "buffers_ok r" using relay_reach_ok [OF assms(1)] assms(2) by (simp add: relay_ok_def)
  then have s: "to_size (4096 - raw_buf1_size r) = 4096 - raw_buf1_size r"
    "to_size (4096 - raw_buf2_size r) = 4096 - raw_buf2_size r"
    by (simp_all add: buffers_ok_def P_DEFAULT_PACKAGE_SIZE_def)
  show ?thesis using b s
    by (auto simp: buffers_ok_def P_DEFAULT_PACKAGE_SIZE_def p_alloc_buffer1_def p_alloc_buffer2_def store_def)
qed

theorem relay_buffers_witness:
  "\<exists>st r. relay_reach Plain (replicate 32 0) (replicate 4096 0) [Dubbo_Connect 0] st \<and>
    relay st = Some r \<and> buffers_ok r \<and> p_alloc_buffer1 r = (raw_buf1_size r, 4096 - raw_buf1_size r)"
proof -
  obtain st where r: "relay_reach Plain (replicate 32 0) (replicate 4096 0) [Dubbo_Connect 0] st"
    using relay_example_reached by blast
  have "in_phase Relaying st" using reach_phase [OF r] by (simp add: phase_of_def)
  then obtain x where "relay st = Some x" by (elim in_phaseE) simp_all
  with relay_buffers [OF r this] r show ?thesis by (auto simp: buffers_ok_def P_DEFAULT_PACKAGE_SIZE_def)
qed

section \<open>The requests of the consumer agent\<close>

definition req_ok :: "http_req \<Rightarrow> bool" where
  "req_ok h \<longleftrightarrow> length (raw_array h) = 8192 \<and> raw_array_max_size h = 8192 \<and> 0 \<le> raw_array_size h \<and>
     raw_array_size h \<le> 8192"

definition reqs_ok :: "consumer \<Rightarrow> bool" where
  "reqs_ok st \<longleftrightarrow> (\<forall>p h. reqs st p = Some h \<longrightarrow> req_ok h)"

lemma reqs_ok_set: "reqs_ok st \<Longrightarrow> req_ok h \<Longrightarrow> reqs_ok (set_req p h st)"
  by (simp add: reqs_ok_def)

lemma reqs_ok_same: "reqs_ok st \<Longrightarrow> reqs st' = reqs st \<Longrightarrow> reqs_ok st'"
  by (simp add: reqs_ok_def)

lemma req_ok_init: "init_http_req_t fresh raw package 8192 = Some h \<Longrightarrow> req_ok (h\<lparr>client := c\<rparr>)"
  by (auto simp: init_http_req_t_def guard_bind Let_def req_ok_def split: if_splits)

lemma reqs_ok_new:
  assumes "reqs_ok st" and "on_new_connection start_time status accepted p c fresh raw package st = Some (r, st')"
  shows "reqs_ok st'"
proof -
  have n: "DEFAULT_PACKAGE_SIZE * 2 = 8192" by (simp add: DEFAULT_PACKAGE_SIZE_def)
  consider "reqs st' = reqs st"
    | h st1 where "st' = set_req p (h\<lparr>client := Some c\<rparr>) st1" "reqs st1 = reqs st" "init_http_req_t fresh raw package 8192 = Some h"
    using assms(2) unfolding on_new_connection_def n
    by (auto simp: wall_time_def Let_def bind_Some_iff split: if_splits)
  then show ?thesis
  proof cases
    case 2
    from reqs_ok_same [OF assms(1) 2(2)] req_ok_init [OF 2(3)] show ?thesis unfolding 2(1) by (rule reqs_ok_set)
  qed (use assms(1) reqs_ok_same in blast)
qed

lemma reqs_ok_forward:
  assumes "reqs_ok st" and "length (raw_array h) = 8192" and "raw_array_max_size h = 8192"
    and "forward_request p h content st = Some st'"
  shows "reqs_ok st'"
proof -
  obtain ts raw1 raw2 where
    r: "int_to_four_char (word_of_int content) (raw_array h) (request_length h - 12) = Some raw1"
      "long_to_8bytes (req_id (event_loop st)) raw1 (request_length h - 8) = Some raw2" and
    st': "reqs st' = (reqs st)(p \<mapsto> h\<lparr>ts_req_beg := ts, http_req_id := req_id (event_loop st), raw_array := raw2,
      raw_array_size := 0, request_length := - 1\<rparr>)"
    using assms(4)
    by (auto simp: forward_request_def wall_time_def send_to_provider_agent_def Let_def bind_Some_iff guard_bind split: if_splits)
  have "length raw2 = 8192"
    using assms(2) r(2) length_int_to_four_char [OF r(1)]
    by (auto simp: long_to_8bytes_store dest: length_store)
  then show ?thesis using assms(1,3) by (simp add: reqs_ok_def st' req_ok_def)
qed

lemma reqs_ok_read_chunk:
  assumes ok: "reqs_ok st" and "read_chunk phr p bs st = Some st'"
  shows "reqs_ok st'"
proof -
  obtain h raw where h: "reqs st p = Some h" "bs \<noteq> []" "int (length bs) \<le> snd (alloc_buffer h)"
    "store (raw_array h) (fst (alloc_buffer h)) bs = Some raw" and
    c: "c_read_connection_data phr p (int (length bs)) (set_req p (h\<lparr>raw_array := raw\<rparr>) st) = Some st'"
    using assms(2) unfolding read_chunk_def
    by (auto simp: bind_Some_iff guard_bind Let_def case_prod_beta simp del: split_paired_All split: if_splits)
  have b: "req_ok h" using ok h(1) by (simp add: reqs_ok_def)
  have raw: "length raw = 8192" using length_store [OF h(4)] b by (simp add: req_ok_def)
  let ?n = "to_size (raw_array_size h + int (length bs))"
  have n: "0 \<le> ?n \<and> ?n \<le> 8192" using b h(3) by (auto simp: req_ok_def alloc_buffer_def)
  let ?st = "set_req p (h\<lparr>raw_array := raw\<rparr>) st"
  have st: "reqs_ok ?st" using ok b raw by (simp add: reqs_ok_def req_ok_def)
  consider (fill) h' where "st' = set_req p h' ?st" "req_ok h'"
    | (send) h0 content where "forward_request p h0 content ?st = Some st'" "length (raw_array h0) = 8192"
        "raw_array_max_size h0 = 8192"
    using c h(2) n b raw
    by (auto simp: c_read_connection_data_def req_ok_def Let_def bind_Some_iff guard_bind split: if_splits prod.splits)
  then show ?thesis
  proof cases
    case fill
    then show ?thesis using st reqs_ok_set by blast
  next
    case send
    then show ?thesis using st reqs_ok_forward by blast
  qed
qed

lemma reqs_ok_response:
  assumes "reqs_ok st" and "handle_response w raw len r st = Some st'"
  shows "reqs_ok st'"
proof -
  consider "reqs st' = reqs st" | h p package where "reqs st p = Some h"
      "reqs st' = (reqs st)(p \<mapsto> h\<lparr>response_package := package\<rparr>)"
    using assms(2) by (force simp: handle_response_def wall_time_def Let_def bind_Some_iff split: option.split_asm)
  then show ?thesis
  proof cases
    case 2
    then show ?thesis using assms(1) by (auto simp: reqs_ok_def req_ok_def)
  qed (use assms(1) reqs_ok_same in blast)
qed

lemma reqs_ok_close: "reqs_ok st \<Longrightarrow> close_cb p st = Some st' \<Longrightarrow> reqs_ok st'"
  by (auto simp: close_cb_def free_http_req_def bind_Some_iff guard_bind reqs_ok_def split: if_splits)

lemma reqs_ok_step:
  assumes "reqs_ok st" and "c_step phr start_time e st = Some st'"
  shows "reqs_ok st'"
proof (cases e)
  case New_Connection
  then show ?thesis using assms by (auto simp: guard_bind bind_Some_iff split: if_splits intro: reqs_ok_new)
next
  case Read
  then show ?thesis using assms by (auto simp: guard_bind split: if_splits intro: reqs_ok_read_chunk)
next
  case Read_Error
  then show ?thesis using assms reqs_ok_same
    by (auto simp: guard_bind split: if_splits dest!: read_error_inv)
next
  case Closed
  then show ?thesis using assms by (auto intro: reqs_ok_close)
next
  case Dummy_Read
  then show ?thesis using assms
    by (auto simp: c_dummy_read_connection_data_def guard_bind split: if_splits intro: reqs_ok_same)
next
  case Response
  then show ?thesis using assms by (auto intro: reqs_ok_response)
qed

definition all_ok :: "agent \<Rightarrow> bool" where
  "all_ok ag \<longleftrightarrow> (\<forall>st \<in> set (loops ag). reqs_ok st)"

lemma all_ok_update: "all_ok ag \<Longrightarrow> reqs_ok st \<Longrightarrow> loops ag' = (loops ag)[t := st] \<Longrightarrow> all_ok ag'"
  using set_update_subset_insert [of "loops ag" t st] by (auto simp: all_ok_def)

lemma all_ok_loop: "all_ok ag \<Longrightarrow> t < length (loops ag) \<Longrightarrow> reqs_ok (loops ag ! t)"
  by (simp add: all_ok_def)

lemma all_ok_step:
  assumes ok: "all_ok ag" and "agent_step phr start_time ev ag = Some (Inr ag')"
  shows "all_ok ag'"
proof (cases ev)
  case (Loop t e)
  then obtain st where t: "t < length (loops ag)" "c_step phr start_time e (with_shared ag t) = Some st"
    "ag' = put_loop ag t st"
    using assms(2) by (auto simp: bind_Some_iff guard_bind simp del: c_step.simps split: if_splits)
  have "reqs_ok (with_shared ag t)" using all_ok_loop [OF ok t(1)] by (simp add: with_shared_def reqs_ok_def)
  then have "reqs_ok st" using t(2) by (rule reqs_ok_step)
  with ok show ?thesis by (rule all_ok_update) (simp add: t(3) put_loop_def)
next
  case (Net t e)
  obtain r :: "int + net" where t: "t < length (loops ag)" and
    r: "(case r of Inl c \<Rightarrow> Some (Inl c) | Inr nt \<Rightarrow> Some (Inr (ag\<lparr>nets := (nets ag)[t := nt],
         loops := (loops ag)[t := (loops ag ! t)\<lparr>event_loop := srv nt\<rparr>]\<rparr>))) = Some (Inr ag')"
    using assms(2) by (auto simp: Net bind_Some_iff guard_bind simp del: net_step.simps split: if_splits)
  obtain nt :: net where l: "loops ag' = (loops ag)[t := (loops ag ! t)\<lparr>event_loop := srv nt\<rparr>]"
    using r by (cases r) auto
  have "reqs_ok ((loops ag ! t)\<lparr>event_loop := srv nt\<rparr>)" using all_ok_loop [OF ok t(1)] by (simp add: reqs_ok_def)
  with ok show ?thesis by (rule all_ok_update) (rule l)
qed

lemma all_ok_loops:
  "start_loops fresh_raw fresh n lb tids = Some ls \<Longrightarrow> \<forall>st \<in> set (map snd ls). reqs_ok st"
  by (induction tids arbitrary: ls) (auto simp: bind_Some_iff start_loop_def reqs_ok_def)

lemma all_ok_start: "start_agent fresh_raw fresh gettimeofday etcd_result = Some (Inr ag) \<Longrightarrow> all_ok ag"
proof -
  assume "start_agent fresh_raw fresh gettimeofday etcd_result = Some (Inr ag)"
  then obtain r :: "int + (endpoint list \<times> load_balancer)" where r: "(case r of Inl c \<Rightarrow> Some (Inl c)
     | Inr (es, lb) \<Rightarrow> do {
         ls \<leftarrow> start_loops fresh_raw fresh (int (length es)) lb [0..<EVENT_LOOP_NUM];
         Some (Inr \<lparr>loops = map snd ls, nets = map fst ls, endpoints = es, shared_lb = lb, shared_conns = 0,
           clock = gettimeofday\<rparr>) }) = Some (Inr ag)"
    by (auto simp: start_agent_def bind_Some_iff)
  then show ?thesis by (cases r) (auto simp: bind_Some_iff all_ok_def dest!: all_ok_loops bspec)
qed

lemma all_ok_reach: "agent_reach phr start_time evs ag \<Longrightarrow> all_ok ag"
  by (induction rule: agent_reach.induct) (auto intro: all_ok_start all_ok_step simp del: agent_step.simps)

text \<open>C21. Where libuv may write, on the consumer's side: whatever consumers and provider agents send,
  in every reachable state of the consumer agent each request's block has 8192 bytes, the held bytes
  lie inside it and what \<open>alloc_buffer\<close> offers is exactly the rest of the block: a read cannot write
  past its end, whatever length the request announces.\<close>

theorem request_buffers:
  assumes "agent_reach phr start_time evs ag" and "t < length (loops ag)" and "reqs (loops ag ! t) p = Some h"
  shows "length (raw_array h) = 8192 \<and> 0 \<le> raw_array_size h \<and> raw_array_size h \<le> 8192 \<and>
    alloc_buffer h = (raw_array_size h, int (length (raw_array h)) - raw_array_size h) \<and>
    (\<forall>bs. int (length bs) \<le> snd (alloc_buffer h) \<longrightarrow> store (raw_array h) (fst (alloc_buffer h)) bs \<noteq> None)"
proof -
  have b: "req_ok h" using all_ok_loop [OF all_ok_reach [OF assms(1)] assms(2)] assms(3) by (simp add: reqs_ok_def)
  then have "to_size (8192 - raw_array_size h) = 8192 - raw_array_size h" by (simp add: req_ok_def)
  with b show ?thesis by (auto simp: req_ok_def alloc_buffer_def store_def)
qed

theorem request_buffers_witness:
  "reqs (loops connected_example ! 0) 7 = Some req_example \<and> alloc_buffer req_example = (0, 8192)"
proof -
  have r: "0 < length (loops connected_example)" "reqs (loops connected_example ! 0) 7 = Some req_example"
    by (simp_all add: connected_example_def)
  from request_buffers [OF connected_example_reached r] r(2) show ?thesis by (simp add: req_example_def)
qed

end
