(* ===== verification/Provider_Start.thy ===== *)
theory Provider_Start
  imports Discovery Provider_Relay
begin

text \<open>
  How the provider agent starts (\<open>provider_agent.c\<close>): \<open>init_provider\<close> asks for its own
  address, \<open>on_resolved\<close> registers it with etcd, \<open>test_dubbo_connection\<close> connects to Dubbo
  until it accepts, and when libuv has nothing left to do in the main loop the event loops start to
  listen. The state is what libuv has pending in the main loop, and the puts made. Freeing a handle
  libuv has, open or being closed, is undefined. The callback of each test does just that, so the
  defined runs end with the first test: what the code does then is modelled, the result is undefined.
  An \<open>Inl\<close> is an exit of the process.
\<close>

definition P_EVENT_LOOP_NUM :: nat where "P_EVENT_LOOP_NUM = 2"

record p_tcp_server =
  p_tid :: nat
  p_reuse_port :: bool
  p_no_delay :: bool
  p_bound_port :: "int option"
  p_listening :: bool

record boot =
  scale :: byte
  lookups :: nat
  tests :: "handle list"
  test_handles :: "handle list"
  test_closings :: "handle list"
  test_next :: nat
  etcd_puts :: "(byte list option \<times> int) list"

section \<open>The code\<close>

definition init_provider :: "byte list \<Rightarrow> int \<Rightarrow> int + boot" where
  "init_provider provider_type r = (case provider_scale provider_type of Inl c \<Rightarrow> Inl c
     | Inr c \<Rightarrow>
         if r \<noteq> 0 then Inl (- 1)
         else Inr \<lparr>scale = c, lookups = 1, tests = [], test_handles = [], test_closings = [], test_next = 0,
           etcd_puts = []\<rparr>)"

definition test_dubbo_connection :: "boot \<Rightarrow> boot" where
  "test_dubbo_connection st = (let dubbo_socket = test_next st in
     st\<lparr>test_next := test_next st + 1, test_handles := dubbo_socket # test_handles st, tests := tests st @ [dubbo_socket]\<rparr>)"

text \<open>\<open>free\<close> of the handle of the connection.\<close>

definition free_test_handle :: "handle \<Rightarrow> boot \<Rightarrow> boot option" where
  "free_test_handle h st = do { guard (h \<notin> set (test_handles st) \<and> h \<notin> set (test_closings st)); Some st }"

definition p_on_duboo_connect_test_cb :: "handle \<Rightarrow> int \<Rightarrow> boot \<Rightarrow> boot option" where
  "p_on_duboo_connect_test_cb h status st = do {
     st \<leftarrow> (if status = 0 then do {
              guard (h \<in> set (test_handles st));
              Some (st\<lparr>test_handles := removeAll h (test_handles st), test_closings := test_closings st @ [h]\<rparr>) }
            else Some (test_dubbo_connection st));
     free_test_handle h st }"

text \<open>
  The end of \<open>on_resolved\<close>, after what \<open>Discovery\<close> has of it: the code does not look at
  the lease or at what the put returned.
\<close>

definition after_resolved :: "int + byte list option \<times> int \<Rightarrow> boot \<Rightarrow> int + boot" where
  "after_resolved r st = (case r of Inl c \<Rightarrow> Inl c
     | Inr l \<Rightarrow> Inr (test_dubbo_connection (st\<lparr>etcd_puts := etcd_puts st @ [l]\<rparr>)))"

definition init_p_tcp_server_t :: "nat \<Rightarrow> p_tcp_server" where
  "init_p_tcp_server_t tid =
     \<lparr>p_tid = tid, p_reuse_port = False, p_no_delay = False, p_bound_port = None, p_listening = False\<rparr>"

text \<open>\<open>r\<close> is the result of \<open>uv_listen\<close>; those of the calls before it are not looked at by the code, which are taken to succeed.\<close>

definition p_start_listen :: "int \<Rightarrow> int \<Rightarrow> p_tcp_server \<Rightarrow> int + p_tcp_server" where
  "p_start_listen server_port r p_tcp_server = (
     let p_tcp_server = p_tcp_server\<lparr>p_reuse_port := True\<rparr>;
         p_tcp_server = p_tcp_server\<lparr>p_no_delay := True\<rparr>;
         p_tcp_server = p_tcp_server\<lparr>p_bound_port := Some server_port\<rparr>
     in if r \<noteq> 0 then Inl (- 1) else Inr (p_tcp_server\<lparr>p_listening := True\<rparr>))"

definition p_start_work_event_loop :: "int \<Rightarrow> int \<Rightarrow> p_tcp_server \<Rightarrow> int + p_tcp_server" where
  "p_start_work_event_loop server_port r p_tcp_server = p_start_listen server_port r p_tcp_server"

text \<open>The threads of \<open>provider\<close>, from what \<open>uv_listen\<close> returns in each of them.\<close>

fun start_workers :: "int \<Rightarrow> int list \<Rightarrow> p_tcp_server list \<Rightarrow> int + p_tcp_server list" where
  "start_workers server_port (r # rs) (s # ss) = (case p_start_work_event_loop server_port r s of Inl c \<Rightarrow> Inl c
     | Inr s \<Rightarrow> (case start_workers server_port rs ss of Inl c \<Rightarrow> Inl c | Inr ss \<Rightarrow> Inr (s # ss)))"
| "start_workers _ _ _ = Inr []"

text \<open>The main loop runs while libuv has anything pending.\<close>

definition main_loop_alive :: "boot \<Rightarrow> bool" where
  "main_loop_alive st \<longleftrightarrow> lookups st \<noteq> 0 \<or> tests st \<noteq> [] \<or> test_closings st \<noteq> []"

text \<open>The rest of \<open>provider\<close>, once \<open>uv_run\<close> has returned.\<close>

definition provider_workers :: "int \<Rightarrow> int list \<Rightarrow> boot \<Rightarrow> (int + p_tcp_server list) option" where
  "provider_workers server_port rs st = do {
     guard (\<not> main_loop_alive st \<and> length rs = P_EVENT_LOOP_NUM);
     Some (start_workers server_port rs (map init_p_tcp_server_t [0..<P_EVENT_LOOP_NUM])) }"

section \<open>The main loop\<close>

text \<open>
  What libuv may deliver: the address, a connect that was tested, the end of a close. \<open>resolve\<close>
  is \<open>on_resolved\<close> with everything but the scale, the status and the address.
\<close>

datatype boot_event = Resolved int "byte list" | Test_Connect handle int | Test_Closed handle

fun boot_step ::
  "(byte \<Rightarrow> int \<Rightarrow> byte list \<Rightarrow> (int + byte list option \<times> int) option) \<Rightarrow> boot_event \<Rightarrow> boot \<Rightarrow> (int + boot) option" where
  "boot_step resolve (Resolved status addr) st = do {
     guard (lookups st \<noteq> 0);
     r \<leftarrow> resolve (scale st) status addr;
     Some (after_resolved r (st\<lparr>lookups := lookups st - 1\<rparr>)) }"
| "boot_step resolve (Test_Connect h status) st = do {
     guard (h \<in> set (tests st));
     map_option Inr (p_on_duboo_connect_test_cb h status (st\<lparr>tests := removeAll h (tests st)\<rparr>)) }"
| "boot_step resolve (Test_Closed h) st = do {
     guard (h \<in> set (test_closings st));
     Some (Inr (st\<lparr>test_closings := removeAll h (test_closings st)\<rparr>)) }"

inductive boot_reach ::
  "(byte \<Rightarrow> int \<Rightarrow> byte list \<Rightarrow> (int + byte list option \<times> int) option) \<Rightarrow> byte list \<Rightarrow> boot_event list \<Rightarrow> boot \<Rightarrow> bool"
  for resolve provider_type where
  start: "init_provider provider_type 0 = Inr st \<Longrightarrow> boot_reach resolve provider_type [] st"
| step: "boot_reach resolve provider_type evs st \<Longrightarrow> boot_step resolve ev st = Some (Inr st') \<Longrightarrow>
    boot_reach resolve provider_type (evs @ [ev]) st'"

section \<open>Its phases\<close>

text \<open>The address is looked up; or it was, one put was made, and the first connect is tested.\<close>

definition boot_inv ::
  "(byte \<Rightarrow> int \<Rightarrow> byte list \<Rightarrow> (int + byte list option \<times> int) option) \<Rightarrow> boot_event list \<Rightarrow> boot \<Rightarrow> bool" where
  "boot_inv resolve evs st \<longleftrightarrow> test_closings st = [] \<and>
     (evs = [] \<and> lookups st = 1 \<and> tests st = [] \<and> test_handles st = [] \<and> etcd_puts st = [] \<or>
      (\<exists>status addr l h. evs = [Resolved status addr] \<and> resolve (scale st) status addr = Some (Inr l) \<and>
         lookups st = 0 \<and> etcd_puts st = [l] \<and> tests st = [h] \<and> test_handles st = [h] \<and> h < test_next st))"

lemma boot_inv_start: "init_provider provider_type 0 = Inr st \<Longrightarrow> boot_inv resolve [] st"
  by (auto simp: init_provider_def boot_inv_def split: sum.splits)

text \<open>The callback of a test is undefined, whether the connect succeeded or not.\<close>

lemma test_undefined:
  assumes "test_handles st = [h]" and "h < test_next st"
  shows "p_on_duboo_connect_test_cb h status st = None"
  using assms by (simp add: p_on_duboo_connect_test_cb_def free_test_handle_def test_dubbo_connection_def Let_def guard_bind)

lemma boot_inv_step:
  assumes inv: "boot_inv resolve evs st" and "boot_step resolve ev st = Some (Inr st')"
  shows "boot_inv resolve (evs @ [ev]) st'"
proof (cases ev)
  case (Resolved status addr)
  then obtain r where r: "lookups st \<noteq> 0" "resolve (scale st) status addr = Some r"
    "after_resolved r (st\<lparr>lookups := lookups st - 1\<rparr>) = Inr st'"
    using assms(2) by (auto simp: guard_bind bind_Some_iff split: if_splits)
  then obtain l where "r = Inr l" "st' = test_dubbo_connection (st\<lparr>lookups := lookups st - 1, etcd_puts := etcd_puts st @ [l]\<rparr>)"
    by (auto simp: after_resolved_def split: sum.splits)
  with inv r(1,2) show ?thesis by (auto simp: boot_inv_def test_dubbo_connection_def Let_def Resolved)
next
  case (Test_Connect h status)
  then have "h \<in> set (tests st)" and
    cb: "p_on_duboo_connect_test_cb h status (st\<lparr>tests := removeAll h (tests st)\<rparr>) = Some st'"
    using assms(2) by (auto simp: guard_bind split: if_splits)
  then have "test_handles st = [h]" "h < test_next st" using inv by (auto simp: boot_inv_def)
  with cb show ?thesis by (simp add: test_undefined)
next
  case (Test_Closed h)
  with assms show ?thesis by (auto simp: boot_inv_def guard_bind split: if_splits)
qed

lemma boot_reach_inv: "boot_reach resolve provider_type evs st \<Longrightarrow> boot_inv resolve evs st"
  by (induction rule: boot_reach.induct) (auto intro: boot_inv_start boot_inv_step)

lemma boot_reach_scale:
  "boot_reach resolve provider_type evs st \<Longrightarrow> provider_scale provider_type = Inr (scale st)"
proof (induction rule: boot_reach.induct)
  case (start st)
  then show ?case by (auto simp: init_provider_def split: sum.splits)
next
  case (step evs st ev st')
  have "scale st' = scale st"
  proof (cases ev)
    case (Resolved status addr)
    then obtain r where "after_resolved r (st\<lparr>lookups := lookups st - 1\<rparr>) = Inr st'"
      using step.hyps(2) by (auto simp: guard_bind bind_Some_iff split: if_splits)
    then show ?thesis by (cases r) (auto simp: after_resolved_def test_dubbo_connection_def Let_def)
  qed (use step.hyps(2) in \<open>auto simp: guard_bind bind_Some_iff test_dubbo_connection_def Let_def
        p_on_duboo_connect_test_cb_def free_test_handle_def split: if_splits\<close>)
  with step.IH show ?case by simp
qed

lemma start_workers_all:
  "length rs = length ss \<Longrightarrow> start_workers port rs ss =
    (if \<forall>r \<in> set rs. r = 0
     then Inr (map (\<lambda>s. s\<lparr>p_reuse_port := True, p_no_delay := True, p_bound_port := Some port, p_listening := True\<rparr>) ss)
     else Inl (- 1))"
  by (induction rs ss rule: list_induct2) (auto simp: p_start_work_event_loop_def p_start_listen_def)

section \<open>Properties\<close>

text \<open>A thread that listens, on the port all of them share.\<close>

definition worker :: "int \<Rightarrow> nat \<Rightarrow> p_tcp_server" where
  "worker port i = \<lparr>p_tid = i, p_reuse_port = True, p_no_delay = True, p_bound_port = Some port, p_listening = True\<rparr>"

text \<open>Once the main loop has nothing to do, all loops listen on the same port, or the process ends.\<close>

lemma workers_listen:
  assumes "\<not> main_loop_alive st" and "length rs = P_EVENT_LOOP_NUM"
  shows "provider_workers port rs st = Some (if \<forall>r \<in> set rs. r = 0
    then Inr (map (worker port) [0..<P_EVENT_LOOP_NUM]) else Inl (- 1))"
  using assms by (simp add: provider_workers_def start_workers_all init_p_tcp_server_t_def worker_def guard_bind)

text \<open>C15. The start of the provider agent (\<open>init_provider\<close>, \<open>on_resolved\<close>,
  \<open>test_dubbo_connection\<close>, \<open>provider\<close>): every defined run of its main loop is a prefix of
  this one. Its address is looked up; it resolves, and the agent makes one put, of the key of its scale,
  that address and its port, under the lease it was granted, whatever the put returns; then one connect
  to Dubbo is tested. The loops are not started before that, and the callback of the test is undefined
  whether Dubbo accepted or not: it frees the handle it connected with, which libuv has, closing or open.\<close>

theorem provider_start:
  assumes "boot_reach (\<lambda>c status addr. on_resolved curl_easy_perform jsmn_parse b64_encode fresh etcd_url status addr c server_port)
    provider_type evs st"
  shows "provider_scale provider_type = Inr (scale st) \<and> main_loop_alive st \<and> provider_workers server_port rs st = None \<and>
    (evs = [] \<and> lookups st = 1 \<and> tests st = [] \<and> etcd_puts st = [] \<or>
     (\<exists>addr lease key r h. evs = [Resolved 0 addr] \<and>
        etcd_grant curl_easy_perform jsmn_parse fresh etcd_url P_DEFAULT_LEASE_TTL = Some (Some lease) \<and>
        provider_key (scale st) addr server_port = Some key \<and>
        etcd_put curl_easy_perform b64_encode etcd_url key (Some lease) = Some r \<and>
        lookups st = 0 \<and> etcd_puts st = [(Some lease, r)] \<and> tests st = [h] \<and> test_handles st = [h] \<and>
        (\<forall>status. boot_step resolve (Test_Connect h status) st = None)))"
proof -
  note inv = boot_reach_inv [OF assms]
  from inv have a: "main_loop_alive st" by (auto simp: boot_inv_def main_loop_alive_def)
  have n: "etcd_put curl_easy_perform b64_encode etcd_url key None = None" for key
    by (cases "full_url (etcd_url @ bytes ''/v3alpha/kv/put'')") (simp_all add: etcd_put_def)
  have "\<exists>addr lease key r h. evs = [Resolved 0 addr] \<and>
        etcd_grant curl_easy_perform jsmn_parse fresh etcd_url P_DEFAULT_LEASE_TTL = Some (Some lease) \<and>
        provider_key (scale st) addr server_port = Some key \<and>
        etcd_put curl_easy_perform b64_encode etcd_url key (Some lease) = Some r \<and>
        lookups st = 0 \<and> etcd_puts st = [(Some lease, r)] \<and> tests st = [h] \<and> test_handles st = [h] \<and>
        (\<forall>status. boot_step resolve (Test_Connect h status) st = None)"
    if ne: "evs \<noteq> []"
  proof -
    obtain status addr l h where e: "evs = [Resolved status addr]"
      "on_resolved curl_easy_perform jsmn_parse b64_encode fresh etcd_url status addr (scale st) server_port = Some (Inr l)"
      "lookups st = 0" "etcd_puts st = [l]" "tests st = [h]" "test_handles st = [h]" "h < test_next st"
      using inv ne by (auto simp: boot_inv_def)
    obtain lease key r where o: "status = 0" "etcd_grant curl_easy_perform jsmn_parse fresh etcd_url P_DEFAULT_LEASE_TTL = Some (Some lease)"
      "provider_key (scale st) addr server_port = Some key"
      "etcd_put curl_easy_perform b64_encode etcd_url key (Some lease) = Some r" "l = (Some lease, r)"
    proof -
      from e(2) obtain le key r where "status = 0" "etcd_grant curl_easy_perform jsmn_parse fresh etcd_url P_DEFAULT_LEASE_TTL = Some le"
        "provider_key (scale st) addr server_port = Some key"
        "etcd_put curl_easy_perform b64_encode etcd_url key le = Some r" "l = (le, r)"
        by (auto simp: on_resolved_def bind_Some_iff guard_bind split: if_splits)
      with n that show thesis by (cases le) auto
    qed
    have "boot_step resolve (Test_Connect h status) st = None" for status
      using e(5-7) by (simp add: test_undefined guard_bind)
    with e o show ?thesis by blast
  qed
  with inv a boot_reach_scale [OF assms] show ?thesis
    by (auto simp: boot_inv_def provider_workers_def guard_bind)
qed

text \<open>One run: the lease 7 is granted, the put is made.\<close>

definition curl_example :: curl where
  "curl_example url body = (CURLE_OK, [[34, 73, 68, 34, 58, 34, 55, 34]])"

definition jsmn_example :: jsmn where
  "jsmn_example json cap = (2, [\<lparr>tok_type = JSMN_STRING, tok_start = 1, tok_end = 3\<rparr>,
     \<lparr>tok_type = JSMN_STRING, tok_start = 6, tok_end = 7\<rparr>])"

lemma boot_example_resolves:
  "on_resolved curl_example jsmn_example (\<lambda>s. s) (\<lambda>n. replicate n 7) (bytes ''http://etcd'') 0 (bytes ''10.0.0.7'') 48 30000 =
    Some (Inr (Some [55], 0))"
proof -
  have g: "etcd_grant curl_example jsmn_example (\<lambda>n. replicate n 7) (bytes ''http://etcd'') 600 = Some (Some [55])"
    using etcd_grant_lease_witness unfolding curl_example_def [abs_def] jsmn_example_def [abs_def] .
  have ok: "provider_ok (48, bytes ''10.0.0.7'', 30000)" by (simp add: provider_ok_def bytes_def slash_def colon_def)
  have "length (dec_int 30000) = 5" by (simp add: dec_int_def dec_nat.simps)
  then have "length (key_of (48, bytes ''10.0.0.7'', 30000)) < 200" by (simp add: key_of_def etcd_prefix_def)
  then have "etcd_put curl_example (\<lambda>s. s) (bytes ''http://etcd'') (key_of (48, bytes ''10.0.0.7'', 30000)) (Some [55]) = Some 0"
    by (simp add: etcd_put_def full_url_def guard_bind curl_example_def CURLE_OK_def)
  then show ?thesis
    using g provider_key_some [OF ok refl] by (simp add: on_resolved_def P_DEFAULT_LEASE_TTL_def guard_bind)
qed

theorem provider_start_witness:
  "\<exists>st h. boot_reach (\<lambda>c status addr. on_resolved curl_example jsmn_example (\<lambda>s. s) (\<lambda>n. replicate n 7) (bytes ''http://etcd'') status addr c 30000)
      (bytes ''provider-small'') [Resolved 0 (bytes ''10.0.0.7'')] st \<and> tests st = [h] \<and> etcd_puts st = [(Some [55], 0)] \<and>
    boot_step (\<lambda>c status addr. None) (Test_Connect h 0) st = None"
proof -
  let ?res = "\<lambda>c status addr. on_resolved curl_example jsmn_example (\<lambda>s. s) (\<lambda>n. replicate n 7) (bytes ''http://etcd'') status addr c 30000"
  let ?st = "\<lparr>scale = 48, lookups = 1, tests = [], test_handles = [], test_closings = [], test_next = 0, etcd_puts = []\<rparr>"
  have "init_provider (bytes ''provider-small'') 0 = Inr ?st"
    by (simp add: init_provider_def provider_scale_def)
  note r0 = boot_reach.start [OF this, where resolve = ?res]
  have "boot_step ?res (Resolved 0 (bytes ''10.0.0.7'')) ?st =
      Some (Inr (test_dubbo_connection (?st\<lparr>lookups := 0, etcd_puts := [(Some [55], 0)]\<rparr>)))"
    by (simp add: boot_example_resolves after_resolved_def)
  note r1 = boot_reach.step [OF r0 this, simplified]
  have "etcd_puts (test_dubbo_connection (?st\<lparr>lookups := 0, etcd_puts := [(Some [55], 0)]\<rparr>)) = [(Some [55], 0)]"
    by (simp add: test_dubbo_connection_def)
  with provider_start [OF r1, where resolve = "\<lambda>c status addr. None"] r1 show ?thesis by fastforce
qed

end
