(* ===== verification/Jvm_Cmd.thy ===== *)
theory Jvm_Cmd
  imports C_Str "HOL-Library.State_Monad"
begin

text \<open>
  The commands sent to the Java process beside the agent (\<open>jvm_cmd.c\<close>, Linux, and
  \<open>manual_jvm_gc\<close> of \<open>utils.c\<close>). What the process does is a sequence of system
  calls; the state is the log of them, and what the kernel answers to the last call of a log is the
  parameter \<open>os\<close>: nothing is assumed of it. \<open>/proc\<close> files are answered as the list of
  their lines, as C strings. Text written to \<open>stdout\<close> and \<open>stderr\<close> is in the
  log too. \<open>argc\<close> is the length of \<open>argv\<close>, and the identifiers of files, sockets and
  namespaces are numbers.
\<close>

section \<open>System calls\<close>

type_synonym path = "byte list"

definition SIGQUIT :: int where "SIGQUIT = 3"
definition MAX_PATH :: nat where "MAX_PATH = 1024"

datatype sys_call =
    Read_File path
  | Open_File path
  | Fstat int
  | Setns int
  | Stat path
  | Unlink path
  | Creat path
  | Close int
  | Kill int int
  | Nanosleep int int
  | Socket
  | Connect int path
  | Write int "byte list"
  | Geteuid
  | Getegid
  | Setegid int
  | Seteuid int
  | Ignore_Sigpipe
  | Print "byte list"

record file_stat =
  st_ino :: int
  st_uid :: int
  is_sock :: bool

record os =
  ret :: "sys_call list \<Rightarrow> int"
  lines_of :: "sys_call list \<Rightarrow> byte list list option"
  stat_of :: "sys_call list \<Rightarrow> file_stat option"

type_synonym 'a sys = "(sys_call list, 'a) state"

abbreviation return :: "'a \<Rightarrow> 'a sys" where "return \<equiv> State_Monad.return"

definition call :: "os \<Rightarrow> sys_call \<Rightarrow> int sys" where
  "call os c = State (\<lambda>log. (ret os (log @ [c]), log @ [c]))"

definition read_file :: "os \<Rightarrow> path \<Rightarrow> byte list list option sys" where
  "read_file os p = State (\<lambda>log. (lines_of os (log @ [Read_File p]), log @ [Read_File p]))"

definition stat_call :: "os \<Rightarrow> sys_call \<Rightarrow> file_stat option sys" where
  "stat_call os c = State (\<lambda>log. (stat_of os (log @ [c]), log @ [c]))"

lemma run_call [simp]: "run_state (call os c) log = (ret os (log @ [c]), log @ [c])"
  by (simp add: call_def)

lemma run_read_file [simp]:
  "run_state (read_file os p) log = (lines_of os (log @ [Read_File p]), log @ [Read_File p])"
  by (simp add: read_file_def)

lemma run_stat_call [simp]: "run_state (stat_call os c) log = (stat_of os (log @ [c]), log @ [c])"
  by (simp add: stat_call_def)

text \<open>\<open>snprintf\<close> into a block of \<open>n\<close> bytes.\<close>

definition snprintf :: "nat \<Rightarrow> byte list \<Rightarrow> byte list" where
  "snprintf n s = take (n - 1) s"

definition strchr :: "byte list \<Rightarrow> byte \<Rightarrow> byte list option" where
  "strchr s c = (case dropWhile (\<lambda>b. b \<noteq> c) s of [] \<Rightarrow> None | t \<Rightarrow> Some t)"

definition strrchr :: "byte list \<Rightarrow> byte \<Rightarrow> byte list option" where
  "strrchr s c = (if c \<in> set s then Some (c # rev (takeWhile (\<lambda>b. b \<noteq> c) (rev s))) else None)"

definition to_uid :: "int \<Rightarrow> int" where "to_uid x = x mod 2 ^ 32"

section \<open>The target process\<close>

definition get_temp_directory :: path where "get_temp_directory = bytes ''/tmp''"

record process_info =
  uid :: int
  gid :: int
  info_nspid :: int

text \<open>One line of \<open>/proc/<pid>/status\<close>.\<close>

definition status_line :: "byte list \<Rightarrow> process_info \<Rightarrow> process_info option" where
  "status_line line info =
     (if take 4 line = bytes ''Uid:'' then do {
        guard (5 \<le> length line);
        t \<leftarrow> strchr (drop 5 line) 9;
        Some (info\<lparr>uid := to_uid (atoi t)\<rparr>) }
      else if take 4 line = bytes ''Gid:'' then do {
        guard (5 \<le> length line);
        t \<leftarrow> strchr (drop 5 line) 9;
        Some (info\<lparr>gid := to_uid (atoi t)\<rparr>) }
      else if take 7 line = bytes ''NStgid:'' then do {
        t \<leftarrow> strrchr line 9;
        Some (info\<lparr>info_nspid := atoi t\<rparr>) }
      else Some info)"

fun read_status :: "byte list list \<Rightarrow> process_info \<Rightarrow> process_info option" where
  "read_status [] info = Some info"
| "read_status (line # ls) info = do { info \<leftarrow> status_line line info; read_status ls info }"

definition get_process_info :: "os \<Rightarrow> int \<Rightarrow> process_info \<Rightarrow> (int \<times> process_info) option sys" where
  "get_process_info os pid info = do {
     status_file \<leftarrow> read_file os (snprintf 64 (bytes ''/proc/'' @ dec_int pid @ bytes ''/status''));
     return (case status_file of
         None \<Rightarrow> Some (0, info)
       | Some lines \<Rightarrow> do { info \<leftarrow> read_status lines info; Some (1, info) }) }"

definition enter_mount_ns :: "os \<Rightarrow> int \<Rightarrow> int sys" where
  "enter_mount_ns os pid = do {
     let curnspath = snprintf 128 (bytes ''/proc/self/ns/mnt'');
     let newnspath = snprintf 128 (bytes ''/proc/'' @ dec_int pid @ bytes ''/ns/mnt'');
     oldns \<leftarrow> call os (Open_File curnspath);
     if oldns < 0 then return 0
     else do {
       newns \<leftarrow> call os (Open_File newnspath);
       if newns < 0 then return 0
       else do {
         oldns_stat \<leftarrow> stat_call os (Fstat oldns);
         case oldns_stat of None \<Rightarrow> return 0
         | Some old_st \<Rightarrow> do {
             newns_stat \<leftarrow> stat_call os (Fstat newns);
             case newns_stat of None \<Rightarrow> return 0
             | Some new_st \<Rightarrow>
                 if st_ino old_st = st_ino new_st then return 1
                 else do {
                   r \<leftarrow> call os (Setns newns);
                   return (if r < 0 then 0 else 1) } } } } }"

section \<open>The attach mechanism\<close>

definition java_pid_path :: "int \<Rightarrow> path" where
  "java_pid_path pid = get_temp_directory @ bytes ''/.java_pid'' @ dec_int pid"

definition check_socket :: "os \<Rightarrow> int \<Rightarrow> bool sys" where
  "check_socket os pid = do {
     stats \<leftarrow> stat_call os (Stat (snprintf MAX_PATH (java_pid_path pid)));
     return (case stats of None \<Rightarrow> False | Some s \<Rightarrow> is_sock s) }"

definition check_file_owner :: "os \<Rightarrow> path \<Rightarrow> bool sys" where
  "check_file_owner os path = do {
     stats \<leftarrow> stat_call os (Stat path);
     owned \<leftarrow> (case stats of None \<Rightarrow> return False
       | Some s \<Rightarrow> do { me \<leftarrow> call os Geteuid; return (st_uid s = me) });
     if owned then return True
     else do { _ \<leftarrow> call os (Unlink path); return False } }"

text \<open>The loop that waits for the socket, with the number of tries so far.\<close>

function wait_for_socket :: "os \<Rightarrow> int \<Rightarrow> nat \<Rightarrow> bool sys" where
  "wait_for_socket os nspid retry = do {
     _ \<leftarrow> call os (Nanosleep 0 100000000);
     result \<leftarrow> check_socket os nspid;
     if \<not> result \<and> retry + 1 < 10 then wait_for_socket os nspid (retry + 1) else return result }"
  by pat_completeness auto
termination by (relation "measure (\<lambda>(os, nspid, retry). 10 - retry)") auto

declare wait_for_socket.simps [simp del]

text \<open>The trigger file: in the working directory of the process, else in \<open>/tmp\<close>.\<close>

definition cwd_trigger :: "int \<Rightarrow> path" where
  "cwd_trigger nspid = snprintf MAX_PATH (bytes ''/proc/'' @ dec_int nspid @ bytes ''/cwd/.attach_pid'' @ dec_int nspid)"

definition tmp_trigger :: "int \<Rightarrow> path" where
  "tmp_trigger nspid = snprintf MAX_PATH (get_temp_directory @ bytes ''/.attach_pid'' @ dec_int nspid)"

definition create_trigger :: "os \<Rightarrow> int \<Rightarrow> path option sys" where
  "create_trigger os nspid = do {
     let path = cwd_trigger nspid;
     fd \<leftarrow> call os (Creat path);
     failed \<leftarrow> (if fd = - 1 then return True
       else do {
         r \<leftarrow> call os (Close fd);
         if r = 0 then do { ok \<leftarrow> check_file_owner os path; return (\<not> ok) } else return False });
     if failed then do {
       let path = tmp_trigger nspid;
       fd \<leftarrow> call os (Creat path);
       if fd = - 1 then return None
       else do { _ \<leftarrow> call os (Close fd); return (Some path) } }
     else return (Some path) }"

definition start_attach_mechanism :: "os \<Rightarrow> int \<Rightarrow> int \<Rightarrow> bool sys" where
  "start_attach_mechanism os pid nspid = do {
     trigger \<leftarrow> create_trigger os nspid;
     case trigger of None \<Rightarrow> return False
     | Some path \<Rightarrow> do {
         _ \<leftarrow> call os (Kill pid SIGQUIT);
         result \<leftarrow> wait_for_socket os nspid 0;
         _ \<leftarrow> call os (Unlink path);
         return result } }"

section \<open>Commands\<close>

definition connect_socket :: "os \<Rightarrow> int \<Rightarrow> int sys" where
  "connect_socket os pid = do {
     fd \<leftarrow> call os Socket;
     if fd = - 1 then return (- 1)
     else do {
       r \<leftarrow> call os (Connect fd (snprintf 108 (java_pid_path pid)));
       if r = - 1 then do { _ \<leftarrow> call os (Close fd); return (- 1) }
       else return fd } }"

fun write_args :: "os \<Rightarrow> int \<Rightarrow> byte list list \<Rightarrow> nat list \<Rightarrow> bool sys" where
  "write_args os fd argv [] = return True"
| "write_args os fd argv (i # is) = do {
     let arg = (if i < length argv then argv ! i else []);
     r \<leftarrow> call os (Write fd (arg @ [0]));
     if r \<le> 0 then return False else write_args os fd argv is }"

definition write_command :: "os \<Rightarrow> int \<Rightarrow> byte list list \<Rightarrow> bool sys" where
  "write_command os fd argv = do {
     r \<leftarrow> call os (Write fd (bytes ''1'' @ [0]));
     if r \<le> 0 then return False else write_args os fd argv [0..<4] }"

text \<open>Of \<open>perror\<close> only the caller's text is shown.\<close>

definition say :: "os \<Rightarrow> byte list \<Rightarrow> 'a \<Rightarrow> 'a sys" where
  "say os s r = do { _ \<leftarrow> call os (Print s); return r }"

definition init_jvm_comm_socket :: "os \<Rightarrow> int \<Rightarrow> int option sys" where
  "init_jvm_comm_socket os pid =
     (if pid = 0 then say os (bytes ''Invalid pid provided'') (Some 1)
      else do {
        my_uid \<leftarrow> call os Geteuid;
        my_gid \<leftarrow> call os Getegid;
        info \<leftarrow> get_process_info os pid \<lparr>uid = my_uid, gid = my_gid, info_nspid = pid\<rparr>;
        case info of None \<Rightarrow> return None
        | Some (found, info) \<Rightarrow>
          if found = 0 then say os (bytes ''Process '' @ dec_int pid @ bytes '' not found'' @ [10]) (Some 1)
          else do {
            mnt \<leftarrow> enter_mount_ns os pid;
            _ \<leftarrow> (if mnt < 0 then say os (bytes ''WARNING: couldn't enter target process mnt namespace'' @ [10]) () else return ());
            g \<leftarrow> (if my_gid \<noteq> gid info then call os (Setegid (gid info)) else return 0);
            u \<leftarrow> (if g = 0 \<and> my_uid \<noteq> uid info then call os (Seteuid (uid info)) else return 0);
            if g \<noteq> 0 \<or> u \<noteq> 0
            then say os (bytes ''Failed to change credentials to match the target process'') (Some 1)
            else do {
              _ \<leftarrow> call os Ignore_Sigpipe;
              there \<leftarrow> check_socket os (info_nspid info);
              started \<leftarrow> (if there then return True else start_attach_mechanism os pid (info_nspid info));
              if \<not> started then say os (bytes ''Could not start attach mechanism'') (Some 1)
              else return (Some (info_nspid info)) } } })"

definition jvm_run_cmd :: "os \<Rightarrow> int \<Rightarrow> byte list list \<Rightarrow> int sys" where
  "jvm_run_cmd os nspid argv = do {
     fd \<leftarrow> connect_socket os nspid;
     if fd = - 1 then say os (bytes ''Could not connect to socket'') 1
     else do {
       _ \<leftarrow> say os (bytes ''Connected to remote JVM'' @ [10]) ();
       ok \<leftarrow> write_command os fd argv;
       if \<not> ok then do {
         _ \<leftarrow> say os (bytes ''Error writing to socket'') ();
         _ \<leftarrow> call os (Close fd);
         return 1 }
       else do { _ \<leftarrow> call os (Close fd); return 0 } } }"

text \<open>Its static variable is an argument and a result; it starts at \<open>- 1\<close>.\<close>

definition manual_jvm_gc :: "os \<Rightarrow> int \<Rightarrow> int \<Rightarrow> (int \<times> int) option sys" where
  "manual_jvm_gc os java_pid nspid = do {
     nspid' \<leftarrow> (if nspid < 0 then init_jvm_comm_socket os java_pid else return (Some nspid));
     case nspid' of None \<Rightarrow> return None
     | Some nspid \<Rightarrow> do {
         r \<leftarrow> jvm_run_cmd os nspid [bytes ''jcmd'', bytes ''GC.run''];
         return (Some (r, nspid)) } }"

section \<open>The log grows\<close>

text \<open>
  An operation only appends to the log; \<open>does P m\<close> says what it may append and return.
\<close>

lemma run_say [simp]: "run_state (say os s r) log = (r, log @ [Print s])"
  by (simp add: say_def)

lemma run_check_socket [simp]:
  "run_state (check_socket os pid) log =
     (let log = log @ [Stat (snprintf MAX_PATH (java_pid_path pid))] in
      (case stat_of os log of None \<Rightarrow> False | Some s \<Rightarrow> is_sock s, log))"
  by (simp add: check_socket_def Let_def)

definition poll_calls :: "int \<Rightarrow> nat \<Rightarrow> sys_call list" where
  "poll_calls nspid k = concat (replicate k [Nanosleep 0 100000000, Stat (snprintf MAX_PATH (java_pid_path nspid))])"

definition socket_seen :: "os \<Rightarrow> sys_call list \<Rightarrow> bool" where
  "socket_seen os log = (case stat_of os log of None \<Rightarrow> False | Some s \<Rightarrow> is_sock s)"

lemma poll_calls_Suc: "poll_calls nspid (Suc k) = poll_calls nspid 1 @ poll_calls nspid k"
  by (simp add: poll_calls_def)

lemma poll_calls_1 [simp]: "poll_calls nspid (Suc 0) = [Nanosleep 0 100000000, Stat (snprintf MAX_PATH (java_pid_path nspid))]"
  by (simp add: poll_calls_def)

lemma run_wait_for_socket_eq:
  "run_state (wait_for_socket os nspid retry) log =
     (let log1 = log @ poll_calls nspid 1 in
      if \<not> socket_seen os log1 \<and> retry + 1 < 10 then run_state (wait_for_socket os nspid (retry + 1)) log1
      else (socket_seen os log1, log1))"
  by (subst wait_for_socket.simps) (simp add: Let_def socket_seen_def)

text \<open>The socket is looked for until it is there, at most ten times in all.\<close>

lemma wait_for_socket_result:
  assumes "run_state (wait_for_socket os nspid retry) log = (r, log')" and "retry < 10"
  shows "\<exists>k. 1 \<le> k \<and> k \<le> 10 - retry \<and> log' = log @ poll_calls nspid k \<and> r = socket_seen os log' \<and>
    (\<not> r \<longrightarrow> k = 10 - retry) \<and> (\<forall>j. 1 \<le> j \<and> j < k \<longrightarrow> \<not> socket_seen os (log @ poll_calls nspid j))"
  using assms
proof (induction os nspid retry arbitrary: log rule: wait_for_socket.induct)
  case (1 os nspid retry)
  let ?log = "log @ poll_calls nspid 1"
  show ?case
  proof (cases "\<not> socket_seen os ?log \<and> retry + 1 < 10")
    case True
    then have run: "run_state (wait_for_socket os nspid (retry + 1)) ?log = (r, log')"
      using 1(2) by (subst (asm) run_wait_for_socket_eq) (simp add: Let_def)
    obtain k where k: "1 \<le> k" "k \<le> 10 - (retry + 1)" "log' = ?log @ poll_calls nspid k" "r = socket_seen os log'"
      "\<not> r \<longrightarrow> k = 10 - (retry + 1)" "\<forall>j. 1 \<le> j \<and> j < k \<longrightarrow> \<not> socket_seen os (?log @ poll_calls nspid j)"
      using 1(1) [of False ?log] run True by auto
    have "\<not> socket_seen os (log @ poll_calls nspid j)" if j: "1 \<le> j" "j < Suc k" for j
    proof (cases "j = 1")
      case False
      then obtain i where "j = Suc i" "1 \<le> i" "i < k" using j by (cases j) auto
      then show ?thesis using k(6) by (simp add: poll_calls_Suc [of _ i])
    qed (use True in simp)
    with k True show ?thesis by (intro exI [of _ "Suc k"]) (auto simp: poll_calls_Suc [of _ k])
  next
    case False
    then have "log' = ?log" "r = socket_seen os ?log"
      using 1(2) by (subst (asm) run_wait_for_socket_eq; auto simp: Let_def split: if_splits)+
    with False 1(3) show ?thesis by (intro exI [of _ 1]) auto
  qed
qed

section \<open>Attaching\<close>

fun file_call :: "sys_call \<Rightarrow> bool" where
  "file_call (Creat p) \<longleftrightarrow> True"
| "file_call (Close fd) \<longleftrightarrow> True"
| "file_call (Stat p) \<longleftrightarrow> True"
| "file_call (Unlink p) \<longleftrightarrow> True"
| "file_call Geteuid \<longleftrightarrow> True"
| "file_call c \<longleftrightarrow> False"

text \<open>The calls \<open>pre\<close> after \<open>log\<close> made the file \<open>p\<close> and left it there.\<close>

definition made_file :: "os \<Rightarrow> sys_call list \<Rightarrow> sys_call list \<Rightarrow> path \<Rightarrow> bool" where
  "made_file os log pre p \<longleftrightarrow> (\<exists>pre1 pre2. pre = pre1 @ Creat p # pre2 \<and> Unlink p \<notin> set pre2 \<and>
     ret os (log @ pre1 @ [Creat p]) \<noteq> - 1)"

lemma made_file_first: "ret os (log @ [Creat p]) \<noteq> - 1 \<Longrightarrow> Unlink p \<notin> set cs \<Longrightarrow> made_file os log (Creat p # cs) p"
  unfolding made_file_def by (intro exI [of _ "[]"] exI [of _ cs]) simp

lemma made_file_second:
  "ret os (log @ cs @ [Creat p]) \<noteq> - 1 \<Longrightarrow> made_file os log (cs @ [Creat p, Close fd]) p"
  unfolding made_file_def by (intro exI [of _ cs] exI [of _ "[Close fd]"]) simp

lemma run_check_file_owner:
  "\<exists>ok cs. run_state (check_file_owner os p) log = (ok, log @ cs) \<and> (\<forall>c \<in> set cs. file_call c) \<and>
    (ok \<longrightarrow> Unlink p \<notin> set cs) \<and> (\<not> ok \<longrightarrow> last cs = Unlink p)"
  by (auto simp: check_file_owner_def Let_def split: option.split)

lemma run_create_trigger:
  "\<exists>t pre. run_state (create_trigger os nspid) log = (t, log @ pre) \<and> (\<forall>c \<in> set pre. file_call c) \<and>
    (\<forall>p. t = Some p \<longrightarrow> p \<in> {cwd_trigger nspid, tmp_trigger nspid} \<and> made_file os log pre p) \<and>
    (t = None \<longrightarrow> ret os (log @ pre) = - 1 \<and> last pre = Creat (tmp_trigger nspid))"
proof -
  let ?p = "cwd_trigger nspid" and ?t = "tmp_trigger nspid"
  let ?first = "if ret os (log @ [Creat ?p]) = - 1 then return True
       else do {
         r \<leftarrow> call os (Close (ret os (log @ [Creat ?p])));
         if r = 0 then do { ok \<leftarrow> check_file_owner os ?p; return (\<not> ok) } else return False }"
  obtain failed cs where f: "run_state ?first (log @ [Creat ?p]) = (failed, log @ Creat ?p # cs)"
    "\<forall>c \<in> set cs. file_call c" "\<not> failed \<longrightarrow> made_file os log (Creat ?p # cs) ?p"
  proof (cases "ret os (log @ [Creat ?p]) = - 1 \<or> ret os (log @ [Creat ?p, Close (ret os (log @ [Creat ?p]))]) \<noteq> 0")
    case True
    then show ?thesis
      by (intro that [of "ret os (log @ [Creat ?p]) = - 1" "if ret os (log @ [Creat ?p]) = - 1 then [] else [Close (ret os (log @ [Creat ?p]))]"])
        (auto intro!: made_file_first)
  next
    case False
    then obtain ok cs where "run_state (check_file_owner os ?p) (log @ [Creat ?p, Close (ret os (log @ [Creat ?p]))]) =
        (ok, log @ [Creat ?p, Close (ret os (log @ [Creat ?p]))] @ cs)" "\<forall>c \<in> set cs. file_call c" "ok \<longrightarrow> Unlink ?p \<notin> set cs"
      using run_check_file_owner [of os ?p "log @ [Creat ?p, Close (ret os (log @ [Creat ?p]))]"] by auto
    with False show ?thesis
      by (intro that [of "\<not> ok" "Close (ret os (log @ [Creat ?p])) # cs"]) (auto intro!: made_file_first)
  qed
  show ?thesis
  proof (cases failed)
    case False
    with f show ?thesis by (simp add: create_trigger_def Let_def)
  next
    case True
    then show ?thesis
      using f made_file_second [of os log "Creat ?p # cs" ?t] by (auto simp: create_trigger_def Let_def)
  qed
qed

lemma attach_result:
  assumes "run_state (start_attach_mechanism os pid nspid) log = (r, log')"
  shows "\<exists>pre. (\<forall>c \<in> set pre. file_call c) \<and>
    (log' = log @ pre \<and> \<not> r \<and> ret os log' = - 1 \<and> last pre = Creat (tmp_trigger nspid) \<or>
     (\<exists>p k. log' = log @ pre @ [Kill pid SIGQUIT] @ poll_calls nspid k @ [Unlink p] \<and> made_file os log pre p \<and>
        p \<in> {cwd_trigger nspid, tmp_trigger nspid} \<and> 1 \<le> k \<and> k \<le> 10 \<and> r = socket_seen os (butlast log') \<and> (\<not> r \<longrightarrow> k = 10) \<and>
        (\<forall>j. 1 \<le> j \<and> j < k \<longrightarrow> \<not> socket_seen os (log @ pre @ [Kill pid SIGQUIT] @ poll_calls nspid j))))"
proof -
  obtain t pre where t: "run_state (create_trigger os nspid) log = (t, log @ pre)" "\<forall>c \<in> set pre. file_call c"
    "\<forall>p. t = Some p \<longrightarrow> p \<in> {cwd_trigger nspid, tmp_trigger nspid} \<and> made_file os log pre p"
    "t = None \<longrightarrow> ret os (log @ pre) = - 1 \<and> last pre = Creat (tmp_trigger nspid)"
    using run_create_trigger by blast
  show ?thesis
  proof (cases t)
    case None
    with assms t show ?thesis by (intro exI [of _ pre]) (auto simp: start_attach_mechanism_def)
  next
    case (Some p)
    obtain log1 where w: "run_state (wait_for_socket os nspid 0) (log @ pre @ [Kill pid SIGQUIT]) = (r, log1)"
      "log' = log1 @ [Unlink p]"
      using assms t(1) Some by (auto simp: start_attach_mechanism_def split: prod.splits)
    from wait_for_socket_result [OF w(1)] w(2) t(2,3) Some show ?thesis by (intro exI [of _ pre]) auto
  qed
qed

text \<open>C28. Attaching to the Java process (\<open>start_attach_mechanism\<close>): whatever the kernel
  answers, the process is signalled at most once, only while a trigger file made for it is there, and
  then its socket is looked for until it is seen, at most ten times; the trigger is removed last, and
  the result says whether the socket was seen. When no trigger can be made nothing is signalled.\<close>

theorem attach_signals_once:
  assumes "run_state (start_attach_mechanism os pid nspid) log = (r, log')"
  shows "\<exists>pre. (\<forall>c \<in> set pre. file_call c) \<and>
    (log' = log @ pre \<and> \<not> r \<and> ret os log' = - 1 \<and> last pre = Creat (tmp_trigger nspid) \<or>
     (\<exists>p k. log' = log @ pre @ [Kill pid SIGQUIT] @ poll_calls nspid k @ [Unlink p] \<and> made_file os log pre p \<and>
        p \<in> {cwd_trigger nspid, tmp_trigger nspid} \<and> 1 \<le> k \<and> k \<le> 10 \<and> r = socket_seen os (butlast log') \<and> (\<not> r \<longrightarrow> k = 10) \<and>
        (\<forall>j. 1 \<le> j \<and> j < k \<longrightarrow> \<not> socket_seen os (log @ pre @ [Kill pid SIGQUIT] @ poll_calls nspid j))))"
  by (rule attach_result [OF assms])

section \<open>Sending a command\<close>

text \<open>The messages of a command: the version, and four strings with their terminators.\<close>

definition command_messages :: "byte list list \<Rightarrow> byte list list" where
  "command_messages argv = [bytes ''1'' @ [0]] @ map (\<lambda>arg. arg @ [0]) (take 4 (argv @ replicate 4 []))"

lemma length_command_messages [simp]: "length (command_messages argv) = 5"
  by (simp add: command_messages_def)

definition all_written :: "os \<Rightarrow> sys_call list \<Rightarrow> int \<Rightarrow> byte list list \<Rightarrow> bool" where
  "all_written os log fd ms \<longleftrightarrow> (\<forall>n. 1 \<le> n \<and> n \<le> length ms \<longrightarrow> 0 < ret os (log @ map (Write fd) (take n ms)))"

text \<open>Messages are written in order until one fails.\<close>

fun write_all :: "os \<Rightarrow> int \<Rightarrow> byte list list \<Rightarrow> bool sys" where
  "write_all os fd [] = return True"
| "write_all os fd (m # ms) = do {
     r \<leftarrow> call os (Write fd m);
     if r \<le> 0 then return False else write_all os fd ms }"

lemma write_args_all: "write_args os fd argv is = write_all os fd (map (\<lambda>i. (if i < length argv then argv ! i else []) @ [0]) is)"
  by (induction "is") (simp_all add: Let_def cong: if_cong)

lemma arguments: "map (\<lambda>i. if i < length argv then argv ! i else []) [0..<4] = take 4 (argv @ replicate 4 [])"
  by (rule nth_equalityI) (auto simp: nth_append)

lemma write_command_all: "write_command os fd argv = write_all os fd (command_messages argv)"
proof -
  have "map (\<lambda>i. (if i < length argv then argv ! i else []) @ [0]) [0..<4] =
      map (\<lambda>arg. arg @ [0]) (take 4 (argv @ replicate 4 []))"
    unfolding arguments [symmetric] by (simp only: map_map comp_def)
  then show ?thesis by (simp add: write_command_def write_args_all command_messages_def cong: if_cong)
qed

lemma write_all_result:
  assumes "run_state (write_all os fd ms) log = (ok, log')"
  shows "\<exists>n \<le> length ms. log' = log @ map (Write fd) (take n ms) \<and>
    (ok \<longrightarrow> n = length ms \<and> all_written os log fd ms) \<and> (\<not> ok \<longrightarrow> 1 \<le> n \<and> ret os log' \<le> 0)"
  using assms
proof (induction ms arbitrary: log)
  case Nil
  then show ?case by (simp add: all_written_def)
next
  case (Cons m ms)
  let ?log = "log @ [Write fd m]"
  show ?case
  proof (cases "ret os ?log \<le> 0")
    case True
    with Cons.prems show ?thesis by (intro exI [of _ 1]) auto
  next
    case False
    then have "run_state (write_all os fd ms) ?log = (ok, log')" using Cons.prems by simp
    from Cons.IH [OF this] obtain n where n: "n \<le> length ms" "log' = ?log @ map (Write fd) (take n ms)"
      "ok \<longrightarrow> n = length ms \<and> all_written os ?log fd ms" "\<not> ok \<longrightarrow> 1 \<le> n \<and> ret os log' \<le> 0" by blast
    have "all_written os log fd (m # ms)" if "all_written os ?log fd ms"
      unfolding all_written_def
    proof (intro allI impI)
      fix i assume i: "1 \<le> i \<and> i \<le> length (m # ms)"
      then consider "i = 1" | j where "i = Suc j" "1 \<le> j" "j \<le> length ms" by (cases i; cases "i = 1") auto
      then show "0 < ret os (log @ map (Write fd) (take i (m # ms)))"
        using that [unfolded all_written_def] False by cases auto
    qed
    with n show ?thesis by (intro exI [of _ "Suc n"]) auto
  qed
qed

lemma command_result:
  assumes "run_state (jvm_run_cmd os nspid argv) log = (r, log')"
  shows "let fd = ret os (log @ [Socket]); connect = [Socket, Connect fd (snprintf 108 (java_pid_path nspid))];
      start = log @ connect @ [Print (bytes ''Connected to remote JVM'' @ [10])] in
    (r = 0 \<or> r = 1) \<and>
    (fd = - 1 \<longrightarrow> r = 1 \<and> log' = log @ [Socket, Print (bytes ''Could not connect to socket'')]) \<and>
    (fd \<noteq> - 1 \<and> ret os (log @ connect) = - 1 \<longrightarrow>
       r = 1 \<and> log' = log @ connect @ [Close fd, Print (bytes ''Could not connect to socket'')]) \<and>
    (fd \<noteq> - 1 \<and> ret os (log @ connect) \<noteq> - 1 \<longrightarrow>
       (r = 0 \<and> all_written os start fd (command_messages argv) \<and>
          log' = start @ map (Write fd) (command_messages argv) @ [Close fd] \<or>
        (\<exists>n. r = 1 \<and> 1 \<le> n \<and> n \<le> 5 \<and> ret os (start @ map (Write fd) (take n (command_messages argv))) \<le> 0 \<and>
          log' = start @ map (Write fd) (take n (command_messages argv)) @
            [Print (bytes ''Error writing to socket''), Close fd])))"
proof -
  let ?fd = "ret os (log @ [Socket])"
  let ?connect = "[Socket, Connect ?fd (snprintf 108 (java_pid_path nspid))]"
  let ?start = "log @ ?connect @ [Print (bytes ''Connected to remote JVM'' @ [10])]"
  obtain ok log1 where w: "run_state (write_all os ?fd (command_messages argv)) ?start = (ok, log1)" by fastforce
  obtain n where n: "n \<le> 5" "log1 = ?start @ map (Write ?fd) (take n (command_messages argv))"
    "ok \<longrightarrow> n = 5 \<and> all_written os ?start ?fd (command_messages argv)" "\<not> ok \<longrightarrow> 1 \<le> n \<and> ret os log1 \<le> 0"
    using write_all_result [OF w] by auto
  show ?thesis
  proof (cases "?fd \<noteq> - 1 \<and> ret os (log @ ?connect) \<noteq> - 1")
    case True
    then have "r = (if ok then 0 else 1) \<and>
        log' = log1 @ (if ok then [] else [Print (bytes ''Error writing to socket'')]) @ [Close ?fd]"
      using assms w by (auto simp: jvm_run_cmd_def connect_socket_def write_command_all Let_def)
    with n True show ?thesis by (cases ok) (auto simp: Let_def)
  next
    case False
    then show ?thesis using assms by (auto simp: jvm_run_cmd_def connect_socket_def Let_def split: if_splits)
  qed
qed

text \<open>C30. A command (\<open>jvm_run_cmd\<close>): the socket of the process is connected, the version and
  four terminated strings (the arguments, then empty ones; a fifth argument is dropped) are written in
  order until a write fails, and a socket that was opened is closed last and once; the result is 0
  exactly when it was connected and every write wrote something.\<close>

theorem command_written:
  assumes "run_state (jvm_run_cmd os nspid argv) log = (r, log')"
  shows "let fd = ret os (log @ [Socket]); connect = [Socket, Connect fd (snprintf 108 (java_pid_path nspid))];
      start = log @ connect @ [Print (bytes ''Connected to remote JVM'' @ [10])] in
    (r = 0 \<or> r = 1) \<and>
    (fd = - 1 \<longrightarrow> r = 1 \<and> log' = log @ [Socket, Print (bytes ''Could not connect to socket'')]) \<and>
    (fd \<noteq> - 1 \<and> ret os (log @ connect) = - 1 \<longrightarrow>
       r = 1 \<and> log' = log @ connect @ [Close fd, Print (bytes ''Could not connect to socket'')]) \<and>
    (fd \<noteq> - 1 \<and> ret os (log @ connect) \<noteq> - 1 \<longrightarrow>
       (r = 0 \<and> all_written os start fd (command_messages argv) \<and>
          log' = start @ map (Write fd) (command_messages argv) @ [Close fd] \<or>
        (\<exists>n. r = 1 \<and> 1 \<le> n \<and> n \<le> 5 \<and> ret os (start @ map (Write fd) (take n (command_messages argv))) \<le> 0 \<and>
          log' = start @ map (Write fd) (take n (command_messages argv)) @
            [Print (bytes ''Error writing to socket''), Close fd])))"
  by (rule command_result [OF assms])

text \<open>A kernel where the process has opened its socket, and every write is complete.\<close>

definition os_example :: os where
  "os_example =
     \<lparr>ret = (\<lambda>log. case last log of Socket \<Rightarrow> 5 | Write fd m \<Rightarrow> int (length m) | Creat p \<Rightarrow> 6 | Geteuid \<Rightarrow> 1000
        | Getegid \<Rightarrow> 1000 | _ \<Rightarrow> 0),
      lines_of = (\<lambda>log. None), stat_of = (\<lambda>log. Some \<lparr>st_ino = 1, st_uid = 1000, is_sock = length log > 20\<rparr>)\<rparr>"

lemma command_messages_example:
  "command_messages [bytes ''jcmd'', bytes ''GC.run''] =
    [bytes ''1'' @ [0], bytes ''jcmd'' @ [0], bytes ''GC.run'' @ [0], [0], [0]]"
  by (simp add: command_messages_def numeral_eq_Suc)

lemma command_example:
  "run_state (jvm_run_cmd os_example 7 [bytes ''jcmd'', bytes ''GC.run'']) [] =
    (0, [Socket, Connect 5 (snprintf 108 (java_pid_path 7)), Print (bytes ''Connected to remote JVM'' @ [10])] @
      map (Write 5) (command_messages [bytes ''jcmd'', bytes ''GC.run'']) @ [Close 5])"
  by (simp add: jvm_run_cmd_def connect_socket_def write_command_all command_messages_example os_example_def)

theorem command_written_witness:
  "all_written os_example [Socket, Connect 5 (snprintf 108 (java_pid_path 7)), Print (bytes ''Connected to remote JVM'' @ [10])] 5
     (command_messages [bytes ''jcmd'', bytes ''GC.run''])"
proof -
  have "ret os_example [Socket] = 5" "ret os_example [Socket, Connect 5 p] \<noteq> - 1" for p by (simp_all add: os_example_def)
  with command_written [OF command_example] show ?thesis by (simp add: Let_def)
qed

lemma attach_example:
  "run_state (start_attach_mechanism os_example 7 7) [] =
    (True, [Creat (cwd_trigger 7), Close 6, Stat (cwd_trigger 7), Geteuid, Kill 7 SIGQUIT] @ poll_calls 7 8 @
      [Unlink (cwd_trigger 7)])"
  by (simp add: start_attach_mechanism_def create_trigger_def check_file_owner_def Let_def os_example_def poll_calls_def
      run_wait_for_socket_eq socket_seen_def numeral_eq_Suc)

theorem attach_signals_once_witness:
  "\<exists>pre p k. snd (run_state (start_attach_mechanism os_example 7 7) []) = pre @ [Kill 7 SIGQUIT] @ poll_calls 7 k @ [Unlink p] \<and>
    made_file os_example [] pre p \<and> 1 \<le> k \<and> k \<le> 10"
  using attach_signals_once [OF attach_example] by (auto simp: attach_example)

section \<open>The identity of the process\<close>

text \<open>The lines of \<open>/proc/<pid>/status\<close> that matter, as the kernel prints them.\<close>

definition ids_line :: "string \<Rightarrow> nat list \<Rightarrow> byte list" where
  "ids_line name ns = bytes name @ 58 # concat (map (\<lambda>n. 9 # dec_nat n) ns) @ [10]"

definition other_line :: "byte list \<Rightarrow> bool" where
  "other_line line \<longleftrightarrow> take 4 line \<noteq> bytes ''Uid:'' \<and> take 4 line \<noteq> bytes ''Gid:'' \<and> take 7 line \<noteq> bytes ''NStgid:''"

lemma strtol10_tab: "strtol10 (9 # s) = strtol10 s"
  by (simp add: strtol10_def is_space_def)

lemma atoi_tab:
  assumes "int n \<le> int_max" and "rest = [] \<or> \<not> is_digit (hd rest)"
  shows "atoi (9 # dec_nat n @ rest) = int n"
  using atoi_dec_nat [OF assms] by (simp add: atoi_def strtol10_tab)

lemma dec_nat_no_tab: "9 \<notin> set (dec_nat n)"
  using dec_nat_digits [of n] by (auto simp: is_digit_def)

lemma strchr_second: "strchr (dec_nat a @ 9 # t) 9 = Some (9 # t)"
proof -
  have "dropWhile (\<lambda>b. b \<noteq> 9) (dec_nat a @ 9 # t) = 9 # t"
    using dec_nat_no_tab [of a] by (subst dropWhile_append2) auto
  then show ?thesis by (simp add: strchr_def)
qed

lemma strrchr_last: "9 \<notin> set t \<Longrightarrow> strrchr (s @ 9 # t) 9 = Some (9 # t)"
  by (subst strrchr_def) (simp add: takeWhile_append)

lemma ids_line_Cons: "ids_line name (n # ns) = bytes name @ 58 # 9 # dec_nat n @ concat (map (\<lambda>n. 9 # dec_nat n) ns) @ [10]"
  by (simp add: ids_line_def)

lemma ids_line_snoc: "ids_line name (ns @ [n]) = (bytes name @ 58 # concat (map (\<lambda>n. 9 # dec_nat n) ns)) @ 9 # dec_nat n @ [10]"
  by (simp add: ids_line_def)

lemma to_uid_atoi: "int n < 2 ^ 32 \<Longrightarrow> rest = [] \<or> \<not> is_digit (hd rest) \<Longrightarrow> to_uid (atoi (9 # dec_nat n @ rest)) = int n"
proof -
  assume n: "int n < 2 ^ 32" and r: "rest = [] \<or> \<not> is_digit (hd rest)"
  have "strtol10 (dec_nat n @ rest) = int n" using n r by (intro strtol10_dec_nat) (simp_all add: int64_max_def)
  then have "atoi (9 # dec_nat n @ rest) = to_int (int n)" by (simp add: atoi_def strtol10_tab)
  moreover have "to_int (int n) mod 2 ^ 32 = int n mod 2 ^ 32" by (simp add: to_int_def mod_simps)
  ultimately show ?thesis using n by (simp add: to_uid_def)
qed

lemma second_id:
  assumes "int e < 2 ^ 32"
  shows "\<exists>t. strchr (dec_nat r @ 9 # dec_nat e @ concat (map (\<lambda>n. 9 # dec_nat n) ns) @ [10]) 9 = Some t \<and>
    to_uid (atoi t) = int e"
proof -
  let ?rest = "concat (map (\<lambda>n. 9 # dec_nat n) ns) @ [10]"
  have "?rest = [] \<or> \<not> is_digit (hd ?rest)" by (cases ns) (simp_all add: is_digit_def)
  from to_uid_atoi [OF assms this] show ?thesis by (simp add: strchr_second)
qed

lemma status_line_uid:
  assumes "int e < 2 ^ 32"
  shows "status_line (ids_line ''Uid'' (r # e # ns)) info = Some (info\<lparr>uid := int e\<rparr>)"
  using second_id [OF assms, of r ns] by (auto simp: status_line_def ids_line_Cons bytes_Cons guard_bind)

lemma status_line_gid:
  assumes "int e < 2 ^ 32"
  shows "status_line (ids_line ''Gid'' (r # e # ns)) info = Some (info\<lparr>gid := int e\<rparr>)"
  using second_id [OF assms, of r ns] by (auto simp: status_line_def ids_line_Cons bytes_Cons guard_bind)

lemma status_line_nspid:
  assumes "int n \<le> int_max"
  shows "status_line (ids_line ''NStgid'' (ns @ [n])) info = Some (info\<lparr>info_nspid := int n\<rparr>)"
proof -
  have "strrchr (ids_line ''NStgid'' (ns @ [n])) 9 = Some (9 # dec_nat n @ [10])"
    unfolding ids_line_snoc using dec_nat_no_tab by (intro strrchr_last) auto
  moreover have "atoi (9 # dec_nat n @ [10]) = int n" using assms by (intro atoi_tab) (simp_all add: is_digit_def)
  ultimately show ?thesis by (simp add: status_line_def, simp add: ids_line_def bytes_Cons)
qed

lemma read_status_append: "read_status (a @ b) info = do { info \<leftarrow> read_status a info; read_status b info }"
proof (induction a arbitrary: info)
  case (Cons l a)
  then show ?case by (cases "status_line l info") auto
qed simp

lemma read_status_other: "\<forall>l \<in> set ls. other_line l \<Longrightarrow> read_status ls info = Some info"
  by (induction ls) (auto simp: status_line_def other_line_def)

text \<open>Who the Java process is (\<open>get_process_info\<close>): from a status file as the kernel prints
  it, with its lines for the user, the group and the namespaces among any others, the effective user
  and group (the second number of a line, up to \<open>2 ^ 32 - 1\<close>) and the identifier in the innermost
  namespace (the last number) are read; the file is read once.\<close>

theorem process_info_parsed:
  assumes "lines_of os (log @ [Read_File (snprintf 64 (bytes ''/proc/'' @ dec_int pid @ bytes ''/status''))]) =
      Some (a @ [ids_line ''NStgid'' (ns @ [n])] @ b @ [ids_line ''Uid'' (ru # eu # us)] @ c @
        [ids_line ''Gid'' (rg # eg # gs)] @ d)"
    and "\<forall>l \<in> set (a @ b @ c @ d). other_line l" and "int eu < 2 ^ 32" and "int eg < 2 ^ 32" and "int n \<le> int_max"
  shows "run_state (get_process_info os pid info) log =
    (Some (1, info\<lparr>uid := int eu, gid := int eg, info_nspid := int n\<rparr>),
     log @ [Read_File (snprintf 64 (bytes ''/proc/'' @ dec_int pid @ bytes ''/status''))])"
  using assms
  by (simp add: get_process_info_def read_status_append read_status_other status_line_uid status_line_gid status_line_nspid ball_Un)

theorem process_info_parsed_witness:
  "run_state (get_process_info (os_example\<lparr>lines_of := \<lambda>log. Some [bytes ''Name:'', ids_line ''NStgid'' [4242, 7],
       ids_line ''Uid'' [0, 1000, 0, 0], ids_line ''Gid'' [0, 4294967294, 0, 0]]\<rparr>) 4242 \<lparr>uid = 0, gid = 0, info_nspid = 4242\<rparr>) [] =
    (Some (1, \<lparr>uid = 1000, gid = 4294967294, info_nspid = 7\<rparr>), [Read_File (snprintf 64 (bytes ''/proc/4242/status''))])"
proof -
  have "dec_int 4242 = bytes ''4242''" by (simp add: dec_int_def dec_nat.simps digit_byte_def bytes_Cons)
  then show ?thesis
    using process_info_parsed [of "os_example\<lparr>lines_of := \<lambda>log. Some [bytes ''Name:'', ids_line ''NStgid'' [4242, 7],
        ids_line ''Uid'' [0, 1000, 0, 0], ids_line ''Gid'' [0, 4294967294, 0, 0]]\<rparr>" "[]" 4242
        "[bytes ''Name:'']" "[4242]" 7 "[]" 0 1000 "[0, 0]" "[]" 0 4294967294 "[0, 0]" "[]" "\<lparr>uid = 0, gid = 0, info_nspid = 4242\<rparr>"]
    by (simp add: other_line_def bytes_Cons int_max_def)
qed

section \<open>Initialisation\<close>

text \<open>
  What entering the namespace of the process asks for. Its result is 0 or 1, so the caller's test
  for a negative one never holds and a failure is passed over in silence.
\<close>

fun mount_call :: "sys_call \<Rightarrow> bool" where
  "mount_call (Open_File p) \<longleftrightarrow> True"
| "mount_call (Fstat fd) \<longleftrightarrow> True"
| "mount_call (Setns fd) \<longleftrightarrow> True"
| "mount_call c \<longleftrightarrow> False"

lemma run_enter_mount_ns:
  "\<exists>r cs. run_state (enter_mount_ns os pid) log = (r, log @ cs) \<and> (r = 0 \<or> r = 1) \<and> (\<forall>c \<in> set cs. mount_call c)"
  by (auto simp: enter_mount_ns_def Let_def split: option.split)

text \<open>Switching to the user and the group of the process: the group first.\<close>

definition switch_calls :: "int \<Rightarrow> int \<Rightarrow> process_info \<Rightarrow> sys_call list" where
  "switch_calls my_uid my_gid info = (if my_gid \<noteq> gid info then [Setegid (gid info)] else []) @
     (if my_uid \<noteq> uid info then [Seteuid (uid info)] else [])"

fun is_kill :: "sys_call \<Rightarrow> bool" where
  "is_kill (Kill p s) \<longleftrightarrow> True"
| "is_kill c \<longleftrightarrow> False"

definition quiet :: "sys_call list \<Rightarrow> bool" where
  "quiet cs \<longleftrightarrow> (\<forall>c \<in> set cs. \<not> is_kill c)"

lemma quiet_simps [simp]:
  "quiet []" "quiet (c # cs) \<longleftrightarrow> \<not> is_kill c \<and> quiet cs" "quiet (cs @ ds) \<longleftrightarrow> quiet cs \<and> quiet ds"
  by (auto simp: quiet_def)

lemma file_call_quiet: "\<forall>c \<in> set cs. file_call c \<Longrightarrow> quiet cs"
  by (auto simp: quiet_def elim!: is_kill.elims dest!: bspec)

lemma mount_call_quiet: "\<forall>c \<in> set cs. mount_call c \<Longrightarrow> quiet cs"
  by (auto simp: quiet_def elim!: is_kill.elims dest!: bspec)

lemma quiet_poll [simp]: "quiet (poll_calls nspid k)"
  by (auto simp: quiet_def poll_calls_def)

lemma quiet_split:
  assumes "a @ c # b = a' @ c' # b'" and "quiet a" and "quiet a'" and "is_kill c" and "is_kill c'"
  shows "a = a' \<and> c = c' \<and> b = b'"
proof -
  have t: "takeWhile (\<lambda>c. \<not> is_kill c) (x @ k # y) = x" if "quiet x" "is_kill k" for x k y
    using that by (simp add: quiet_def takeWhile_append)
  have "a = a'" using t [of a c b] t [of a' c' b'] assms by simp
  with assms(1) show ?thesis by simp
qed

text \<open>The last part of initialisation, after the process is known and its namespace was entered.\<close>

lemma attach_calls:
  assumes "run_state (start_attach_mechanism os pid nspid) log = (r, log')"
  shows "\<exists>pre rest. quiet rest \<and> (\<forall>c \<in> set pre. file_call c) \<and> (log' = log @ pre \<or> log' = log @ pre @ [Kill pid SIGQUIT] @ rest)"
proof -
  obtain pre where pre: "\<forall>c \<in> set pre. file_call c"
    "log' = log @ pre \<or> (\<exists>p k. log' = log @ pre @ [Kill pid SIGQUIT] @ poll_calls nspid k @ [Unlink p])"
    using attach_result [OF assms] by blast
  have q: "quiet (poll_calls nspid k @ [Unlink p])" for k p by simp
  from pre q show ?thesis by blast
qed

definition status_file :: "int \<Rightarrow> sys_call" where
  "status_file pid = Read_File (snprintf 64 (bytes ''/proc/'' @ dec_int pid @ bytes ''/status''))"

definition socket_stat :: "process_info \<Rightarrow> sys_call" where
  "socket_stat info = Stat (snprintf MAX_PATH (java_pid_path (info_nspid info)))"

text \<open>Initialisation is quiet, or signals after these calls.\<close>

definition signals_after :: "os \<Rightarrow> int \<Rightarrow> sys_call list \<Rightarrow> sys_call list \<Rightarrow> bool" where
  "signals_after os pid log pre \<longleftrightarrow>
    (\<exists>lines info mnt trigger. let me = ret os (log @ [Geteuid]); my_group = ret os (log @ [Geteuid, Getegid]);
        switch = switch_calls me my_group info; start = [Geteuid, Getegid, status_file pid] in
      lines_of os (log @ start) = Some lines \<and>
      read_status lines \<lparr>uid = me, gid = my_group, info_nspid = pid\<rparr> = Some info \<and> (\<forall>c \<in> set mnt. mount_call c) \<and>
      (\<forall>n. 1 \<le> n \<and> n \<le> length switch \<longrightarrow> ret os (log @ start @ mnt @ take n switch) = 0) \<and>
      \<not> socket_seen os (log @ start @ mnt @ switch @ [Ignore_Sigpipe, socket_stat info]) \<and>
      pre = start @ mnt @ switch @ [Ignore_Sigpipe, socket_stat info] @ trigger \<and> (\<forall>c \<in> set trigger. file_call c))"

lemma init_calls:
  assumes "run_state (init_jvm_comm_socket os pid) log = (r, log')"
  shows "\<exists>new. log' = log @ new \<and> (quiet new \<or>
    (pid \<noteq> 0 \<and> (\<exists>pre rest. new = pre @ Kill pid SIGQUIT # rest \<and> quiet pre \<and> quiet rest \<and> signals_after os pid log pre)))"
proof -
  let ?me = "ret os (log @ [Geteuid])" and ?my_group = "ret os (log @ [Geteuid, Getegid])"
  let ?start = "[Geteuid, Getegid, status_file pid]"
  let ?info0 = "\<lparr>uid = ?me, gid = ?my_group, info_nspid = pid\<rparr>"
  consider (early) "\<exists>new. log' = log @ new \<and> quiet new"
    | (found) lines info where "pid \<noteq> 0" "lines_of os (log @ ?start) = Some lines" "read_status lines ?info0 = Some info"
    using assms
    by (cases "lines_of os (log @ ?start)"; cases "pid = 0")
      (auto simp: init_jvm_comm_socket_def get_process_info_def status_file_def split: Option.bind_splits)
  then show ?thesis
  proof cases
    case early
    then show ?thesis by blast
  next
    case found
    obtain m mnt where mnt: "run_state (enter_mount_ns os pid) (log @ ?start) = (m, (log @ ?start) @ mnt)" "m = 0 \<or> m = 1"
      "\<forall>c \<in> set mnt. mount_call c"
      using run_enter_mount_ns by blast
    let ?before = "log @ ?start @ mnt" and ?switch = "switch_calls ?me ?my_group info"
    have q: "quiet mnt" using mount_call_quiet [OF mnt(3)] .
    show ?thesis
    proof (cases "\<forall>n. 1 \<le> n \<and> n \<le> length ?switch \<longrightarrow> ret os (?before @ take n ?switch) = 0")
      case True
      let ?log = "?before @ ?switch @ [Ignore_Sigpipe, socket_stat info]"
      have s1: "?my_group \<noteq> gid info \<Longrightarrow> ret os (?before @ [Setegid (gid info)]) = 0"
        "?me \<noteq> uid info \<Longrightarrow> ret os (?before @ ?switch) = 0"
        using True [rule_format, of 1] True [rule_format, of "length ?switch"] by (auto simp: switch_calls_def)
      obtain started l where a: "run_state (start_attach_mechanism os pid (info_nspid info)) ?log = (started, l)" by fastforce
      have m: "\<not> m < 0" using mnt(2) by auto
      have run: "run_state (init_jvm_comm_socket os pid) log =
          (if socket_seen os ?log then (Some (info_nspid info), ?log)
           else if started then (Some (info_nspid info), l) else (Some 1, l @ [Print (bytes ''Could not start attach mechanism'')]))"
        using found mnt(1) m s1 a
        by (cases "?my_group = gid info"; cases "?me = uid info"; cases "socket_seen os ?log")
          (simp_all add: init_jvm_comm_socket_def get_process_info_def status_file_def socket_stat_def socket_seen_def
            switch_calls_def Let_def)
      show ?thesis
      proof (cases "socket_seen os ?log")
        case True
        with run assms q show ?thesis by (intro exI [of _ "?start @ mnt @ ?switch @ [Ignore_Sigpipe, socket_stat info]"])
          (auto simp: switch_calls_def status_file_def socket_stat_def)
      next
        case unseen: False
        obtain pre rest where p: "quiet rest" "\<forall>c \<in> set pre. file_call c" "l = ?log @ pre \<or> l = ?log @ pre @ [Kill pid SIGQUIT] @ rest"
          using attach_calls [OF a] by blast
        let ?pre = "?start @ mnt @ ?switch @ [Ignore_Sigpipe, socket_stat info] @ pre"
        let ?tail = "if started then [] else [Print (bytes ''Could not start attach mechanism'')]"
        have l: "log' = l @ ?tail" using run unseen a assms by auto
        have qp: "quiet ?pre" using q file_call_quiet [OF p(2)] by (simp add: switch_calls_def status_file_def socket_stat_def)
        have sig: "signals_after os pid log ?pre"
          unfolding signals_after_def Let_def using found(2,3) mnt(3) True unseen p(2)
          by (intro exI [of _ lines] exI [of _ info] exI [of _ mnt] exI [of _ pre]) simp
        from p(3) show ?thesis
        proof
          assume "l = ?log @ pre"
          with l qp show ?thesis by (intro exI [of _ "?pre @ ?tail"]) simp
        next
          assume "l = ?log @ pre @ [Kill pid SIGQUIT] @ rest"
          then have "log' = log @ ?pre @ Kill pid SIGQUIT # rest @ ?tail" using l by simp
          moreover have "quiet (rest @ ?tail)" using p(1) by simp
          ultimately show ?thesis using found(1) qp sig
            by (intro exI [of _ "?pre @ Kill pid SIGQUIT # rest @ ?tail"] conjI disjI2 exI [of _ ?pre] exI [of _ "rest @ ?tail"]) simp_all
        qed
      qed
    next
      case False
      then obtain n where n: "1 \<le> n" "n \<le> length ?switch" "ret os (?before @ take n ?switch) \<noteq> 0" by blast
      have "n = 1 \<or> n = 2" using n(1,2) by (auto simp: switch_calls_def split: if_splits)
      then consider (group) "?my_group \<noteq> gid info" "ret os (?before @ [Setegid (gid info)]) \<noteq> 0"
        | (user) "?my_group \<noteq> gid info \<longrightarrow> ret os (?before @ [Setegid (gid info)]) = 0" "?me \<noteq> uid info" "ret os (?before @ ?switch) \<noteq> 0"
        using n(2,3) by (cases "ret os (?before @ [Setegid (gid info)]) = 0") (auto simp: switch_calls_def split: if_splits)
      then have "\<exists>cs. log' = ?before @ cs \<and> quiet cs"
      proof cases
        case group
        with found mnt assms show ?thesis
          by (auto simp: init_jvm_comm_socket_def get_process_info_def status_file_def)
      next
        case user
        with found mnt assms show ?thesis
          by (cases "?my_group = gid info")
            (auto simp: init_jvm_comm_socket_def get_process_info_def status_file_def switch_calls_def)
      qed
      then show ?thesis using q by (auto simp: status_file_def)
    qed
  qed
qed

text \<open>C29. Before the Java process is signalled (\<open>init_jvm_comm_socket\<close>): when initialisation
  signals, the process was found, the effective group and then the effective user were switched to its
  own wherever they differ, each switch succeeded, and the socket was not there yet; the signal is
  \<open>SIGQUIT\<close>, to the process asked for, and it is the only one.\<close>

theorem signals_as_target:
  assumes "run_state (init_jvm_comm_socket os pid) log = (r, log')" and "log' = log @ pre @ Kill p s # post"
    and "\<forall>c \<in> set pre. \<not> is_kill c"
  shows "p = pid \<and> s = SIGQUIT \<and> pid \<noteq> 0 \<and> (\<forall>c \<in> set post. \<not> is_kill c) \<and> signals_after os pid log pre"
proof -
  have new: "quiet (pre @ Kill p s # post) \<or> (pid \<noteq> 0 \<and> (\<exists>pre' rest. pre @ Kill p s # post = pre' @ Kill pid SIGQUIT # rest \<and>
      quiet pre' \<and> quiet rest \<and> signals_after os pid log pre'))"
    using init_calls [OF assms(1)] assms(2) by auto
  have "quiet pre" using assms(3) by (simp add: quiet_def)
  with new show ?thesis by (auto dest!: quiet_split simp: quiet_def [of post])
qed

definition os_target :: os where
  "os_target = os_example\<lparr>lines_of := \<lambda>log. Some [ids_line ''Uid'' [33, 33]]\<rparr>"

definition init_pre :: "sys_call list" where
  "init_pre = [Geteuid, Getegid, status_file 7, Open_File (snprintf 128 (bytes ''/proc/self/ns/mnt'')),
        Open_File (snprintf 128 (bytes ''/proc/'' @ dec_int 7 @ bytes ''/ns/mnt'')), Fstat 0, Fstat 0, Seteuid 33,
        Ignore_Sigpipe, Stat (snprintf MAX_PATH (java_pid_path 7)), Creat (cwd_trigger 7), Close 6, Stat (cwd_trigger 7), Geteuid]"

lemma poll_calls_3: "poll_calls nspid 3 = concat (map (\<lambda>_. poll_calls nspid 1) [0, 1, 2 :: nat])"
  by (simp add: poll_calls_def numeral_eq_Suc)

lemma init_example:
  "run_state (init_jvm_comm_socket os_target 7) [] =
    (Some 7, init_pre @ Kill 7 SIGQUIT # poll_calls 7 3 @ [Unlink (cwd_trigger 7)])"
  by (simp add: init_pre_def init_jvm_comm_socket_def get_process_info_def enter_mount_ns_def start_attach_mechanism_def create_trigger_def
      check_file_owner_def os_target_def os_example_def status_line_uid [of 33 33 "[]", simplified] status_file_def
      run_wait_for_socket_eq socket_seen_def poll_calls_3 Let_def)

theorem signals_as_target_witness:
  "\<exists>pre post. snd (run_state (init_jvm_comm_socket os_target 7) []) = pre @ Kill 7 SIGQUIT # post \<and> Seteuid 33 \<in> set pre \<and>
    signals_after os_target 7 [] pre"
proof -
  have e: "Seteuid 33 \<in> set init_pre" "\<forall>c \<in> set init_pre. \<not> is_kill c" by (simp_all add: init_pre_def status_file_def)
  from signals_as_target [OF init_example _ e(2)] e(1) show ?thesis
    by (intro exI [of _ init_pre] exI [of _ "poll_calls 7 3 @ [Unlink (cwd_trigger 7)]"]) (simp add: init_example)
qed

section \<open>Calls of the collector\<close>

text \<open>A sequence of calls, each with the identifier it is given.\<close>

fun gc_calls :: "os \<Rightarrow> int list \<Rightarrow> int \<Rightarrow> (int list \<times> int) option sys" where
  "gc_calls os [] nspid = return (Some ([], nspid))"
| "gc_calls os (pid # pids) nspid = do {
     r \<leftarrow> manual_jvm_gc os pid nspid;
     case r of None \<Rightarrow> return None
     | Some (r, nspid) \<Rightarrow> do {
         rs \<leftarrow> gc_calls os pids nspid;
         return (map_option (\<lambda>(rs, nspid). (r # rs, nspid)) rs) } }"

text \<open>
  One command on the socket of a process, as the calls it adds to the log: no socket, no connection,
  all messages written, or messages up to the one whose write fails.
\<close>

definition command_sent :: "os \<Rightarrow> sys_call list \<Rightarrow> int \<Rightarrow> byte list list \<Rightarrow> int \<Rightarrow> sys_call list \<Rightarrow> bool" where
  "command_sent os log nspid argv r new \<longleftrightarrow>
     (let fd = ret os (log @ [Socket]); connect = [Socket, Connect fd (snprintf 108 (java_pid_path nspid))];
          start = connect @ [Print (bytes ''Connected to remote JVM'' @ [10])]; failed = Print (bytes ''Could not connect to socket'')
      in if fd = - 1 then r = 1 \<and> new = [Socket, failed]
         else if ret os (log @ connect) = - 1 then r = 1 \<and> new = connect @ [Close fd, failed]
         else r = 0 \<and> all_written os (log @ start) fd (command_messages argv) \<and>
             new = start @ map (Write fd) (command_messages argv) @ [Close fd] \<or>
           (\<exists>n. r = 1 \<and> 1 \<le> n \<and> n \<le> 5 \<and> ret os (log @ start @ map (Write fd) (take n (command_messages argv))) \<le> 0 \<and>
             new = start @ map (Write fd) (take n (command_messages argv)) @
               [Print (bytes ''Error writing to socket''), Close fd]))"

text \<open>Several commands, one after the other, with their results.\<close>

fun commands_sent :: "os \<Rightarrow> sys_call list \<Rightarrow> int \<Rightarrow> byte list list \<Rightarrow> int list \<Rightarrow> sys_call list \<Rightarrow> bool" where
  "commands_sent os log nspid argv [] new \<longleftrightarrow> new = []"
| "commands_sent os log nspid argv (r # rs) new \<longleftrightarrow>
     (\<exists>new1 new2. new = new1 @ new2 \<and> command_sent os log nspid argv r new1 \<and>
        commands_sent os (log @ new1) nspid argv rs new2)"

lemma command_sends:
  assumes "run_state (jvm_run_cmd os nspid argv) log = (r, log')"
  shows "\<exists>new. log' = log @ new \<and> command_sent os log nspid argv r new"
  using command_result [OF assms]
  by (cases "ret os (log @ [Socket]) = - 1";
      cases "ret os (log @ [Socket, Connect (ret os (log @ [Socket])) (snprintf 108 (java_pid_path nspid))]) = - 1")
    (auto simp: Let_def command_sent_def)

lemma later_calls:
  assumes "run_state (gc_calls os pids nspid) log = (res, log')" and "0 \<le> nspid"
  shows "\<exists>new rs. log' = log @ new \<and> res = Some (rs, nspid) \<and> length rs = length pids \<and>
    commands_sent os log nspid [bytes ''jcmd'', bytes ''GC.run''] rs new"
  using assms(1)
proof (induction pids arbitrary: log res)
  case (Cons pid pids)
  obtain r log1 where r: "run_state (jvm_run_cmd os nspid [bytes ''jcmd'', bytes ''GC.run'']) log = (r, log1)" by fastforce
  obtain res1 where g: "run_state (gc_calls os pids nspid) log1 = (res1, log')"
    "res = map_option (\<lambda>(rs, nspid). (r # rs, nspid)) res1"
    using Cons.prems r assms(2) by (auto simp: manual_jvm_gc_def split: prod.splits)
  obtain new1 where n1: "log1 = log @ new1" "command_sent os log nspid [bytes ''jcmd'', bytes ''GC.run''] r new1"
    using command_sends [OF r] by blast
  obtain new rs where n2: "log' = log1 @ new" "res1 = Some (rs, nspid)" "length rs = length pids"
    "commands_sent os log1 nspid [bytes ''jcmd'', bytes ''GC.run''] rs new"
    using Cons.IH [OF g(1)] by blast
  from n1 n2 g(2) show ?case by (intro exI [of _ "new1 @ new"] exI [of _ "r # rs"]) auto
qed simp

text \<open>C31. A failed start is final (\<open>manual_jvm_gc\<close>): when the first call finds no process (none
  is given, or it has no status file), the 1 that \<open>init_jvm_comm_socket\<close> returns is taken for the
  identifier: this call and every later one, whatever process it is given, looks for no process and
  signals none, but does all that sending \<open>jcmd GC.run\<close> to process 1 takes: it opens a socket,
  connects it to the path of process 1 and writes the messages, until one of these fails, and nothing
  else is done.\<close>

theorem failed_start_is_final:
  assumes "pid = 0 \<or> lines_of os (log @ [Geteuid, Getegid, status_file pid]) = None"
    and "run_state (gc_calls os (pid # pids) (- 1)) log = (res, log')"
    and "start = (if pid = 0 then [Print (bytes ''Invalid pid provided'')]
      else [Geteuid, Getegid, status_file pid, Print (bytes ''Process '' @ dec_int pid @ bytes '' not found'' @ [10])])"
  shows "\<exists>rs new. res = Some (rs, 1) \<and> length rs = Suc (length pids) \<and> log' = log @ start @ new \<and>
    commands_sent os (log @ start) 1 [bytes ''jcmd'', bytes ''GC.run''] rs new"
proof -
  have i: "run_state (init_jvm_comm_socket os pid) log = (Some 1, log @ start)"
    using assms(1) by (auto simp: init_jvm_comm_socket_def get_process_info_def status_file_def assms(3))
  have eq: "run_state (gc_calls os (pid # pids) (- 1)) log = run_state (gc_calls os (pid # pids) 1) (log @ start)"
    using i by (simp add: manual_jvm_gc_def case_prod_beta)
  from later_calls [OF assms(2) [unfolded eq]] show ?thesis by auto
qed

theorem failed_start_is_final_witness:
  "\<exists>rs new log'. run_state (gc_calls os_example [0, 7] (- 1)) [] = (Some (rs, 1), log') \<and>
    log' = Print (bytes ''Invalid pid provided'') # new \<and> Connect 5 (snprintf 108 (java_pid_path 1)) \<in> set new \<and> length rs = 2"
proof -
  obtain res log' where r: "run_state (gc_calls os_example [0, 7] (- 1)) [] = (res, log')" by fastforce
  from failed_start_is_final [OF _ r refl] obtain rs new where n: "res = Some (rs, 1)" "length rs = 2"
    "log' = Print (bytes ''Invalid pid provided'') # new"
    "commands_sent os_example [Print (bytes ''Invalid pid provided'')] 1 [bytes ''jcmd'', bytes ''GC.run''] rs new"
    by auto
  have "ret os_example (log @ [Socket]) = 5" "ret os_example (log @ [Socket, Connect 5 p]) = 0" for log p
    by (simp_all add: os_example_def)
  then have c: "Connect 5 (snprintf 108 (java_pid_path 1)) \<in> set x"
    if "command_sent os_example log 1 argv r x" for log argv r x
    using that by (auto simp: command_sent_def Let_def)
  obtain r1 rs1 where "rs = r1 # rs1" using n(2) by (cases rs) auto
  with n(4) c have "Connect 5 (snprintf 108 (java_pid_path 1)) \<in> set new" by auto
  with r n(1-3) show ?thesis by auto
qed

end
