(* ===== verification/Logger.thy ===== *)
theory Logger
  imports C_Str
begin

text \<open>
  The logger (\<open>log.c\<close>, \<open>log.h\<close>, compiled with \<open>USE_LOG\<close>): its static
  state, the setters and \<open>log_log\<close>. What it does to the outside is a sequence of effects: calls
  of the lock function, and the pieces each \<open>fprintf\<close> writes to \<open>stderr\<close> and to the log
  file. The text the caller's format prints is an argument, and so is the time of the call. An
  index outside the tables of names is undefined.
\<close>

section \<open>The code\<close>

datatype log_level = LOG_TRACE | LOG_DEBUG | LOG_INFO | LOG_WARN | LOG_ERROR | LOG_FATAL

definition level_int :: "log_level \<Rightarrow> int" where
  "level_int l = (case l of LOG_TRACE \<Rightarrow> 0 | LOG_DEBUG \<Rightarrow> 1 | LOG_INFO \<Rightarrow> 2 | LOG_WARN \<Rightarrow> 3 | LOG_ERROR \<Rightarrow> 4 | LOG_FATAL \<Rightarrow> 5)"

text \<open>The levels are ordered as their numbers.\<close>

instantiation log_level :: linorder
begin

definition less_eq_log_level :: "log_level \<Rightarrow> log_level \<Rightarrow> bool" where
  "less_eq_log_level a b \<longleftrightarrow> level_int a \<le> level_int b"

definition less_log_level :: "log_level \<Rightarrow> log_level \<Rightarrow> bool" where
  "less_log_level a b \<longleftrightarrow> level_int a < level_int b"

instance
proof
  fix a b :: log_level
  show "a \<le> b \<Longrightarrow> b \<le> a \<Longrightarrow> a = b" by (cases a; cases b) (simp_all add: less_eq_log_level_def level_int_def)
qed (auto simp: less_eq_log_level_def less_log_level_def)

end

text \<open>\<open>struct tm\<close>, as far as it is printed.\<close>

record tm =
  tm_year :: nat
  tm_mon :: nat
  tm_mday :: nat
  tm_hour :: nat
  tm_min :: nat
  tm_sec :: nat

text \<open>A lock function and a file are numbers; what the lock function is called with is an effect.\<close>

datatype log_effect = Lock_Call nat int int | To_Stderr "byte list" | To_File nat "byte list"

record logger =
  udata :: int
  lock_fn :: "nat option"
  fp :: "nat option"
  level :: int
  quiet :: int

definition static_logger :: logger where
  "static_logger = \<lparr>udata = 0, lock_fn = None, fp = None, level = 0, quiet = 0\<rparr>"

definition level_names :: "byte list list" where
  "level_names = map bytes [''TRACE'', ''DEBUG'', ''INFO'', ''WARN'', ''ERROR'', ''FATAL'']"

definition level_colors :: "byte list list" where
  "level_colors = map (\<lambda>s. 27 # bytes s) [''[94m'', ''[36m'', ''[32m'', ''[33m'', ''[31m'', ''[35m'']"

definition lock :: "logger \<Rightarrow> log_effect list" where
  "lock L = (case lock_fn L of None \<Rightarrow> [] | Some f \<Rightarrow> [Lock_Call f (udata L) 1])"

definition unlock :: "logger \<Rightarrow> log_effect list" where
  "unlock L = (case lock_fn L of None \<Rightarrow> [] | Some f \<Rightarrow> [Lock_Call f (udata L) 0])"

definition log_set_udata :: "int \<Rightarrow> logger \<Rightarrow> logger" where "log_set_udata u L = L\<lparr>udata := u\<rparr>"
definition log_set_lock :: "nat option \<Rightarrow> logger \<Rightarrow> logger" where "log_set_lock fn L = L\<lparr>lock_fn := fn\<rparr>"
definition log_set_fp :: "nat option \<Rightarrow> logger \<Rightarrow> logger" where "log_set_fp f L = L\<lparr>fp := f\<rparr>"
definition log_set_level :: "int \<Rightarrow> logger \<Rightarrow> logger" where "log_set_level l L = L\<lparr>level := l\<rparr>"
definition log_set_quiet :: "int \<Rightarrow> logger \<Rightarrow> logger" where
  "log_set_quiet enable L = L\<lparr>quiet := (if enable \<noteq> 0 then 1 else 0)\<rparr>"

text \<open>\<open>%02d\<close>, \<open>%-5s\<close>, and the two formats of \<open>strftime\<close>.\<close>

definition two_digits :: "nat \<Rightarrow> byte list" where
  "two_digits n = (if n < 10 then 48 # dec_nat n else dec_nat n)"

definition pad5 :: "byte list \<Rightarrow> byte list" where
  "pad5 s = s @ replicate (5 - length s) 32"

definition format_time :: "tm \<Rightarrow> byte list" where
  "format_time lt = two_digits (tm_hour lt) @ 58 # two_digits (tm_min lt) @ 58 # two_digits (tm_sec lt)"

definition format_date :: "tm \<Rightarrow> byte list" where
  "format_date lt = dec_nat (1900 + tm_year lt) @ 45 # two_digits (tm_mon lt + 1) @ 45 # two_digits (tm_mday lt) @
     32 # format_time lt"

text \<open>\<open>strftime\<close> into \<open>n\<close> bytes, with the terminator put at its result.\<close>

definition strftime :: "nat \<Rightarrow> byte list \<Rightarrow> byte list" where
  "strftime n s = (if length s < n then s else [])"

definition log_log :: "int \<Rightarrow> byte list \<Rightarrow> int \<Rightarrow> byte list \<Rightarrow> tm \<Rightarrow> logger \<Rightarrow> log_effect list option" where
  "log_log lev file line msg lt L =
     (if lev < level L then Some []
      else do {
        err \<leftarrow> (if quiet L = 0 then do {
            let buf = strftime 16 (format_time lt);
            color \<leftarrow> rd level_colors lev;
            name \<leftarrow> rd level_names lev;
            Some [To_Stderr (buf @ 32 # color @ pad5 name @ 27 # bytes ''[0m '' @ 27 # bytes ''[90m'' @ file @ 58 # dec_int line @
                    58 # 27 # bytes ''[0m ''), To_Stderr msg, To_Stderr [10]] }
          else Some []);
        out \<leftarrow> (case fp L of None \<Rightarrow> Some []
          | Some f \<Rightarrow> do {
              let buf = strftime 32 (format_date lt);
              name \<leftarrow> rd level_names lev;
              Some [To_File f (buf @ 32 # pad5 name @ 32 # file @ 58 # dec_int line @ bytes '': ''), To_File f msg, To_File f [10]] });
        Some (lock L @ err @ out @ unlock L) })"

lemma at_level: "level (log_set_level (level_int l) L) \<le> level_int m \<longleftrightarrow> l \<le> m"
  by (simp add: log_set_level_def less_eq_log_level_def)

text \<open>A line of the program's: \<open>log_info\<close> and its like.\<close>

record message =
  msg_level :: log_level
  msg_file :: "byte list"
  msg_line :: int
  msg_text :: "byte list"
  msg_time :: tm

definition log_message :: "message \<Rightarrow> logger \<Rightarrow> log_effect list option" where
  "log_message m L = log_log (level_int (msg_level m)) (msg_file m) (msg_line m) (msg_text m) (msg_time m) L"

fun log_messages :: "message list \<Rightarrow> logger \<Rightarrow> log_effect list option" where
  "log_messages [] L = Some []"
| "log_messages (m # ms) L = do {
     es \<leftarrow> log_message m L;
     fs \<leftarrow> log_messages ms L;
     Some (es @ fs) }"

section \<open>Lines\<close>

text \<open>What a message is in the file: one line.\<close>

definition level_name :: "log_level \<Rightarrow> byte list" where
  "level_name l = (case l of LOG_TRACE \<Rightarrow> bytes ''TRACE'' | LOG_DEBUG \<Rightarrow> bytes ''DEBUG'' | LOG_INFO \<Rightarrow> bytes ''INFO ''
     | LOG_WARN \<Rightarrow> bytes ''WARN '' | LOG_ERROR \<Rightarrow> bytes ''ERROR'' | LOG_FATAL \<Rightarrow> bytes ''FATAL'')"

definition level_color :: "log_level \<Rightarrow> byte list" where
  "level_color l = 27 # (case l of LOG_TRACE \<Rightarrow> bytes ''[94m'' | LOG_DEBUG \<Rightarrow> bytes ''[36m'' | LOG_INFO \<Rightarrow> bytes ''[32m''
     | LOG_WARN \<Rightarrow> bytes ''[33m'' | LOG_ERROR \<Rightarrow> bytes ''[31m'' | LOG_FATAL \<Rightarrow> bytes ''[35m'')"

definition place :: "message \<Rightarrow> byte list" where
  "place m = msg_file m @ 58 # dec_int (msg_line m) @ [58]"

definition file_line :: "message \<Rightarrow> byte list" where
  "file_line m = format_date (msg_time m) @ 32 # level_name (msg_level m) @ 32 # place m @ 32 # msg_text m @ [10]"

definition stderr_line :: "message \<Rightarrow> byte list" where
  "stderr_line m = format_time (msg_time m) @ 32 # level_color (msg_level m) @ level_name (msg_level m) @ 27 # bytes ''[0m '' @
     27 # bytes ''[90m'' @ place m @ 27 # bytes ''[0m '' @ msg_text m @ [10]"

text \<open>A time of day, in a year of four digits.\<close>

definition valid_tm :: "tm \<Rightarrow> bool" where
  "valid_tm lt \<longleftrightarrow> tm_year lt < 8100 \<and> tm_mon lt < 12 \<and> tm_mday lt < 32 \<and> tm_hour lt < 24 \<and> tm_min lt < 60 \<and> tm_sec lt < 61"

fun to_file :: "nat \<Rightarrow> log_effect \<Rightarrow> byte list" where
  "to_file f (To_File g s) = (if f = g then s else [])"
| "to_file f _ = []"

fun to_stderr :: "log_effect \<Rightarrow> byte list" where
  "to_stderr (To_Stderr s) = s"
| "to_stderr _ = []"

definition file_bytes :: "nat \<Rightarrow> log_effect list \<Rightarrow> byte list" where
  "file_bytes f es = concat (map (to_file f) es)"

definition stderr_bytes :: "log_effect list \<Rightarrow> byte list" where
  "stderr_bytes es = concat (map to_stderr es)"

lemma bytes_of_effects [simp]:
  "file_bytes f [] = []" "file_bytes f (e # es) = to_file f e @ file_bytes f es" "file_bytes f (es @ fs) = file_bytes f es @ file_bytes f fs"
  "stderr_bytes [] = []" "stderr_bytes (e # es) = to_stderr e @ stderr_bytes es" "stderr_bytes (es @ fs) = stderr_bytes es @ stderr_bytes fs"
  by (simp_all add: file_bytes_def stderr_bytes_def)

lemma lock_writes_nothing [simp]:
  "file_bytes f (lock L) = []" "file_bytes f (unlock L) = []" "stderr_bytes (lock L) = []" "stderr_bytes (unlock L) = []"
  by (simp_all add: lock_def unlock_def split: option.split)

lemma dec_nat_within: "n < 10 ^ Suc k \<Longrightarrow> length (dec_nat n) \<le> Suc k"
proof (induction k arbitrary: n)
  case (Suc k)
  then have "length (dec_nat (n div 10)) \<le> Suc k" by (simp add: less_mult_imp_div_less mult.commute)
  then show ?case by (subst dec_nat.simps) simp
qed (simp add: dec_nat.simps)

lemma length_two_digits: "n < 100 \<Longrightarrow> length (two_digits n) \<le> 2"
  using dec_nat_within [of n 1] by (auto simp: two_digits_def dec_nat.simps)

lemma length_dec_nat_4: "n < 10000 \<Longrightarrow> length (dec_nat n) \<le> 4"
  using dec_nat_within [of n 3] by simp

text \<open>The dates fit into the arrays.\<close>

lemma dates_fit:
  assumes "valid_tm lt"
  shows "strftime 16 (format_time lt) = format_time lt" "strftime 32 (format_date lt) = format_date lt"
proof -
  have l: "length (two_digits (tm_hour lt)) \<le> 2" "length (two_digits (tm_min lt)) \<le> 2" "length (two_digits (tm_sec lt)) \<le> 2"
    "length (two_digits (tm_mon lt + 1)) \<le> 2" "length (two_digits (tm_mday lt)) \<le> 2" "length (dec_nat (1900 + tm_year lt)) \<le> 4"
    using assms by (auto simp: valid_tm_def intro!: length_two_digits length_dec_nat_4)
  then show "strftime 16 (format_time lt) = format_time lt" "strftime 32 (format_date lt) = format_date lt"
    by (auto simp: strftime_def format_time_def format_date_def)
qed

lemma tables:
  "rd level_names (level_int l) = Some n \<Longrightarrow> pad5 n = level_name l" "rd level_colors (level_int l) = Some c \<Longrightarrow> c = level_color l"
  "rd level_names (level_int l) \<noteq> None" "rd level_colors (level_int l) \<noteq> None"
  by (cases l; auto simp: rd_def level_int_def level_names_def level_colors_def level_name_def level_color_def pad5_def numeral_eq_Suc bytes_Cons)+

lemma log_message_writes:
  assumes "valid_tm (msg_time m)"
  shows "\<exists>es. log_message m L = Some es \<and>
    (let on = level L \<le> level_int (msg_level m) in
     file_bytes f es = (if on \<and> fp L = Some f then file_line m else []) \<and>
     stderr_bytes es = (if on \<and> quiet L = 0 then stderr_line m else []) \<and>
     (on \<longrightarrow> (\<exists>writes. es = lock L @ writes @ unlock L \<and> (\<forall>e \<in> set writes. \<forall>fn u b. e \<noteq> Lock_Call fn u b))) \<and>
     (\<not> on \<longrightarrow> es = []))"
proof -
  obtain n c where t: "rd level_names (level_int (msg_level m)) = Some n" "rd level_colors (level_int (msg_level m)) = Some c"
    using tables(3,4) [of "msg_level m"] by blast
  note tt = tables(1) [OF t(1)] tables(2) [OF t(2)]
  show ?thesis
    using dates_fit [OF assms] t tt
    by (cases "fp L")
      (auto simp: log_message_def log_log_def Let_def file_line_def stderr_line_def place_def bytes_Cons)
qed

text \<open>C32. The log (\<open>log_log\<close>): of any sequence of messages, the file gets exactly the lines of those
  at or above the level, in order, whether or not the logger is quiet, and \<open>stderr\<close> the same lines
  in colour unless it is; no other file is written and nothing is undefined.\<close>

theorem log_writes_lines:
  assumes "\<forall>m \<in> set ms. valid_tm (msg_time m)"
  shows "\<exists>es. log_messages ms L = Some es \<and>
    file_bytes f es = (if fp L = Some f then concat (map file_line (filter (\<lambda>m. level L \<le> level_int (msg_level m)) ms)) else []) \<and>
    stderr_bytes es = (if quiet L = 0 then concat (map stderr_line (filter (\<lambda>m. level L \<le> level_int (msg_level m)) ms)) else [])"
  using assms
proof (induction ms)
  case (Cons m ms)
  then obtain fs where fs: "log_messages ms L = Some fs"
    "file_bytes f fs = (if fp L = Some f then concat (map file_line (filter (\<lambda>m. level L \<le> level_int (msg_level m)) ms)) else [])"
    "stderr_bytes fs = (if quiet L = 0 then concat (map stderr_line (filter (\<lambda>m. level L \<le> level_int (msg_level m)) ms)) else [])"
    by auto
  have "valid_tm (msg_time m)" using Cons.prems by simp
  from log_message_writes [OF this, of L f] fs show ?case by (auto simp: Let_def)
qed simp

definition message_example :: "log_level \<Rightarrow> string \<Rightarrow> message" where
  "message_example l s = \<lparr>msg_level = l, msg_file = bytes ''main.c'', msg_line = 29, msg_text = bytes s,
     msg_time = \<lparr>tm_year = 118, tm_mon = 5, tm_mday = 9, tm_hour = 8, tm_min = 30, tm_sec = 7\<rparr>\<rparr>"

lemma message_example_line:
  "file_line (message_example LOG_WARN s) = bytes ''2018-06-09 08:30:07 WARN  main.c:29: '' @ bytes s @ [10]"
  by (simp add: file_line_def message_example_def format_date_def format_time_def two_digits_def place_def level_name_def
      dec_int_def dec_nat.simps digit_byte_def bytes_Cons)

theorem log_writes_lines_witness:
  "\<exists>es. log_messages [message_example LOG_DEBUG ''x'', message_example LOG_WARN ''retry''] (static_logger\<lparr>fp := Some 4, level := 2, quiet := 1\<rparr>) = Some es \<and>
    file_bytes 4 es = bytes ''2018-06-09 08:30:07 WARN  main.c:29: retry'' @ [10] \<and> stderr_bytes es = []"
proof -
  let ?ms = "[message_example LOG_DEBUG ''x'', message_example LOG_WARN ''retry'']"
  have v: "\<forall>m \<in> set ?ms. valid_tm (msg_time m)" by (simp add: message_example_def valid_tm_def)
  have l: "msg_level (message_example l s) = l" for l s by (simp add: message_example_def)
  let ?L = "log_set_level (level_int LOG_INFO) (log_set_quiet 7 (log_set_fp (Some 4) static_logger))"
  have L: "?L = static_logger\<lparr>fp := Some 4, level := 2, quiet := 1\<rparr>"
    by (simp add: log_set_level_def log_set_quiet_def log_set_fp_def level_int_def static_logger_def)
  have "filter (\<lambda>m. level ?L \<le> level_int (msg_level m)) ?ms = [message_example LOG_WARN ''retry'']"
    unfolding at_level by (simp add: l less_eq_log_level_def level_int_def)
  then show ?thesis
    using log_writes_lines [OF v, of ?L 4] unfolding L
    by (auto simp: message_example_line bytes_Cons simp del: log_messages.simps filter.simps)
qed

end
