(* ===== verification/Agent_Main.thy ===== *)
theory Agent_Main
  imports Logger Provider_Start
begin

text \<open>
  The program (\<open>main.c\<close>): its arguments, its log and the agent it becomes. \<open>fopen\<close> gives
  the number of the log file or fails; \<open>now\<close> is the time of the next log line, given what happened
  so far. An agent returns, exits with a code, or runs for ever, and may be undefined; its
  first part, which decides most exits, is \<open>init_consumer\<close> or \<open>init_provider\<close>, and what
  follows is an argument. The revision the build puts in is an argument.
\<close>

section \<open>The code\<close>

datatype main_event = Log log_effect | Run_Consumer int "byte list" | Run_Provider "byte list" int int "byte list" | Close_Log nat

datatype agent_end = Agent_Returns | Agent_Exits int | Agent_Runs

datatype program_end = Program_Returns int | Program_Exits int | Program_Runs

record program =
  log_state :: logger
  events :: "main_event list"

text \<open>
  The two agents, from what \<open>etcd_get\<close> and \<open>uv_getaddrinfo\<close> return; \<open>serve\<close> is what
  comes after the initialisation.
\<close>

definition consumer_agent ::
  "(byte list \<Rightarrow> int \<times> byte list list) \<Rightarrow> (endpoint list \<Rightarrow> load_balancer \<Rightarrow> int \<Rightarrow> agent_end option) \<Rightarrow>
   int \<Rightarrow> byte list \<Rightarrow> agent_end option" where
  "consumer_agent etcd serve server_port etcd_url = do {
     r \<leftarrow> init_consumer (etcd etcd_url);
     case r of Inl c \<Rightarrow> Some (Agent_Exits c) | Inr (es, lb) \<Rightarrow> serve es lb server_port }"

definition provider_agent ::
  "(byte list \<Rightarrow> int) \<Rightarrow> (boot \<Rightarrow> int \<Rightarrow> int \<Rightarrow> byte list \<Rightarrow> agent_end option) \<Rightarrow>
   byte list \<Rightarrow> int \<Rightarrow> int \<Rightarrow> byte list \<Rightarrow> agent_end option" where
  "provider_agent getaddrinfo serve provider_type server_port dubbo_port etcd_url =
     (case init_provider provider_type (getaddrinfo provider_type) of Inl c \<Rightarrow> Some (Agent_Exits c)
      | Inr st \<Rightarrow> serve st server_port dubbo_port etcd_url)"

text \<open>\<open>log_info\<close> and \<open>log_fatal\<close> at a line of \<open>main.c\<close>, which is what \<open>__FILE__\<close> is taken to be.\<close>

definition main_log :: "(main_event list \<Rightarrow> tm) \<Rightarrow> log_level \<Rightarrow> int \<Rightarrow> byte list \<Rightarrow> program \<Rightarrow> program option" where
  "main_log now l line text st = do {
     es \<leftarrow> log_message \<lparr>msg_level = l, msg_file = bytes ''main.c'', msg_line = line, msg_text = text,
       msg_time = now (events st)\<rparr> (log_state st);
     Some (st\<lparr>events := events st @ map Log es\<rparr>) }"

definition main_event :: "main_event \<Rightarrow> program \<Rightarrow> program" where
  "main_event e st = st\<lparr>events := events st @ [e]\<rparr>"

text \<open>The end of \<open>main\<close>, after the agent; \<open>fclose\<close> of a null pointer is undefined.\<close>

definition main_finish :: "nat option \<Rightarrow> agent_end \<Rightarrow> program \<Rightarrow> (program_end \<times> program) option" where
  "main_finish log_f r st = (case r of
     Agent_Exits c \<Rightarrow> Some (Program_Exits c, st)
   | Agent_Runs \<Rightarrow> Some (Program_Runs, st)
   | Agent_Returns \<Rightarrow> do { f \<leftarrow> log_f; Some (Program_Returns 0, main_event (Close_Log f) st) })"

definition main_agent ::
  "(int \<Rightarrow> byte list \<Rightarrow> agent_end option) \<Rightarrow> (byte list \<Rightarrow> int \<Rightarrow> int \<Rightarrow> byte list \<Rightarrow> agent_end option) \<Rightarrow>
   (main_event list \<Rightarrow> tm) \<Rightarrow> (byte list \<Rightarrow> nat option) \<Rightarrow> byte list \<Rightarrow> byte list list \<Rightarrow> program \<Rightarrow>
   (program_end \<times> program) option" where
  "main_agent consumer provider now fopen revision argv st =
     (if length argv < 6 then do {
        st \<leftarrow> main_log now LOG_FATAL 14 (bytes ''invalid arguments, exiting.'') st;
        Some (Program_Returns (- 1), st) }
      else do {
        let log_f = fopen (argv ! 5);
        let st = st\<lparr>log_state := log_set_fp log_f (log_state st)\<rparr>;
        st \<leftarrow> main_log now LOG_INFO 26 (bytes ''GIT VERSION: '' @ revision) st;
        st \<leftarrow> main_log now LOG_INFO 29 (bytes ''agent started, type: '' @ argv ! 1) st;
        let server_port = atoi (argv ! 2);
        let dubbo_port = atoi (argv ! 3);
        let etcd_url = argv ! 4;
        st \<leftarrow> main_log now LOG_INFO 37 (bytes ''arguments: server_port->'' @ dec_int server_port @ bytes '', dubbo_port->'' @
          dec_int dubbo_port @ bytes '', etcd_url->'' @ etcd_url) st;
        if argv ! 1 = bytes ''consumer'' then do {
          let st = main_event (Run_Consumer server_port etcd_url) st;
          r \<leftarrow> consumer server_port etcd_url;
          main_finish log_f r st }
        else if take 8 (argv ! 1) = bytes ''provider'' then do {
          let st = main_event (Run_Provider (argv ! 1) server_port dubbo_port etcd_url) st;
          r \<leftarrow> provider (argv ! 1) server_port dubbo_port etcd_url;
          main_finish log_f r st }
        else do {
          st \<leftarrow> main_log now LOG_FATAL 44 (bytes ''invalid agent type: '' @ argv ! 1) st;
          main_finish log_f Agent_Returns st } })"

section \<open>Lemmas\<close>

fun is_log :: "main_event \<Rightarrow> bool" where
  "is_log (Log e) \<longleftrightarrow> True"
| "is_log _ \<longleftrightarrow> False"

text \<open>What the program did beside logging.\<close>

definition deeds :: "program \<Rightarrow> main_event list" where
  "deeds st = filter (\<lambda>e. \<not> is_log e) (events st)"

text \<open>
  The program ends the way its agent does: it closes its log when the agent returns, which is undefined
  without a log file.
\<close>

definition ends_as ::
  "agent_end option \<Rightarrow> nat option \<Rightarrow> main_event list \<Rightarrow> (program_end \<times> program) option \<Rightarrow> bool" where
  "ends_as r log_f evs res = (case r of
     None \<Rightarrow> res = None
   | Some (Agent_Exits c) \<Rightarrow> \<exists>st. res = Some (Program_Exits c, st) \<and> deeds st = evs
   | Some Agent_Runs \<Rightarrow> \<exists>st. res = Some (Program_Runs, st) \<and> deeds st = evs
   | Some Agent_Returns \<Rightarrow> (case log_f of None \<Rightarrow> res = None
       | Some f \<Rightarrow> \<exists>st. res = Some (Program_Returns 0, st) \<and> deeds st = evs @ [Close_Log f]))"

lemma main_log_only_logs:
  assumes "\<forall>es. valid_tm (now es)"
  shows "\<exists>st'. main_log now l line text st = Some st' \<and> log_state st' = log_state st \<and> deeds st' = deeds st"
proof -
  let ?m = "\<lparr>msg_level = l, msg_file = bytes ''main.c'', msg_line = line, msg_text = text, msg_time = now (events st)\<rparr>"
  obtain es where "log_message ?m (log_state st) = Some es"
    using log_message_writes [of ?m "log_state st" 0] assms by auto
  moreover have "filter (\<lambda>e. \<not> is_log e) (map Log es) = []" for es by (induction es) auto
  ultimately show ?thesis by (simp add: main_log_def deeds_def)
qed

lemma main_finish_ends:
  "ends_as r log_f (deeds st) (do { r \<leftarrow> r; main_finish log_f r st })"
  by (auto simp: ends_as_def main_finish_def main_event_def deeds_def split: option.split agent_end.split)

lemma deeds_main_event [simp]: "\<not> is_log e \<Longrightarrow> deeds (main_event e st) = deeds st @ [e]"
  by (simp add: main_event_def deeds_def)

text \<open>Up to the choice of the agent.\<close>

lemma main_agent_chooses:
  assumes "\<forall>es. valid_tm (now es)" and "6 \<le> length argv"
  obtains st st' where "deeds st = []" "deeds st' = []"
    "main_agent consumer provider now fopen revision argv \<lparr>log_state = static_logger, events = []\<rparr> =
      (if argv ! 1 = bytes ''consumer'' then do {
         r \<leftarrow> consumer (atoi (argv ! 2)) (argv ! 4);
         main_finish (fopen (argv ! 5)) r (main_event (Run_Consumer (atoi (argv ! 2)) (argv ! 4)) st) }
       else if take 8 (argv ! 1) = bytes ''provider'' then do {
         r \<leftarrow> provider (argv ! 1) (atoi (argv ! 2)) (atoi (argv ! 3)) (argv ! 4);
         main_finish (fopen (argv ! 5)) r (main_event (Run_Provider (argv ! 1) (atoi (argv ! 2)) (atoi (argv ! 3)) (argv ! 4)) st) }
       else main_finish (fopen (argv ! 5)) Agent_Returns st')"
proof -
  let ?st = "\<lparr>log_state = log_set_fp (fopen (argv ! 5)) static_logger, events = []\<rparr>"
  have d: "deeds ?st = []" by (simp add: deeds_def)
  obtain st1 where st1: "main_log now LOG_INFO 26 (bytes ''GIT VERSION: '' @ revision) ?st = Some st1"
    "deeds st1 = []" using main_log_only_logs [OF assms(1), of LOG_INFO 26] d by metis
  obtain st2 where st2: "main_log now LOG_INFO 29 (bytes ''agent started, type: '' @ argv ! 1) st1 = Some st2"
    "deeds st2 = []" using main_log_only_logs [OF assms(1), of LOG_INFO 29] st1(2) by metis
  obtain st3 where st3: "main_log now LOG_INFO 37 (bytes ''arguments: server_port->'' @ dec_int (atoi (argv ! 2)) @
      bytes '', dubbo_port->'' @ dec_int (atoi (argv ! 3)) @ bytes '', etcd_url->'' @ argv ! 4) st2 = Some st3"
    "deeds st3 = []" using main_log_only_logs [OF assms(1), of LOG_INFO 37] st2(2) by metis
  obtain st4 where st4: "main_log now LOG_FATAL 44 (bytes ''invalid agent type: '' @ argv ! 1) st3 = Some st4"
    "deeds st4 = []" using main_log_only_logs [OF assms(1), of LOG_FATAL 44] st3(2) by metis
  have "\<not> length argv < 6" using assms(2) by simp
  with st1(1) st2(1) st3 st4 show thesis
    by (intro that [of st3 st4]) (simp_all add: main_agent_def Let_def)
qed

section \<open>Properties\<close>

text \<open>C33. The program (\<open>main\<close>), with its log opened or not. With fewer than five arguments it starts
  nothing and returns -1. Else, with its ports in decimal: as \<open>consumer\<close> it runs the consumer
  agent on its port and URL, which exits with -1 when \<open>init_consumer\<close> does; as
  \<open>provider-small\<close>, \<open>-medium\<close> or \<open>-large\<close> it runs the provider agent of scale 0, 1
  or 2, which exits with -1 when its address cannot be looked up; as any other \<open>provider\<close> it exits
  with -1; as anything else it runs no agent. It ends as the agent does, and closes its log exactly
  when the agent returns, which is undefined when the log could not be opened.\<close>

theorem main_runs_agent:
  assumes "\<forall>es. valid_tm (now es)" and "argv ! 2 = dec_nat server_port" and "argv ! 3 = dec_nat dubbo_port"
    and "server_port < 2 ^ 31" and "dubbo_port < 2 ^ 31"
    and "res = main_agent (consumer_agent etcd serve_requests) (provider_agent getaddrinfo serve_dubbo) now fopen revision argv
      \<lparr>log_state = static_logger, events = []\<rparr>"
  shows "if length argv < 6 then \<exists>st. res = Some (Program_Returns (- 1), st) \<and> deeds st = []
    else if argv ! 1 = bytes ''consumer''
    then ends_as (case init_consumer (etcd (argv ! 4)) of None \<Rightarrow> None
        | Some (Inl c) \<Rightarrow> Some (Agent_Exits (- 1))
        | Some (Inr (es, lb)) \<Rightarrow> serve_requests es lb (int server_port))
      (fopen (argv ! 5)) [Run_Consumer (int server_port) (argv ! 4)] res
    else if take 8 (argv ! 1) = bytes ''provider''
    then ends_as (case map_of [(bytes ''provider-small'', 48), (bytes ''provider-medium'', 49), (bytes ''provider-large'', 50)] (argv ! 1) of
          Some c \<Rightarrow> (if getaddrinfo (argv ! 1) = 0
            then serve_dubbo \<lparr>scale = c, lookups = 1, tests = [], test_handles = [], test_closings = [], test_next = 0,
              etcd_puts = []\<rparr> (int server_port) (int dubbo_port) (argv ! 4)
            else Some (Agent_Exits (- 1)))
        | None \<Rightarrow> Some (Agent_Exits (- 1)))
      (fopen (argv ! 5)) [Run_Provider (argv ! 1) (int server_port) (int dubbo_port) (argv ! 4)] res
    else ends_as (Some Agent_Returns) (fopen (argv ! 5)) [] res"
proof (cases "length argv < 6")
  case True
  from main_log_only_logs [OF assms(1), of LOG_FATAL 14 "bytes ''invalid arguments, exiting.''" "\<lparr>log_state = static_logger, events = []\<rparr>"] True
  show ?thesis by (auto simp: assms(6) main_agent_def deeds_def)
next
  case False
  have p: "atoi (argv ! 2) = int server_port" "atoi (argv ! 3) = int dubbo_port"
    using atoi_dec_nat [of server_port "[]"] atoi_dec_nat [of dubbo_port "[]"] assms(2-5) by (simp_all add: int_max_def)
  obtain st st' where st: "deeds st = []" "deeds st' = []" and
    res: "res = (if argv ! 1 = bytes ''consumer'' then do {
         r \<leftarrow> consumer_agent etcd serve_requests (int server_port) (argv ! 4);
         main_finish (fopen (argv ! 5)) r (main_event (Run_Consumer (int server_port) (argv ! 4)) st) }
       else if take 8 (argv ! 1) = bytes ''provider'' then do {
         r \<leftarrow> provider_agent getaddrinfo serve_dubbo (argv ! 1) (int server_port) (int dubbo_port) (argv ! 4);
         main_finish (fopen (argv ! 5)) r (main_event (Run_Provider (argv ! 1) (int server_port) (int dubbo_port) (argv ! 4)) st) }
       else main_finish (fopen (argv ! 5)) Agent_Returns st')"
    using main_agent_chooses [OF assms(1)] False unfolding assms(6) p [symmetric] by (metis not_less)
  have c: "consumer_agent etcd serve_requests (int server_port) (argv ! 4) = (case init_consumer (etcd (argv ! 4)) of None \<Rightarrow> None
        | Some (Inl c) \<Rightarrow> Some (Agent_Exits (- 1)) | Some (Inr (es, lb)) \<Rightarrow> serve_requests es lb (int server_port))"
    using init_consumer_exit [of "etcd (argv ! 4)"]
    by (auto simp: consumer_agent_def split: option.split sum.split)
  have q: "provider_agent getaddrinfo serve_dubbo (argv ! 1) (int server_port) (int dubbo_port) (argv ! 4) =
      (case map_of [(bytes ''provider-small'', 48), (bytes ''provider-medium'', 49), (bytes ''provider-large'', 50)] (argv ! 1) of
          Some c \<Rightarrow> (if getaddrinfo (argv ! 1) = 0
            then serve_dubbo \<lparr>scale = c, lookups = 1, tests = [], test_handles = [], test_closings = [], test_next = 0,
              etcd_puts = []\<rparr> (int server_port) (int dubbo_port) (argv ! 4)
            else Some (Agent_Exits (- 1)))
        | None \<Rightarrow> Some (Agent_Exits (- 1)))"
    by (simp add: provider_agent_def init_provider_def provider_scale_def)
  show ?thesis
    using False main_finish_ends [of "consumer_agent etcd serve_requests (int server_port) (argv ! 4)" "fopen (argv ! 5)"
        "main_event (Run_Consumer (int server_port) (argv ! 4)) st"]
      main_finish_ends [of "provider_agent getaddrinfo serve_dubbo (argv ! 1) (int server_port) (int dubbo_port) (argv ! 4)" "fopen (argv ! 5)"
        "main_event (Run_Provider (argv ! 1) (int server_port) (int dubbo_port) (argv ! 4)) st"]
      main_finish_ends [of "Some Agent_Returns" "fopen (argv ! 5)" st'] st
    unfolding res c q by simp
qed

theorem main_runs_agent_witness:
  "\<exists>st. main_agent (consumer_agent (\<lambda>url. (0, [])) (\<lambda>es lb port. Some Agent_Runs)) (provider_agent (\<lambda>host. 0) (\<lambda>st port dubbo url. Some Agent_Runs))
      (\<lambda>es. msg_time (message_example LOG_INFO '''')) (\<lambda>p. Some 4) (bytes ''4b825dc'')
      [bytes ''agent'', bytes ''provider-foo'', dec_nat 30000, dec_nat 20880, bytes ''http://etcd:2379'', bytes ''/root/logs/agent.log'']
      \<lparr>log_state = static_logger, events = []\<rparr> = Some (Program_Exits (- 1), st) \<and>
    deeds st = [Run_Provider (bytes ''provider-foo'') 30000 20880 (bytes ''http://etcd:2379'')]"
proof -
  have "valid_tm (msg_time (message_example LOG_INFO ''''))" by (simp add: message_example_def valid_tm_def)
  then show ?thesis
    using main_runs_agent [where now = "\<lambda>es. msg_time (message_example LOG_INFO '''')" and fopen = "\<lambda>p. Some 4"
        and revision = "bytes ''4b825dc''" and server_port = 30000 and dubbo_port = 20880 and etcd = "\<lambda>url. (0, [])"
        and serve_requests = "\<lambda>es lb port. Some Agent_Runs" and getaddrinfo = "\<lambda>host. 0" and serve_dubbo = "\<lambda>st port dubbo url. Some Agent_Runs"
        and argv = "[bytes ''agent'', bytes ''provider-foo'', dec_nat 30000, dec_nat 20880, bytes ''http://etcd:2379'', bytes ''/root/logs/agent.log'']",
        OF _ _ _ _ _ refl]
    by (simp add: ends_as_def bytes_def)
qed

end
