(* ===== verification/Atomic_Integer.thy ===== *)
theory Atomic_Integer
  imports Prelude
begin

text \<open>
  The locked counter (\<open>atomic_integer.h\<close>), used by any number of threads. A step is one line of
  \<open>atomic_add\<close> in one thread: the first read of the value, which happens outside the lock, the
  lock, the addition, the second read, the unlock. \<open>returned\<close> is the history: which thread added
  what, and what it was given back. The addition is undefined when the value leaves \<open>int\<close>.
\<close>

section \<open>The code\<close>

datatype pc = Idle | Entered int | Before_Lock int int | Locked int int | Added int int | Before_Unlock int int

record atomic_int =
  atom_value :: int
  atom_lock :: "nat option"
  threads :: "nat \<Rightarrow> pc"
  returned :: "(nat \<times> int \<times> int) list"

definition init_atomic_integer :: "int \<Rightarrow> atomic_int" where
  "init_atomic_integer init_value = \<lparr>atom_value = init_value, atom_lock = None, threads = (\<lambda>_. Idle), returned = []\<rparr>"

definition goto :: "nat \<Rightarrow> pc \<Rightarrow> atomic_int \<Rightarrow> atomic_int" where
  "goto i c st = st\<lparr>threads := (threads st)(i := c)\<rparr>"

inductive atomic_add_step :: "nat \<Rightarrow> atomic_int \<Rightarrow> atomic_int \<Rightarrow> bool" for i where
  call: "threads st i = Idle \<Longrightarrow> atomic_add_step i st (goto i (Entered delta) st)"
| first_read: "threads st i = Entered delta \<Longrightarrow> atomic_add_step i st (goto i (Before_Lock delta (atom_value st)) st)"
| lock: "threads st i = Before_Lock delta ret \<Longrightarrow> atom_lock st = None \<Longrightarrow>
    atomic_add_step i st (goto i (Locked delta ret) (st\<lparr>atom_lock := Some i\<rparr>))"
| add: "threads st i = Locked delta ret \<Longrightarrow> int_ok (atom_value st + delta) \<Longrightarrow>
    atomic_add_step i st (goto i (Added delta ret) (st\<lparr>atom_value := atom_value st + delta\<rparr>))"
| second_read: "threads st i = Added delta ret \<Longrightarrow> atomic_add_step i st (goto i (Before_Unlock delta (atom_value st)) st)"
| unlock: "threads st i = Before_Unlock delta ret \<Longrightarrow>
    atomic_add_step i st (goto i Idle (st\<lparr>atom_lock := None, returned := returned st @ [(i, delta, ret)]\<rparr>))"

inductive_cases atomic_add_stepE: "atomic_add_step i st st'"

inductive atomic_reach :: "int \<Rightarrow> atomic_int \<Rightarrow> bool" for init_value where
  start: "atomic_reach init_value (init_atomic_integer init_value)"
| step: "atomic_reach init_value st \<Longrightarrow> atomic_add_step i st st' \<Longrightarrow> atomic_reach init_value st'"

section \<open>Invariant\<close>

text \<open>What a thread has added and not yet returned.\<close>

fun pending :: "pc \<Rightarrow> int option" where
  "pending (Added delta ret) = Some delta"
| "pending (Before_Unlock delta ret) = Some delta"
| "pending _ = None"

fun in_section :: "pc \<Rightarrow> bool" where
  "in_section (Locked delta ret) \<longleftrightarrow> True"
| "in_section (Added delta ret) \<longleftrightarrow> True"
| "in_section (Before_Unlock delta ret) \<longleftrightarrow> True"
| "in_section _ \<longleftrightarrow> False"

definition total :: "(nat \<times> int \<times> int) list \<Rightarrow> int" where
  "total rs = sum_list (map (\<lambda>(i, delta, ret). delta) rs)"

definition being_added :: "atomic_int \<Rightarrow> int" where
  "being_added st = (case atom_lock st of None \<Rightarrow> 0 | Some i \<Rightarrow> (case pending (threads st i) of None \<Rightarrow> 0 | Some d \<Rightarrow> d))"

text \<open>Each call gave back the sum up to and with its own addition.\<close>

definition sums :: "int \<Rightarrow> (nat \<times> int \<times> int) list \<Rightarrow> bool" where
  "sums v rs \<longleftrightarrow> (\<forall>k < length rs. snd (snd (rs ! k)) = v + total (take (Suc k) rs))"

lemma sums_snoc: "sums v (rs @ [(i, delta, ret)]) \<longleftrightarrow> sums v rs \<and> ret = v + total rs + delta"
  by (auto simp: sums_def total_def nth_append less_Suc_eq)

definition atomic_inv :: "int \<Rightarrow> atomic_int \<Rightarrow> bool" where
  "atomic_inv v st \<longleftrightarrow>
     (\<forall>i. in_section (threads st i) \<longleftrightarrow> atom_lock st = Some i) \<and>
     atom_value st = v + total (returned st) + being_added st \<and>
     (\<forall>i delta ret. threads st i = Before_Unlock delta ret \<longrightarrow> ret = atom_value st) \<and>
     sums v (returned st)"

lemma atomic_inv_init: "atomic_inv v (init_atomic_integer v)"
  by (simp add: atomic_inv_def init_atomic_integer_def total_def sums_def being_added_def)

lemma goto_fields [simp]:
  "threads (goto i c st) = (threads st)(i := c)" "atom_lock (goto i c st) = atom_lock st"
  "atom_value (goto i c st) = atom_value st" "returned (goto i c st) = returned st"
  by (simp_all add: goto_def)

lemma atomic_inv_step:
  assumes inv: "atomic_inv v st" and "atomic_add_step i st st'"
  shows "atomic_inv v st'"
proof -
  have sec: "\<And>j. in_section (threads st j) \<longleftrightarrow> atom_lock st = Some j" using inv by (simp add: atomic_inv_def)
  have out: "atom_lock st \<noteq> Some i" if "\<not> in_section (threads st i)" using sec [of i] that by simp
  have inside: "atom_lock st = Some i" if "in_section (threads st i)" using sec [of i] that by simp
  note defs = atomic_inv_def being_added_def sums_snoc total_def
  from assms(2) show ?thesis
    by (elim atomic_add_stepE)
      (use inv out inside in \<open>auto simp: defs split: option.splits\<close>)
qed

lemma atomic_reach_inv: "atomic_reach v st \<Longrightarrow> atomic_inv v st"
  by (induction rule: atomic_reach.induct) (auto intro: atomic_inv_init atomic_inv_step)

section \<open>Property\<close>

text \<open>The counter (\<open>atomic_add\<close>): under every interleaving of any number of threads, the calls
  that have returned took effect one after the other, in the order in which they returned: each gave
  back the initial value and everything added up to and with its own addition; the value is that of the last one
  and of the one in progress, and at most one thread is between lock and unlock. The value read before
  the lock is never given back.\<close>

theorem atomic_add_sums:
  assumes "atomic_reach v st"
  shows "(\<forall>k < length (returned st). snd (snd (returned st ! k)) =
      v + sum_list (map (\<lambda>(i, delta, ret). delta) (take (Suc k) (returned st)))) \<and>
    atom_value st = v + sum_list (map (\<lambda>(i, delta, ret). delta) (returned st)) + being_added st \<and>
    (\<forall>i j. in_section (threads st i) \<and> in_section (threads st j) \<longrightarrow> i = j)"
  using atomic_reach_inv [OF assms] by (auto simp: atomic_inv_def sums_def total_def)

text \<open>Two threads: the second reads before the first one's addition and adds after it.\<close>

lemma atomic_example_reached:
  "\<exists>st. atomic_reach 5 st \<and> returned st = [(0, 3, 8), (1, 4, 12)] \<and> atom_value st = 12 \<and> atom_lock st = None"
proof -
  let ?s0 = "init_atomic_integer 5"
  let ?s1 = "goto 1 (Entered 4) (goto 0 (Entered 3) ?s0)"
  let ?s2 = "goto 1 (Before_Lock 4 5) (goto 0 (Before_Lock 3 5) ?s1)"
  let ?s3 = "goto 0 (Before_Unlock 3 8) (goto 0 (Added 3 5) ((goto 0 (Locked 3 5) (?s2\<lparr>atom_lock := Some 0\<rparr>))\<lparr>atom_value := 8\<rparr>))"
  let ?s4 = "goto 0 Idle (?s3\<lparr>atom_lock := None, returned := [(0, 3, 8)]\<rparr>)"
  let ?s5 = "goto 1 (Before_Unlock 4 12) (goto 1 (Added 4 5) ((goto 1 (Locked 4 5) (?s4\<lparr>atom_lock := Some 1\<rparr>))\<lparr>atom_value := 12\<rparr>))"
  let ?s6 = "goto 1 Idle (?s5\<lparr>atom_lock := None, returned := [(0, 3, 8), (1, 4, 12)]\<rparr>)"
  note R = atomic_reach.step
  have "atomic_reach 5 (goto 0 (Entered 3) ?s0)"
    by (rule R [OF atomic_reach.start atomic_add_step.call]) (simp add: init_atomic_integer_def)
  then have "atomic_reach 5 ?s1" by (rule R [OF _ atomic_add_step.call]) (simp add: init_atomic_integer_def)
  then have "atomic_reach 5 (goto 0 (Before_Lock 3 5) ?s1)"
    using R [OF _ atomic_add_step.first_read [of ?s1 0 3]] by (simp add: init_atomic_integer_def)
  then have "atomic_reach 5 ?s2"
    using R [OF _ atomic_add_step.first_read [of "goto 0 (Before_Lock 3 5) ?s1" 1 4]] by (simp add: init_atomic_integer_def)
  then have "atomic_reach 5 (goto 0 (Locked 3 5) (?s2\<lparr>atom_lock := Some 0\<rparr>))"
    by (rule R [OF _ atomic_add_step.lock]) (simp_all add: init_atomic_integer_def)
  then have "atomic_reach 5 (goto 0 (Added 3 5) ((goto 0 (Locked 3 5) (?s2\<lparr>atom_lock := Some 0\<rparr>))\<lparr>atom_value := 8\<rparr>))"
    using R [OF _ atomic_add_step.add [of "goto 0 (Locked 3 5) (?s2\<lparr>atom_lock := Some 0\<rparr>)" 0 3 5]]
    by (simp add: init_atomic_integer_def int_ok_def)
  then have "atomic_reach 5 ?s3"
    using R [OF _ atomic_add_step.second_read [of "goto 0 (Added 3 5) ((goto 0 (Locked 3 5) (?s2\<lparr>atom_lock := Some 0\<rparr>))\<lparr>atom_value := 8\<rparr>)" 0 3 5]]
    by simp
  then have "atomic_reach 5 ?s4"
    using R [OF _ atomic_add_step.unlock [of ?s3 0 3 8]] by (simp add: init_atomic_integer_def goto_def)
  then have "atomic_reach 5 (goto 1 (Locked 4 5) (?s4\<lparr>atom_lock := Some 1\<rparr>))"
    by (rule R [OF _ atomic_add_step.lock]) (simp_all add: goto_def)
  then have "atomic_reach 5 (goto 1 (Added 4 5) ((goto 1 (Locked 4 5) (?s4\<lparr>atom_lock := Some 1\<rparr>))\<lparr>atom_value := 12\<rparr>))"
    using R [OF _ atomic_add_step.add [of "goto 1 (Locked 4 5) (?s4\<lparr>atom_lock := Some 1\<rparr>)" 1 4 5]]
    by (simp add: int_ok_def goto_def)
  then have "atomic_reach 5 ?s5"
    using R [OF _ atomic_add_step.second_read [of "goto 1 (Added 4 5) ((goto 1 (Locked 4 5) (?s4\<lparr>atom_lock := Some 1\<rparr>))\<lparr>atom_value := 12\<rparr>)" 1 4 5]]
    by simp
  then have "atomic_reach 5 ?s6"
    using R [OF _ atomic_add_step.unlock [of ?s5 1 4 12]] by (simp add: goto_def)
  then show ?thesis by (intro exI [of _ ?s6]) (simp add: goto_def)
qed

theorem atomic_add_sums_witness:
  "\<exists>st. atomic_reach 5 st \<and> returned st = [(0, 3, 8), (1, 4, 12)] \<and> snd (snd (returned st ! 1)) = 5 + (3 + 4)"
proof -
  obtain st where st: "atomic_reach 5 st" "returned st = [(0, 3, 8), (1, 4, 12)]" using atomic_example_reached by blast
  from atomic_add_sums [OF st(1)] st show ?thesis by (intro exI [of _ st]) (auto simp: less_Suc_eq)
qed

end
