(* ===== verification/Host_Utils.thy ===== *)
theory Host_Utils
  imports C_Str
begin

text \<open>
  The helpers of \<open>utils.c\<close> on addresses and files: \<open>hostIPaddr\<close>,
  \<open>resolveToIp4Str\<close> and \<open>save_to_binary_file\<close>. What the system's resolver answers is an
  argument. Blocks of memory are byte lists; an \<open>Inl\<close> is an exit of the process.
\<close>

section \<open>The code\<close>

definition AF_INET :: int where "AF_INET = 2"
definition AF_INET6 :: int where "AF_INET6 = 10"
definition NI_MAXHOST :: nat where "NI_MAXHOST = 1025"
definition EXIT_FAILURE :: int where "EXIT_FAILURE = 1"

text \<open>An entry of the list of interfaces; its address may be missing.\<close>

record ifaddr =
  ifa_name :: "byte list"
  ifa_family :: "int option"

text \<open>\<open>getnameinfo\<close> gives the numeric host of an interface, a string that fits the array, or fails.\<close>

fun host_loop :: "(ifaddr \<Rightarrow> byte list option) \<Rightarrow> byte list \<Rightarrow> ifaddr list \<Rightarrow> byte list \<Rightarrow> (int + byte list) option" where
  "host_loop getnameinfo eth_name [] res = Some (Inr res)"
| "host_loop getnameinfo eth_name (ifa # ifas) res =
     (case ifa_family ifa of None \<Rightarrow> host_loop getnameinfo eth_name ifas res
      | Some family \<Rightarrow>
          if family = AF_INET \<or> family = AF_INET6 then
            (case getnameinfo ifa of None \<Rightarrow> Some (Inl EXIT_FAILURE)
             | Some host \<Rightarrow>
                 if family = AF_INET \<and> eth_name = ifa_name ifa then do {
                   res \<leftarrow> store res 0 (host @ [0]);
                   host_loop getnameinfo eth_name ifas res }
                 else host_loop getnameinfo eth_name ifas res)
          else host_loop getnameinfo eth_name ifas res)"

definition hostIPaddr ::
  "byte list \<Rightarrow> (ifaddr \<Rightarrow> byte list option) \<Rightarrow> ifaddr list option \<Rightarrow> byte list \<Rightarrow> (int + byte list) option" where
  "hostIPaddr fresh getnameinfo getifaddrs eth_name = do {
     guard (length fresh = NI_MAXHOST);
     res \<leftarrow> wr fresh 0 0;
     case getifaddrs of None \<Rightarrow> Some (Inl EXIT_FAILURE)
     | Some ifaddr \<Rightarrow> host_loop getnameinfo eth_name ifaddr res }"

text \<open>The text of an IPv4 address of four bytes.\<close>

definition inet_ntoa :: "byte \<times> byte \<times> byte \<times> byte \<Rightarrow> byte list" where
  "inet_ntoa addr = (case addr of (a, b, c, d) \<Rightarrow>
     dec_nat (unat a) @ 46 # dec_nat (unat b) @ 46 # dec_nat (unat c) @ 46 # dec_nat (unat d))"

text \<open>The inner option is the pointer that is returned.\<close>

definition resolveToIp4Str ::
  "(byte list \<Rightarrow> (byte \<times> byte \<times> byte \<times> byte) option) \<Rightarrow> byte list \<Rightarrow> byte list option option" where
  "resolveToIp4Str gethostbyname hostname = (
     let res = replicate 16 0
     in case gethostbyname hostname of None \<Rightarrow> Some None
       | Some h_addr \<Rightarrow> do {
           let address = inet_ntoa h_addr;
           res \<leftarrow> store res 0 (address @ [0]);
           Some (Some res) })"

text \<open>The file's new contents; writing to a file that could not be opened is undefined.\<close>

definition save_to_binary_file :: "bool \<Rightarrow> byte list \<Rightarrow> int \<Rightarrow> byte list option" where
  "save_to_binary_file opened buf n = do {
     guard opened;
     load buf 0 n }"

text \<open>What \<open>get_cpu_info\<close> logs, from the model and the speed of each processor; it looks at the first.\<close>

definition get_cpu_info :: "(byte list \<times> int) list \<Rightarrow> byte list list option" where
  "get_cpu_info uv_cpus_info = do {
     cpu_info \<leftarrow> rd uv_cpus_info 0;
     Some [bytes ''System has '' @ dec_int (int (length uv_cpus_info)) @ bytes '' cpus'',
       bytes ''###################################CPU_INFO###################################'',
       bytes ''CPU model: '' @ fst cpu_info @ bytes '', speed: '' @ dec_int (snd cpu_info) @ bytes ''MHZ'',
       bytes ''#############################################################################''] }"

section \<open>Properties\<close>

text \<open>The C string at the start of a block.\<close>

definition c_string :: "byte list \<Rightarrow> byte list" where
  "c_string m = takeWhile (\<lambda>b. b \<noteq> 0) m"

lemma c_string_store:
  assumes "store m 0 (s @ [0]) = Some m'" and "0 \<notin> set s"
  shows "c_string m' = s"
proof -
  have "m' = s @ 0 # drop (length s + 1) m" using assms(1) by (auto simp: store_def split: if_splits)
  then show ?thesis using assms(2) by (auto simp: c_string_def takeWhile_append)
qed

lemma dec_nat_byte: "length (dec_nat (unat (b :: byte))) \<le> 3"
proof -
  have "unat b < 256" using unsigned_less [of b] by simp
  then show ?thesis by (simp add: dec_nat.simps)
qed

lemma inet_ntoa_fits: "length (inet_ntoa a) < 16" "0 \<notin> set (inet_ntoa a)"
proof -
  obtain b c d e where a: "a = (b, c, d, e)" by (cases a)
  show "length (inet_ntoa a) < 16"
    using dec_nat_byte [of b] dec_nat_byte [of c] dec_nat_byte [of d] dec_nat_byte [of e] by (simp add: a inet_ntoa_def)
  have "0 \<notin> set (dec_nat n)" for n using dec_nat_digits [of n] by (auto simp: is_digit_def)
  then show "0 \<notin> set (inet_ntoa a)" by (simp add: a inet_ntoa_def)
qed

text \<open>Resolving a name (\<open>resolveToIp4Str\<close>): the text of any IPv4 address fits the 16 bytes
  with its terminator, so the copy stays inside the block, which then holds that text; a name that does
  not resolve gives a null pointer.\<close>

theorem resolve_fits:
  "\<exists>r. resolveToIp4Str gethostbyname hostname = Some r \<and>
    (case gethostbyname hostname of None \<Rightarrow> r = None
     | Some a \<Rightarrow> \<exists>m. r = Some m \<and> length m = 16 \<and> c_string m = inet_ntoa a)"
proof (cases "gethostbyname hostname")
  case (Some a)
  have "length (inet_ntoa a @ [0]) \<le> 16" using inet_ntoa_fits(1) [of a] by simp
  then obtain m where m: "store (replicate 16 0) 0 (inet_ntoa a @ [0]) = Some m" by (simp add: store_Some)
  with Some c_string_store [OF m inet_ntoa_fits(2)] length_store [OF m] show ?thesis
    by (simp add: resolveToIp4Str_def Let_def)
qed (simp add: resolveToIp4Str_def)

definition has_host :: "ifaddr \<Rightarrow> bool" where
  "has_host ifa \<longleftrightarrow> ifa_family ifa = Some AF_INET \<or> ifa_family ifa = Some AF_INET6"

definition some_fails :: "(ifaddr \<Rightarrow> byte list option) \<Rightarrow> ifaddr list \<Rightarrow> bool" where
  "some_fails getnameinfo ifas \<longleftrightarrow> (\<exists>ifa \<in> set ifas. has_host ifa \<and> getnameinfo ifa = None)"

definition hosts_of :: "(ifaddr \<Rightarrow> byte list option) \<Rightarrow> byte list \<Rightarrow> ifaddr list \<Rightarrow> byte list list" where
  "hosts_of getnameinfo eth_name ifas =
     map (\<lambda>ifa. the (getnameinfo ifa)) (filter (\<lambda>ifa. ifa_family ifa = Some AF_INET \<and> ifa_name ifa = eth_name) ifas)"

lemma host_loop_result:
  assumes "length res = NI_MAXHOST" and "\<forall>ifa host. getnameinfo ifa = Some host \<longrightarrow> length host < NI_MAXHOST \<and> 0 \<notin> set host"
  shows "if some_fails getnameinfo ifas
    then host_loop getnameinfo eth_name ifas res = Some (Inl EXIT_FAILURE)
    else \<exists>m. host_loop getnameinfo eth_name ifas res = Some (Inr m) \<and>
      c_string m = last (c_string res # hosts_of getnameinfo eth_name ifas)"
  using assms(1)
proof (induction ifas arbitrary: res)
  case (Cons ifa ifas)
  show ?case
  proof (cases "\<exists>host. ifa_family ifa = Some AF_INET \<and> eth_name = ifa_name ifa \<and> getnameinfo ifa = Some host")
    case True
    then obtain host where h: "ifa_family ifa = Some AF_INET" "eth_name = ifa_name ifa" "getnameinfo ifa = Some host" by blast
    then have l: "length (host @ [0]) \<le> length res" "0 \<notin> set host" using assms(2) Cons.prems by (auto simp: Suc_le_eq)
    then obtain m where m: "store res 0 (host @ [0]) = Some m" by (simp add: store_Some)
    have "length m = NI_MAXHOST" using length_store [OF m] Cons.prems by simp
    note IH = Cons.IH [OF this]
    have "host_loop getnameinfo eth_name (ifa # ifas) res = host_loop getnameinfo eth_name ifas m"
      using m h by simp
    moreover have "hosts_of getnameinfo eth_name (ifa # ifas) = host # hosts_of getnameinfo eth_name ifas"
      using h by (simp add: hosts_of_def)
    moreover have "some_fails getnameinfo (ifa # ifas) = some_fails getnameinfo ifas"
      using h by (simp add: some_fails_def)
    ultimately show ?thesis using IH c_string_store [OF m l(2)] by (cases "some_fails getnameinfo ifas") simp_all
  next
    case other: False
    show ?thesis
    proof (cases "has_host ifa \<and> getnameinfo ifa = None")
      case True
      then have "host_loop getnameinfo eth_name (ifa # ifas) res = Some (Inl EXIT_FAILURE)" by (auto simp: has_host_def)
      moreover have "some_fails getnameinfo (ifa # ifas)" using True by (auto simp: some_fails_def)
      ultimately show ?thesis by simp
    next
      case False
      then have "host_loop getnameinfo eth_name (ifa # ifas) res = host_loop getnameinfo eth_name ifas res"
        using other by (auto simp: has_host_def split: option.splits)
      moreover have "hosts_of getnameinfo eth_name (ifa # ifas) = hosts_of getnameinfo eth_name ifas"
        using other False by (auto simp: hosts_of_def has_host_def)
      moreover have "some_fails getnameinfo (ifa # ifas) = some_fails getnameinfo ifas" using False by (auto simp: some_fails_def)
      ultimately show ?thesis using Cons.IH [OF Cons.prems] by (cases "some_fails getnameinfo ifas") simp_all
    qed
  qed
qed (simp add: hosts_of_def some_fails_def)

text \<open>The host's own address (\<open>hostIPaddr\<close>): if the numeric host of every interface with an
  IPv4 or IPv6 address can be had, the result is that of the last interface of the name with an IPv4
  address, or the empty string when there is none; otherwise, or without a list of interfaces, the
  process ends.\<close>

theorem host_address:
  assumes "length fresh = NI_MAXHOST" and "\<forall>ifa host. getnameinfo ifa = Some host \<longrightarrow> length host < NI_MAXHOST \<and> 0 \<notin> set host"
  shows "case getifaddrs of
      None \<Rightarrow> hostIPaddr fresh getnameinfo getifaddrs eth_name = Some (Inl EXIT_FAILURE)
    | Some ifas \<Rightarrow> if some_fails getnameinfo ifas
        then hostIPaddr fresh getnameinfo getifaddrs eth_name = Some (Inl EXIT_FAILURE)
        else \<exists>m. hostIPaddr fresh getnameinfo getifaddrs eth_name = Some (Inr m) \<and>
          c_string m = last ([] # hosts_of getnameinfo eth_name ifas)"
proof -
  obtain res where res: "wr fresh 0 0 = Some res" "length res = NI_MAXHOST" "c_string res = []"
    using assms(1) by (cases fresh) (auto simp: wr_def store_def NI_MAXHOST_def c_string_def)
  show ?thesis
  proof (cases getifaddrs)
    case (Some ifas)
    from host_loop_result [OF res(2) assms(2), of ifas eth_name] Some assms(1) res(1,3) show ?thesis
      by (cases "some_fails getnameinfo ifas") (simp_all add: hostIPaddr_def)
  qed (use assms(1) res(1) in \<open>simp add: hostIPaddr_def\<close>)
qed

definition interfaces_example :: "ifaddr list" where
  "interfaces_example = [\<lparr>ifa_name = bytes ''lo'', ifa_family = Some AF_INET\<rparr>, \<lparr>ifa_name = bytes ''eth0'', ifa_family = Some 17\<rparr>,
     \<lparr>ifa_name = bytes ''eth0'', ifa_family = Some AF_INET\<rparr>, \<lparr>ifa_name = bytes ''eth0'', ifa_family = Some AF_INET6\<rparr>]"

definition names_example :: "ifaddr \<Rightarrow> byte list option" where
  "names_example ifa = Some (bytes (if ifa_name ifa = bytes ''lo'' then ''127.0.0.1''
     else if ifa_family ifa = Some AF_INET then ''10.0.0.7'' else ''fe80::1''))"

theorem host_address_witness:
  "\<exists>m. hostIPaddr (replicate 1025 7) names_example (Some interfaces_example) (bytes ''eth0'') = Some (Inr m) \<and>
    c_string m = bytes ''10.0.0.7''"
proof -
  have "\<forall>ifa host. names_example ifa = Some host \<longrightarrow> length host < NI_MAXHOST \<and> 0 \<notin> set host"
    by (auto simp: names_example_def NI_MAXHOST_def bytes_Cons)
  moreover have "\<not> some_fails names_example interfaces_example" by (simp add: some_fails_def names_example_def)
  moreover have "hosts_of names_example (bytes ''eth0'') interfaces_example = [bytes ''10.0.0.7'']"
    by (simp add: hosts_of_def interfaces_example_def names_example_def AF_INET_def AF_INET6_def bytes_Cons)
  ultimately show ?thesis
    using host_address [of "replicate 1025 7" names_example "Some interfaces_example" "bytes ''eth0''"]
    by (simp add: NI_MAXHOST_def)
qed

end
