(* ===== verification/Heap_Blocks.thy ===== *)
theory Heap_Blocks
  imports Prelude
begin

text \<open>
  The functions of both agents that only take or give back memory: the buffers for what is read and
  thrown away, the callbacks that free the request of a write (with its data or without), a block queue
  and a response string. A block is a number; freeing one that is not allocated is undefined. Which
  blocks are live elsewhere is part of the state of each component.
\<close>

section \<open>The code\<close>

type_synonym block = nat

record blocks =
  live :: "block set"
  next_block :: block

definition malloc_block :: "blocks \<Rightarrow> block \<times> blocks" where
  "malloc_block st = (next_block st, st\<lparr>next_block := next_block st + 1, live := insert (next_block st) (live st)\<rparr>)"

definition free_block :: "block \<Rightarrow> blocks \<Rightarrow> blocks option" where
  "free_block p st = (if p \<in> live st then Some (st\<lparr>live := live st - {p}\<rparr>) else None)"

text \<open>The callbacks of writes: the request, with the data it carries or without.\<close>

definition free_write_req_without_data :: "block \<Rightarrow> blocks \<Rightarrow> blocks option" where
  "free_write_req_without_data req st = free_block req st"

definition free_write_req_with_data :: "block \<Rightarrow> block \<Rightarrow> blocks \<Rightarrow> blocks option" where
  "free_write_req_with_data req data st = do { st \<leftarrow> free_block data st; free_block req st }"

definition after_write_to_provider_agent :: "block \<Rightarrow> blocks \<Rightarrow> blocks option" where
  "after_write_to_provider_agent handle st = free_block handle st"

definition after_write_cb :: "block \<Rightarrow> blocks \<Rightarrow> blocks option" where
  "after_write_cb write_req st = free_block write_req st"

text \<open>Buffers of their own for a read.\<close>

definition alloc_buffer_new :: "blocks \<Rightarrow> block \<times> blocks" where
  "alloc_buffer_new st = malloc_block st"

definition p_alloc_buffer_new :: "blocks \<Rightarrow> block \<times> blocks" where
  "p_alloc_buffer_new st = malloc_block st"

text \<open>\<open>init_blockQueue\<close> and \<open>free_blockQueue\<close>: the queue, its lock, its condition, its array.\<close>

record queue_blocks =
  bq_self :: block
  bq_mutex :: block
  bq_cond :: block
  bq_array :: block

definition init_queue_blocks :: "blocks \<Rightarrow> queue_blocks \<times> blocks" where
  "init_queue_blocks st = (
     let (bq, st) = malloc_block st;
         (mutex, st) = malloc_block st;
         (cond, st) = malloc_block st;
         (http_req_array, st) = malloc_block st
     in (\<lparr>bq_self = bq, bq_mutex = mutex, bq_cond = cond, bq_array = http_req_array\<rparr>, st))"

definition free_blockQueue :: "queue_blocks option \<Rightarrow> blocks \<Rightarrow> blocks option" where
  "free_blockQueue bq st = (case bq of None \<Rightarrow> Some st
     | Some bq \<Rightarrow> do {
         st \<leftarrow> free_block (bq_cond bq) st;
         st \<leftarrow> free_block (bq_mutex bq) st;
         st \<leftarrow> free_block (bq_array bq) st;
         free_block (bq_self bq) st })"

text \<open>A response string of the etcd client: its text and itself.\<close>

definition free_string :: "(block \<times> block) option \<Rightarrow> blocks \<Rightarrow> blocks option" where
  "free_string s st = (case s of None \<Rightarrow> Some st
     | Some (s, s_ptr) \<Rightarrow> do { st \<leftarrow> free_block s_ptr st; free_block s st })"

section \<open>Lemmas\<close>

text \<open>Every block a queue is made of is given back, and nothing else; a second time is undefined.\<close>

lemma queue_blocks_freed:
  assumes "init_queue_blocks st = (bq, st')" and "\<forall>p \<in> live st. p < next_block st"
  shows "\<exists>st''. free_blockQueue (Some bq) st' = Some st'' \<and> live st'' = live st \<and>
    free_blockQueue None st'' = Some st'' \<and> free_blockQueue (Some bq) st'' = None"
proof -
  let ?n = "next_block st"
  have n: "?n + k \<notin> live st" for k using assms(2) by (metis not_add_less1)
  have bq: "bq = \<lparr>bq_self = ?n, bq_mutex = ?n + 1, bq_cond = ?n + 2, bq_array = ?n + 3\<rparr>" and
    st': "live st' = {?n, ?n + 1, ?n + 2, ?n + 3} \<union> live st"
    using assms(1) by (auto simp: init_queue_blocks_def malloc_block_def)
  have "live st' - {?n + 2} - {?n + 1} - {?n + 3} - {?n} = live st"
    using n [of 0] n [of 1] n [of 2] n [of 3] st' by auto
  then show ?thesis using st' n [of 2] by (simp add: free_blockQueue_def bq free_block_def)
qed

text \<open>A string, and a request with its data, are freed once.\<close>

lemma string_freed:
  assumes "p \<noteq> q" and "p \<in> live st" and "q \<in> live st"
  shows "\<exists>st'. free_string (Some (p, q)) st = Some st' \<and> live st' = live st - {p, q} \<and> free_string (Some (p, q)) st' = None"
  using assms by (auto simp: free_string_def free_block_def)

lemma write_req_freed:
  assumes "p \<noteq> q" and "p \<in> live st" and "q \<in> live st"
  shows "\<exists>st'. free_write_req_with_data p q st = Some st' \<and> live st' = live st - {p, q} \<and>
    free_write_req_with_data p q st' = None"
  using assms by (auto simp: free_write_req_with_data_def free_block_def)

end
