(* ===== verification/Deferred_Writes.thy ===== *)
theory Deferred_Writes
  imports Consumer_System
begin

text \<open>
  libuv does not copy what it is given to write: a write of the consumer agent that is not over at
  once still reads the block of its request (\<open>raw_array\<close> for a frame to a provider agent,
  \<open>response_package\<close> for an answer). Here the callbacks between a write and its end are followed:
  which of them leave the bytes alone, and that another read of the same client does not.
\<close>

section \<open>Steps of one loop\<close>

fun c_steps :: "(byte list \<Rightarrow> int \<times> int list) \<Rightarrow> i64 \<Rightarrow> c_event list \<Rightarrow> consumer \<Rightarrow> consumer option" where
  "c_steps phr start_time [] st = Some st"
| "c_steps phr start_time (e # es) st = do { st \<leftarrow> c_step phr start_time e st; c_steps phr start_time es st }"

text \<open>The callbacks of a client's connection that use its request again.\<close>

fun of_client :: "ptr \<Rightarrow> c_event \<Rightarrow> bool" where
  "of_client p (Read q bs) \<longleftrightarrow> q = p"
| "of_client p (Closed q) \<longleftrightarrow> q = p"
| "of_client p _ \<longleftrightarrow> False"

text \<open>Where a pending write finds its bytes.\<close>

definition frame_in_place :: "consumer \<Rightarrow> ptr \<Rightarrow> int \<Rightarrow> byte list \<Rightarrow> bool" where
  "frame_in_place st p start frame \<longleftrightarrow>
     (\<exists>h. reqs st p = Some h \<and> load (raw_array h) start (int (length frame)) = Some frame)"

definition answer_in_place :: "consumer \<Rightarrow> ptr \<Rightarrow> byte list \<Rightarrow> bool" where
  "answer_in_place st p answer \<longleftrightarrow>
     (\<exists>h. reqs st p = Some h \<and> load (response_package h) 0 (int (length answer)) = Some answer)"

lemma load_length: "load m a n = Some bs \<Longrightarrow> int (length bs) = n"
  by (auto simp: load_def split: if_splits)

text \<open>Sending a request leaves its frame where it was built.\<close>

lemma forward_in_place:
  assumes "forward_request p h content st = Some st'"
  shows "\<exists>i start frame. sent st' = sent st @ [To_Agent i p frame] \<and> frame_in_place st' p start frame"
proof -
  obtain raw2 bs ts lb w d where
    l: "load raw2 (request_length h - 12) (12 + content) = Some bs" and
    s: "sent st' = sent st @ [To_Agent (nat w) p bs]" and
    r: "reqs st' p = Some (h\<lparr>ts_req_beg := ts, http_req_id := req_id (event_loop st), raw_array := raw2,
      raw_array_size := 0, request_length := - 1\<rparr>)"
    using assms
    by (auto simp: forward_request_def wall_time_def send_to_provider_agent_def Let_def bind_Some_iff guard_bind split: if_splits)
  show ?thesis using l s r load_length [OF l] unfolding frame_in_place_def by auto
qed

lemma read_in_place:
  assumes "read_chunk phr p bs st = Some st'"
  shows "sent st' = sent st \<or> (\<exists>i start frame. sent st' = sent st @ [To_Agent i p frame] \<and> frame_in_place st' p start frame)"
proof -
  obtain h raw where h: "bs \<noteq> []" and
    c: "c_read_connection_data phr p (int (length bs)) (set_req p (h\<lparr>raw_array := raw\<rparr>) st) = Some st'"
    using assms unfolding read_chunk_def
    by (auto simp: bind_Some_iff guard_bind Let_def case_prod_beta simp del: split_paired_All split: if_splits)
  then consider "sent st' = sent st" | h0 content where "forward_request p h0 content (set_req p (h\<lparr>raw_array := raw\<rparr>) st) = Some st'"
    by (auto simp: c_read_connection_data_def Let_def bind_Some_iff guard_bind split: if_splits prod.splits)
  then show ?thesis
  proof cases
    case 2
    from forward_in_place [OF 2] show ?thesis by simp
  qed simp
qed

text \<open>A response leaves its answer in the package.\<close>

lemma response_in_place:
  assumes "handle_response w raw len r st = Some st'"
  shows "sent st' = sent st \<or> (\<exists>c p answer. sent st' = sent st @ [To_Client c p answer] \<and> answer_in_place st' p answer)"
proof -
  consider "sent st' = sent st" | c p h package bs where "load package 0 len = Some bs"
      "sent st' = sent st @ [To_Client c p bs]" "reqs st' p = Some (h\<lparr>response_package := package\<rparr>)"
    using assms by (auto simp: handle_response_def wall_time_def Let_def bind_Some_iff split: option.split_asm)
  then show ?thesis
  proof cases
    case 2
    with load_length [OF 2(1)] show ?thesis by (auto simp: answer_in_place_def)
  qed simp
qed

section \<open>What leaves the bytes alone\<close>

text \<open>Only a read of the client itself writes its \<open>raw_array\<close>, only an answer to it its package.\<close>

lemma read_other:
  assumes "read_chunk phr q bs st = Some st'" and "reqs st p = Some h"
  shows "\<exists>h'. reqs st' p = Some h' \<and> (p \<noteq> q \<longrightarrow> h' = h) \<and> response_package h' = response_package h \<and>
    (\<forall>c answer. sent st' \<noteq> sent st @ [To_Client c p answer])"
  using read_chunk_inv [OF assms(1)] assms(2) by (cases "p = q") force+

lemma new_connection_other:
  assumes "on_new_connection start_time status accepted q c fresh raw package st = Some (r, st')" and "reqs st p = Some h" and "reqs st q = None"
  shows "reqs st' p = Some h \<and> sent st' = sent st"
  using new_connection_inv [OF assms(1)] assms(2,3) by auto

lemma response_other:
  assumes "handle_response w raw len r st = Some st'" and "reqs st p = Some h"
  shows "\<exists>h'. reqs st' p = Some h' \<and> raw_array h' = raw_array h \<and>
    (response_package h' = response_package h \<or> (\<exists>c answer. sent st' = sent st @ [To_Client c p answer]))"
proof -
  consider "st' = st\<lparr>global_lb := global_lb st'\<rparr>" | q h0 pk c answer where "reqs st q = Some h0"
      "reqs st' = (reqs st)(q \<mapsto> h0\<lparr>response_package := pk\<rparr>)" "sent st' = sent st @ [To_Client c q answer]"
    using assms(1) by (force simp: handle_response_def wall_time_def Let_def bind_Some_iff split: option.split_asm)
  then show ?thesis
  proof cases
    case 1
    then have "reqs st' = reqs st" by (metis consumer.ext_inject consumer.surjective consumer.update_convs(3))
    with assms(2) show ?thesis by auto
  next
    case 2
    with assms(2) show ?thesis by (cases "p = q") auto
  qed
qed

lemma step_other:
  assumes "c_step phr start_time e st = Some st'" and "reqs st p = Some h" and "\<not> of_client p e"
  shows "\<exists>h' out. reqs st' p = Some h' \<and> raw_array h' = raw_array h \<and> sent st' = sent st @ out \<and>
    (response_package h' = response_package h \<or> (\<exists>c answer. To_Client c p answer \<in> set out))"
proof (cases e)
  case (New_Connection status accepted q c fresh raw package)
  with assms new_connection_other show ?thesis
    by (auto simp: guard_bind bind_Some_iff split: if_splits)
next
  case (Read q bs)
  then have r: "read_chunk phr q bs st = Some st'" "q \<noteq> p" using assms(1,3) by (auto simp: guard_bind split: if_splits)
  obtain out where "sent st' = sent st @ out" using read_in_place [OF r(1)] by (metis append_Nil2)
  with read_other [OF r(1) assms(2)] r(2) show ?thesis by auto
next
  case (Read_Error q nread)
  then show ?thesis using assms(1,2) by (auto simp: guard_bind split: if_splits dest!: read_error_inv)
next
  case (Closed q)
  then show ?thesis using assms
    by (auto simp: close_cb_def free_http_req_def bind_Some_iff guard_bind split: if_splits)
next
  case (Dummy_Read c nread)
  then show ?thesis using assms by (auto simp: c_dummy_read_connection_data_def guard_bind split: if_splits)
next
  case (Response w raw len r)
  then have r: "handle_response (int w) raw len r st = Some st'" using assms(1) by simp
  obtain out where o: "sent st' = sent st @ out" using response_in_place [OF r] by (metis append_Nil2)
  with response_other [OF r assms(2)] show ?thesis by fastforce
qed

lemma steps_other:
  assumes "c_steps phr start_time es st = Some st'" and "reqs st p = Some h" and "\<forall>e \<in> set es. \<not> of_client p e"
  shows "\<exists>h' out. reqs st' p = Some h' \<and> raw_array h' = raw_array h \<and> sent st' = sent st @ out \<and>
    (response_package h' = response_package h \<or> (\<exists>c answer. To_Client c p answer \<in> set out))"
  using assms
proof (induction es arbitrary: st h)
  case (Cons e es)
  then obtain st1 where s1: "c_step phr start_time e st = Some st1" "c_steps phr start_time es st1 = Some st'"
    by (auto simp: bind_Some_iff simp del: c_step.simps)
  obtain h1 o1 where h1: "reqs st1 p = Some h1" "raw_array h1 = raw_array h" "sent st1 = sent st @ o1"
    "response_package h1 = response_package h \<or> (\<exists>c answer. To_Client c p answer \<in> set o1)"
    using step_other [OF s1(1) Cons.prems(2)] Cons.prems(3) by auto
  obtain h2 o2 where h2: "reqs st' p = Some h2" "raw_array h2 = raw_array h1" "sent st' = sent st1 @ o2"
    "response_package h2 = response_package h1 \<or> (\<exists>c answer. To_Client c p answer \<in> set o2)"
    using Cons.IH [OF s1(2) h1(1)] Cons.prems(3) by auto
  from h1 h2 show ?case by (intro exI [of _ h2] exI [of _ "o1 @ o2"]) auto
qed simp

section \<open>Property\<close>

lemma c_step_in_place:
  assumes "c_step phr start_time e st = Some st1" and "sent st1 = sent st @ [w]"
  shows "(\<exists>i p frame start. w = To_Agent i p frame \<and> frame_in_place st1 p start frame) \<or>
    (\<exists>c p answer. w = To_Client c p answer \<and> answer_in_place st1 p answer)"
proof (cases e)
  case (New_Connection status accepted q c fresh raw package)
  then obtain r where "on_new_connection start_time status accepted q c fresh raw package st = Some (r, st1)"
    using assms(1) by (auto simp: guard_bind bind_Some_iff split: if_splits)
  from new_connection_inv [OF this] assms(2) show ?thesis by auto
next
  case (Read q bs)
  then have "read_chunk phr q bs st = Some st1" using assms(1) by (auto simp: guard_bind split: if_splits)
  from read_in_place [OF this] assms(2) show ?thesis by auto
next
  case (Read_Error q nread)
  then show ?thesis using assms by (auto simp: guard_bind split: if_splits dest!: read_error_inv)
next
  case (Closed q)
  then show ?thesis using assms by (auto simp: close_cb_def free_http_req_def bind_Some_iff guard_bind split: if_splits)
next
  case (Dummy_Read c nread)
  then show ?thesis using assms by (auto simp: c_dummy_read_connection_data_def guard_bind split: if_splits)
next
  case (Response w' raw len r)
  then have "handle_response (int w') raw len r st = Some st1" using assms(1) by simp
  from response_in_place [OF this] assms(2) show ?thesis by auto
qed

text \<open>C34. Writes that are not over at once (\<open>send_to_provider_agent\<close>, \<open>c_read_from_provide_agents\<close>):
  libuv reads the bytes of a write from the block of its request until the write is over. Whatever
  callbacks run in between, for other clients and provider agents, as long as its own client sends
  nothing and is not closed, a frame to a provider agent stays byte for byte where it is; and so does
  an answer, as long as no other answer to the same request arrives.\<close>

theorem pending_writes_intact:
  assumes "c_step phr start_time e st = Some st1" and "sent st1 = sent st @ [w]"
    and "c_steps phr start_time es st1 = Some st2"
  shows "case w of
      To_Agent i p frame \<Rightarrow> (\<forall>e \<in> set es. \<not> of_client p e) \<longrightarrow>
        (\<exists>start. frame_in_place st1 p start frame \<and> frame_in_place st2 p start frame)
    | To_Client c p answer \<Rightarrow> (\<forall>e \<in> set es. \<not> of_client p e) \<and>
          (\<forall>c' answer'. To_Client c' p answer' \<notin> set (drop (length (sent st1)) (sent st2))) \<longrightarrow>
        answer_in_place st1 p answer \<and> answer_in_place st2 p answer"
proof (cases w)
  case (To_Agent i p frame)
  then obtain start where f: "frame_in_place st1 p start frame" using c_step_in_place [OF assms(1,2)] by auto
  with steps_other [OF assms(3), of p] To_Agent show ?thesis by (force simp: frame_in_place_def)
next
  case (To_Client c p answer)
  then have a: "answer_in_place st1 p answer" using c_step_in_place [OF assms(1,2)] by auto
  with steps_other [OF assms(3), of p] To_Client show ?thesis by (force simp: answer_in_place_def)
qed

text \<open>The read that brings the client's next request puts it over the frame.\<close>

lemma next_read_overwrites:
  assumes "reqs st p = Some h" and "raw_array_size h = 0" and "store (raw_array h) (fst (alloc_buffer h)) bs = Some raw"
    and "0 \<le> start" and "start + int (length frame) \<le> int (length bs)"
  shows "load raw start (int (length frame)) = Some (take (length frame) (drop (nat start) bs))"
proof -
  have "raw = bs @ drop (length bs) (raw_array h)"
    using assms(2,3) by (auto simp: alloc_buffer_def store_def split: if_splits)
  with assms(4,5) show ?thesis by (simp add: load_def nat_le_iff)
qed

theorem pending_writes_intact_witness:
  "\<exists>st1 st2 i frame. c_step (parse_header head_example 33) 0 (Read 7 example_request) consumer_example = Some st1 \<and>
    sent st1 = sent consumer_example @ [To_Agent i 7 frame] \<and>
    c_steps (parse_header head_example 33) 0 [Read_Error 7 (- 4095)] st1 = Some st2 \<and>
    (\<exists>start. frame_in_place st1 7 start frame \<and> frame_in_place st2 7 start frame)"
proof -
  have c: "closing consumer_example = []" "global_conn_remain_count consumer_example = 1" by (simp_all add: consumer_example_def)
  obtain st1 where r: "read_chunk (parse_header head_example 33) 7 example_request consumer_example = Some st1"
    "request_sent 7 (bytes ''a=b'') consumer_example st1"
    using read_chunks_request [OF head_example_parses consumer_example_facts(1,2), of "[]" example_request]
      length_head_example lb_example_room lb_example_ok
    by (auto simp: consumer_example_facts example_request_def bind_Some_iff)
  have s1: "c_step (parse_header head_example 33) 0 (Read 7 example_request) consumer_example = Some st1"
    using r(1) by (simp add: c)
  obtain i frame h where w: "sent st1 = sent consumer_example @ [To_Agent i 7 frame]" "reqs st1 7 = Some h"
    "closing st1 = []" "global_conn_remain_count st1 = 1"
    using r(2) c unfolding request_sent_def by auto
  then obtain st2 where s2: "c_steps (parse_header head_example 33) 0 [Read_Error 7 (- 4095)] st1 = Some st2"
    by (simp add: c_read_connection_data_def guard_bind int_ok_def)
  from pending_writes_intact [OF s1 w(1) s2] have "\<exists>start. frame_in_place st1 7 start frame \<and> frame_in_place st2 7 start frame"
    by simp
  with s1 w(1) s2 show ?thesis by blast
qed

end
