(* ===== verification/Spec2Isabelle.thy ===== *)
theory Spec2Isabelle
  imports Int10_To_Str Http_Req_Queue Block_Queue_Threads End_To_End Buffer_Bounds Provider_Start Jvm_Cmd Agent_Main
    Atomic_Integer Host_Utils Heap_Blocks Deferred_Writes
begin

text \<open>
  The agents of \<open>service-mesh-agent\<close>: a consumer agent takes the HTTP requests of a client and
  hands each to one of several provider agents; a provider agent makes a Dubbo request of it, gives it to
  the service beside it and sends the answer back. Both are single programs around libuv
  (\<open>src/src\<close>); \<open>main.c\<close> becomes one or the other. The paths below are relative to \<open>src/src\<close>.

  \<^bold>\<open>Conventions.\<close> A computation that may leave the defined behaviour of C has an \<open>option\<close> result, and
  \<open>None\<close> is that outcome (a read or write outside a block, a use of a freed object, a block freed twice, a handle
  or connect request freed while libuv has it, a loop that does not return); so a theorem that something
  is \<open>Some\<close> says that it is safe and that it returns. A sum with
  \<open>Inl c\<close> is an exit of the process with code \<open>c\<close>. Integers have their width (\<open>8\<close>, \<open>32\<close> and \<open>64 word\<close>),
  or are \<open>int\<close> with the wrap-around written out (\<open>to_int\<close>, \<open>to_size\<close>). Blocks of memory are
  byte lists, and a pointer into one is its offset. Memory \<open>malloc\<close> has not initialised is an argument
  (\<open>fresh\<close>), so nothing is assumed of it. A callback of libuv is one definition, and the callbacks that
  may come next are the events of a step function; reachable states are inductive predicates.

  \<^bold>\<open>The parts, their theories and what is shown.\<close>

  \<^item> Common: \<open>Prelude\<close> (types, conversions, options), \<open>C_Mem\<close> (blocks, \<open>memcpy\<close>, \<open>memmove\<close>),
    \<open>C_Str\<close> (strings, \<open>atoi\<close>, \<open>strtok\<close>, decimal printing and its round trip).
  \<^item> Codecs of \<open>utils/utils.c\<close>: \<open>Byte_Codec\<close> and \<open>Int10_To_Str\<close>; each reads back what it writes and
    touches only its bytes; the decimal printer is right for every 64-bit number.
  \<^item> Frames between the agents, and the readers of them: \<open>Agent_Frame\<close>; \<open>Framing\<close> is the locale
    \<open>framed_reader\<close>, the contract of a loop that takes length-prefixed frames off a buffer, with lemmas on
    any cutting of a stream into reads; it is interpreted three times, on the loops of
    \<open>Provider_Frames\<close> and \<open>Consumer_Responses\<close>.
  \<^item> Tokenizer (\<open>utils/tokenizer.c\<close>, \<open>tokenizer_fast_req.c\<close>): \<open>Simd\<close> (the instructions), \<open>Tokenizer_Split\<close>
    (the three splitters, an interpretation each of the locale \<open>splitter\<close>, which makes them equal),
    \<open>Tokenizer_Body\<close>, \<open>Dubbo_Frame\<close> (the specification of the Dubbo request and that the code writes it),
    \<open>Tokenizer_Fast\<close> (the shortcuts agree with the general routine).
  \<^item> Provider agent (\<open>provider_agent.c\<close>): \<open>Provider_Start\<close> (the lookup, the registration and the test of
    Dubbo, whose callback is undefined), \<open>Provider_Frames\<close> (requests and responses are forwarded once and in order),
    \<open>Provider_Relay\<close> (the life of a relay, with its blocks and handles, refines an automaton of phases;
    transfer in both directions under any schedule; closing leaves its two buffers and nothing else).
  \<^item> Consumer agent (\<open>consumer_agent.c\<close>): \<open>Consumer_State\<close>, \<open>Consumer_Requests\<close> (one HTTP request becomes
    one frame), \<open>Consumer_Responses\<close>, \<open>Consumer_Connect\<close> (the connections to the provider agents, as a
    state machine), \<open>Consumer_System\<close> (all loops with what they share; invariants of reachable states:
    the count of connections and those beyond the limit, the requests in flight, who gets an answer).
  \<^item> \<open>Buffer_Bounds\<close>: in every reachable state of either agent, what the alloc callbacks offer to libuv is
    the rest of the block, whatever bytes arrived. \<open>Deferred_Writes\<close>: which callbacks leave the bytes of
    a write alone until it is over. \<open>Heap_Blocks\<close>: the functions that only take or give back memory. \<open>End_To_End\<close>: both agents composed on one request.
  \<^item> Load balancer (\<open>utils/loadBalancer.c\<close>): \<open>Balancer_Spec\<close> (the locale \<open>balancer\<close>, about whole histories)
    and \<open>Load_Balancer\<close>, which interprets it.
  \<^item> Discovery: \<open>Server_Uri\<close>, \<open>Etcd\<close> (\<open>utils/etcd.c\<close>) and \<open>Discovery\<close>: what a provider registers is
    what the consumer finds.
  \<^item> Queues: \<open>Ring_Queue_Spec\<close> (the locale \<open>bounded_fifo\<close>), interpreted in \<open>Block_Queue\<close> and
    \<open>Http_Req_Queue\<close>; \<open>Block_Queue_Threads\<close> has any number of threads, with no wake-up lost.
    \<open>Atomic_Integer\<close> (\<open>utils/atomic_integer.h\<close>): a counter under any interleaving.
  \<^item> The process: \<open>Logger\<close> (\<open>utils/log.c\<close>), \<open>Agent_Main\<close> (\<open>main.c\<close>), \<open>Host_Utils\<close> (addresses and files of
    \<open>utils/utils.c\<close>), \<open>Jvm_Cmd\<close> (\<open>utils/jvm_cmd.c\<close>: signalling the Java process and sending it commands,
    over the log of its system calls in the state monad). \<open>Agent_Main\<close> composes \<open>main\<close> with
    the first part of each agent, which decides whether it serves or the process exits.

  \<^bold>\<open>Parameters.\<close> Code outside the repository is an argument of the definitions: the HTTP parser, libcurl,
  jsmn and base64, the resolver, the kernel's answers, the clock. What is relied on is a named
  hypothesis (\<open>parses\<close> for the HTTP parser), and each theorem with hypotheses has a witness, a
  concrete run where they hold.

  \<^bold>\<open>Loops.\<close> There is no fuel: a loop of the code is structural recursion, a \<open>function\<close> with a measure
  (\<open>wait_for_socket\<close> counts its ten tries), or, where it can run for ever on some input, a
  \<open>partial_function (option)\<close>, and then the theorems prove that it returns. Sizes are the code's own:
  4096 bytes for the buffers of relays and endpoints, 8192 for those of requests, 8192 slots of
  \<open>http_req_dict\<close>, so that an answer finds its request among the last 4096 of its loop; the numbers of
  loops are those of \<open>config.h\<close>.

  \<^bold>\<open>Faults.\<close> Some theorems show a fault of the code at work: a body that arrives after its header
  (\<open>late_body_undefined\<close>), an answer to a closed connection (\<open>late_response_uses_freed_request\<close>), the
  second close of a relay (\<open>relay_double_close\<close>), requests spoiled in the BMI build
  (\<open>bmi_spoils_next_request\<close>), more than three agents (\<open>more_than_three_agents\<close>), a failed start that is
  remembered as process 1 (\<open>failed_start_is_final\<close>); handles freed while libuv has them, after a
  failed connect to Dubbo (\<open>failed_dubbo_connect\<close>) or to a provider agent
  (\<open>endpoint_callbacks\<close>) and in the test of Dubbo (\<open>provider_start\<close>); the buffers of a closed
  relay, which stay allocated (\<open>relay_closes\<close>); connections beyond the limit, which stay open
  (\<open>connection_count\<close>); a log that could not be opened and is closed all the same
  (\<open>main_runs_agent\<close>). Since the callback of the test frees a handle libuv has, a provider agent has
  no defined run past its start; the theorems on relays take the loops as started.

  \<^bold>\<open>Not modelled.\<close> The tests and the playground; the third-party code (\<open>3rd-deps\<close>: the HTTP parser, jsmn,
  base64, uthash) and libraries; the options of sockets; the macOS branch of \<open>jvm_cmd.c\<close> and the branch
  of \<open>packFloat\<close> for other processors, which are not compiled; the assertions of debug builds. libuv writes at once, except in \<open>Deferred_Writes\<close>, and
  the requests of writes are not followed: of the blocks of memory, the relays have their own and those of
  handles and connect requests, the consumer agent its requests, handles and connect requests.
\<close>

end
